(* ===== verification/Prelude.thy ===== *)
theory Prelude
  imports Main "HOL-Library.Word" "HOL-Library.Sublist" "HOL-Library.Monad_Syntax"
    "HOL-Library.Signed_Division"
begin

text \<open>
  Shared vocabulary of the development: the C integer types as words, the byte strings that
  stand for memory regions, the interface of an encoder/decoder pair, and the generic lemmas
  on lists, options and 32-bit serial numbers that the component theories use.

  Conventions used by every theory.
  \<^item> An \<open>uintN_t\<close> is an \<open>N word\<close>, so arithmetic wraps as in C; \<open>sint\<close> reads it as
    \<open>intN_t\<close>. \<open>size_t\<close> values that cannot wrap are \<open>nat\<close>.
  \<^item> A pointer into a byte buffer is the list of the bytes from the pointer to the end of the
    readable region; advancing it is \<open>drop\<close>. A read past the end is \<open>None\<close>.
  \<^item> \<open>assert\<close> is compiled out (release builds): where an assertion holds it is proved as a
    lemma.
\<close>

unbundle bit_operations_syntax

type_synonym u8 = "8 word"
type_synonym u16 = "16 word"
type_synonym u32 = "32 word"
type_synonym u64 = "64 word"
type_synonym bytes = "u8 list"

subsection \<open>Encoders and decoders\<close>

text \<open>
  The contract of a pair of a writer and a reader of some C structure: what was written is
  read back, and the reader leaves the pointer right after it.
\<close>

locale codec =
  fixes enc :: "'v \<Rightarrow> bytes"
    and dec :: "bytes \<Rightarrow> ('v \<times> bytes) option"
    and ok :: "'v \<Rightarrow> bool"
  assumes dec_enc: "ok v \<Longrightarrow> dec (enc v @ rest) = Some (v, rest)"
begin

lemma enc_inject: "ok v \<Longrightarrow> ok w \<Longrightarrow> enc v @ r = enc w @ r' \<Longrightarrow> v = w \<and> r = r'"
  by (metis dec_enc option.inject prod.inject)

lemma enc_prefix_free: "ok v \<Longrightarrow> ok w \<Longrightarrow> prefix (enc v) (enc w) \<Longrightarrow> v = w"
  by (metis append.right_neutral enc_inject prefixE)

lemma dec_enc_exact: "ok v \<Longrightarrow> dec (enc v) = Some (v, [])"
  using dec_enc [of v "[]"] by simp

lemma enc_concat_inject:
  "list_all ok vs \<Longrightarrow> list_all ok ws \<Longrightarrow> length vs = length ws \<Longrightarrow>
   concat (map enc vs) = concat (map enc ws) \<Longrightarrow> vs = ws"
proof (induction vs arbitrary: ws)
  case Nil
  then show ?case by simp
next
  case (Cons v vs)
  from \<open>length (v # vs) = length ws\<close> obtain w ws' where ws: "ws = w # ws'"
    by (cases ws) auto
  have "enc v @ concat (map enc vs) = enc w @ concat (map enc ws')"
    using Cons.prems(4) ws by simp
  then have "v = w \<and> concat (map enc vs) = concat (map enc ws')"
    using Cons.prems(1,2) ws by (intro enc_inject) auto
  with Cons ws show ?case by auto
qed

end

subsection \<open>Lists\<close>

lemma concat_take_Suc:
  "n < length xs \<Longrightarrow> concat (take (Suc n) xs) = concat (take n xs) @ xs ! n"
  by (simp add: take_Suc_conv_app_nth)

lemma takeWhile_Cons_if: "takeWhile P (x # xs) = (if P x then x # takeWhile P xs else [])"
  by simp

lemma sorted_wrt_less_nth_ge:
  "sorted_wrt (<) (is :: nat list) \<Longrightarrow> \<forall>i \<in> set is. n \<le> i \<Longrightarrow> k < length is \<Longrightarrow> n + k \<le> is ! k"
proof (induction k)
  case 0
  then show ?case by simp
next
  case (Suc k)
  then have "n + k \<le> is ! k" by simp
  moreover have "is ! k < is ! Suc k"
    using Suc.prems by (simp add: sorted_wrt_nth_less)
  ultimately show ?case by simp
qed

subsection \<open>Words\<close>

lemma unat_of_nat_u32: "i < 2 ^ 32 \<Longrightarrow> unat (of_nat i :: u32) = i"
  by (simp add: unat_of_nat)

lemma of_nat_u32_inject:
  "i < 2 ^ 32 \<Longrightarrow> j < 2 ^ 32 \<Longrightarrow> (of_nat i :: u32) = of_nat j \<longleftrightarrow> i = j"
  by (metis unat_of_nat_u32)


lemma unat_word_of_int: "0 \<le> i \<Longrightarrow> i < 2 ^ 32 \<Longrightarrow> unat (word_of_int i :: u32) = nat i"
  by (simp add: unat_eq_nat_uint uint_word_of_int)

end
