(* ===== verification/Conf.thy ===== *)
theory Conf
  imports Prelude
begin

text \<open>
  The configuration (\<^verbatim>\<open>src/conf.c\<close>, \<^verbatim>\<open>conf.h\<close>, \<^verbatim>\<open>jsonutil.c\<close>): walking the
  parsed JSON document, the defaults and the checks. The JSON text is parsed by cJSON, which is
  not modelled: \<open>jutil_value\<close> is the tree it returns, a number being the \<open>valueint\<close> field the
  code reads. A \<open>char *\<close> field is an optional string. The build has crypto and obfs enabled.
\<close>

subsection \<open>JSON values\<close>

datatype jutil_value =
    JNull
  | JBool bool
  | JNumber int
  | JString string
  | JArray "jutil_value list"
  | JObject "(string \<times> jutil_value) list"

text \<open>A callback gets the key, the value and the user data and returns success and the new data.\<close>

type_synonym 'u walk_cb = "string \<Rightarrow> jutil_value \<Rightarrow> 'u \<Rightarrow> bool \<times> 'u"

fun walk_children :: "'u walk_cb \<Rightarrow> (string \<times> jutil_value) list \<Rightarrow> 'u \<Rightarrow> bool \<times> 'u" where
  "walk_children cb [] ud = (True, ud)"
| "walk_children cb ((key, value) # rest) ud =
     (let (ok, ud') = cb key value ud
      in if ok then walk_children cb rest ud' else (False, ud'))"

definition jutil_walk_object :: "'u walk_cb \<Rightarrow> jutil_value \<Rightarrow> 'u \<Rightarrow> bool \<times> 'u" where
  "jutil_walk_object cb value ud =
     (case value of JObject children \<Rightarrow> walk_children cb children ud | _ \<Rightarrow> (False, ud))"

definition jutil_get_bool :: "jutil_value \<Rightarrow> bool option" where
  "jutil_get_bool value = (case value of JBool b \<Rightarrow> Some b | _ \<Rightarrow> None)"

definition jutil_get_int :: "jutil_value \<Rightarrow> int option" where
  "jutil_get_int value = (case value of JNumber i \<Rightarrow> Some i | _ \<Rightarrow> None)"

definition jutil_get_string :: "jutil_value \<Rightarrow> string option" where
  "jutil_get_string value = (case value of JString s \<Rightarrow> Some s | _ \<Rightarrow> None)"

subsection \<open>The configuration record\<close>

record config =
  c_listen :: "string option"
  c_connect :: "string option"
  c_kcp_bind :: "string option"
  c_kcp_connect :: "string option"
  c_rendezvous_server :: "string option"
  c_http_listen :: "string option"
  c_netdev :: "string option"
  c_mode :: int
  c_kcp_mtu :: int
  c_kcp_sndwnd :: int
  c_kcp_rcvwnd :: int
  c_kcp_nodelay :: int
  c_kcp_interval :: int
  c_kcp_resend :: int
  c_kcp_nc :: int
  c_kcp_flush :: int
  c_tcp_reuseport :: bool
  c_tcp_keepalive :: bool
  c_tcp_nodelay :: bool
  c_tcp_sndbuf :: int
  c_tcp_rcvbuf :: int
  c_udp_reuseport :: bool
  c_udp_sndbuf :: int
  c_udp_rcvbuf :: int
  c_method :: "string option"
  c_password :: "string option"
  c_psk :: "string option"
  c_obfs :: "string option"
  c_timeout :: int
  c_linger :: int
  c_keepalive :: int
  c_time_wait :: int
  c_log_level :: int
  c_user :: "string option"

definition MODE_SERVER :: int where "MODE_SERVER = 1"
definition MODE_CLIENT :: int where "MODE_CLIENT = 2"
definition MODE_RENDEZVOUS :: int where "MODE_RENDEZVOUS = 4"

definition LOG_LEVEL_SILENCE :: int where "LOG_LEVEL_SILENCE = 0"
definition LOG_LEVEL_NOTICE :: int where "LOG_LEVEL_NOTICE = 4"
definition LOG_LEVEL_VERYVERBOSE :: int where "LOG_LEVEL_VERYVERBOSE = 8"

lemmas conf_consts = MODE_SERVER_def MODE_CLIENT_def MODE_RENDEZVOUS_def LOG_LEVEL_SILENCE_def
  LOG_LEVEL_NOTICE_def LOG_LEVEL_VERYVERBOSE_def

text \<open>
  A getter of the wrong type fails and leaves the number or flag alone; a string field is assigned
  the result, null on failure.
\<close>

definition put_int :: "int option \<Rightarrow> ((int \<Rightarrow> int) \<Rightarrow> config \<Rightarrow> config) \<Rightarrow> config \<Rightarrow> bool \<times> config" where
  "put_int v upd conf = (case v of Some i \<Rightarrow> (True, upd (\<lambda>_. i) conf) | None \<Rightarrow> (False, conf))"

definition put_bool :: "bool option \<Rightarrow> ((bool \<Rightarrow> bool) \<Rightarrow> config \<Rightarrow> config) \<Rightarrow> config \<Rightarrow> bool \<times> config" where
  "put_bool v upd conf = (case v of Some b \<Rightarrow> (True, upd (\<lambda>_. b) conf) | None \<Rightarrow> (False, conf))"

definition put_str :: "string option \<Rightarrow> ((string option \<Rightarrow> string option) \<Rightarrow> config \<Rightarrow> config) \<Rightarrow>
    config \<Rightarrow> bool \<times> config" where
  "put_str v upd conf = (v \<noteq> None, upd (\<lambda>_. v) conf)"

lemmas put_defs = put_int_def put_bool_def put_str_def

subsection \<open>The scopes of the document\<close>

definition kcp_scope_cb :: "config walk_cb" where
  "kcp_scope_cb key value conf =
     (if key = ''mtu'' then put_int (jutil_get_int value) c_kcp_mtu_update conf
      else if key = ''sndwnd'' then put_int (jutil_get_int value) c_kcp_sndwnd_update conf
      else if key = ''rcvwnd'' then put_int (jutil_get_int value) c_kcp_rcvwnd_update conf
      else if key = ''nodelay'' then put_int (jutil_get_int value) c_kcp_nodelay_update conf
      else if key = ''interval'' then put_int (jutil_get_int value) c_kcp_interval_update conf
      else if key = ''resend'' then put_int (jutil_get_int value) c_kcp_resend_update conf
      else if key = ''nc'' then put_int (jutil_get_int value) c_kcp_nc_update conf
      else if key = ''flush'' then put_int (jutil_get_int value) c_kcp_flush_update conf
      else (True, conf))"

definition tcp_scope_cb :: "config walk_cb" where
  "tcp_scope_cb key value conf =
     (if key = ''reuseport'' then put_bool (jutil_get_bool value) c_tcp_reuseport_update conf
      else if key = ''keepalive'' then put_bool (jutil_get_bool value) c_tcp_keepalive_update conf
      else if key = ''nodelay'' then put_bool (jutil_get_bool value) c_tcp_nodelay_update conf
      else if key = ''sndbuf'' then put_int (jutil_get_int value) c_tcp_sndbuf_update conf
      else if key = ''rcvbuf'' then put_int (jutil_get_int value) c_tcp_rcvbuf_update conf
      else (True, conf))"

definition udp_scope_cb :: "config walk_cb" where
  "udp_scope_cb key value conf =
     (if key = ''reuseport'' then put_bool (jutil_get_bool value) c_udp_reuseport_update conf
      else if key = ''sndbuf'' then put_int (jutil_get_int value) c_udp_sndbuf_update conf
      else if key = ''rcvbuf'' then put_int (jutil_get_int value) c_udp_rcvbuf_update conf
      else (True, conf))"

definition main_scope_cb :: "config walk_cb" where
  "main_scope_cb key value conf =
     (if key = ''kcp'' then jutil_walk_object kcp_scope_cb value conf
      else if key = ''udp'' then jutil_walk_object udp_scope_cb value conf
      else if key = ''tcp'' then jutil_walk_object tcp_scope_cb value conf
      else if key = ''listen'' then put_str (jutil_get_string value) c_listen_update conf
      else if key = ''connect'' then put_str (jutil_get_string value) c_connect_update conf
      else if key = ''kcp_bind'' then put_str (jutil_get_string value) c_kcp_bind_update conf
      else if key = ''kcp_connect'' then put_str (jutil_get_string value) c_kcp_connect_update conf
      else if key = ''rendezvous_server''
      then put_str (jutil_get_string value) c_rendezvous_server_update conf
      else if key = ''http_listen'' then put_str (jutil_get_string value) c_http_listen_update conf
      else if key = ''netdev'' then put_str (jutil_get_string value) c_netdev_update conf
      else if key = ''method'' then put_str (jutil_get_string value) c_method_update conf
      else if key = ''password'' then put_str (jutil_get_string value) c_password_update conf
      else if key = ''psk'' then put_str (jutil_get_string value) c_psk_update conf
      else if key = ''obfs'' then put_str (jutil_get_string value) c_obfs_update conf
      else if key = ''linger'' then put_int (jutil_get_int value) c_linger_update conf
      else if key = ''timeout'' then put_int (jutil_get_int value) c_timeout_update conf
      else if key = ''keepalive'' then put_int (jutil_get_int value) c_keepalive_update conf
      else if key = ''time_wait'' then put_int (jutil_get_int value) c_time_wait_update conf
      else if key = ''loglevel'' then put_int (jutil_get_int value) c_log_level_update conf
      else if key = ''user'' then put_str (jutil_get_string value) c_user_update conf
      else (True, conf))"

subsection \<open>Defaults and checks\<close>

definition conf_default :: config where
  "conf_default =
     \<lparr>c_listen = None, c_connect = None, c_kcp_bind = None, c_kcp_connect = None,
      c_rendezvous_server = None, c_http_listen = None, c_netdev = None, c_mode = 0,
      c_kcp_mtu = 1400, c_kcp_sndwnd = 256, c_kcp_rcvwnd = 256, c_kcp_nodelay = 1,
      c_kcp_interval = 100, c_kcp_resend = 0, c_kcp_nc = 1, c_kcp_flush = 1,
      c_tcp_reuseport = False, c_tcp_keepalive = False, c_tcp_nodelay = True, c_tcp_sndbuf = 0,
      c_tcp_rcvbuf = 0, c_udp_reuseport = False, c_udp_sndbuf = 0, c_udp_rcvbuf = 0,
      c_method = None, c_password = None, c_psk = None, c_obfs = None, c_timeout = 600,
      c_linger = 30, c_keepalive = 25, c_time_wait = 120, c_log_level = LOG_LEVEL_NOTICE,
      c_user = None\<rparr>"

definition range_check_int :: "int \<Rightarrow> int \<Rightarrow> int \<Rightarrow> bool" where
  "range_check_int value lbound ubound = (\<not> (value < lbound \<or> value > ubound))"

definition conf_mode :: "config \<Rightarrow> int" where
  "conf_mode conf =
     (let m0 = (if c_connect conf \<noteq> None then MODE_SERVER else 0);
          m1 = (if c_listen conf \<noteq> None then m0 OR MODE_CLIENT else m0)
      in if c_rendezvous_server conf \<noteq> None then m1 OR MODE_RENDEZVOUS else m1)"

definition conf_ranges :: "config \<Rightarrow> bool" where
  "conf_ranges conf \<longleftrightarrow>
     range_check_int (c_kcp_mtu conf) 300 1500 \<and>
     range_check_int (c_kcp_sndwnd conf) 16 65536 \<and>
     range_check_int (c_kcp_rcvwnd conf) 16 65536 \<and>
     range_check_int (c_kcp_nodelay conf) 0 2 \<and>
     range_check_int (c_kcp_interval conf) 10 500 \<and>
     range_check_int (c_kcp_resend conf) 0 100 \<and>
     range_check_int (c_kcp_nc conf) 0 1 \<and>
     range_check_int (c_kcp_flush conf) 0 2 \<and>
     range_check_int (c_timeout conf) 60 86400 \<and>
     range_check_int (c_linger conf) 5 600 \<and>
     range_check_int (c_keepalive conf) 0 600 \<and>
     range_check_int (c_time_wait conf) 5 3600 \<and>
     range_check_int (c_log_level conf) LOG_LEVEL_SILENCE LOG_LEVEL_VERYVERBOSE"

definition conf_check :: "config \<Rightarrow> bool \<times> config" where
  "conf_check conf =
     (let mode = conf_mode conf in
      if mode AND (MODE_SERVER OR MODE_CLIENT) = MODE_SERVER OR MODE_CLIENT then (False, conf)
      else if mode AND MODE_RENDEZVOUS \<noteq> 0 \<and> c_keepalive conf \<le> 0 then (False, conf)
      else if (mode AND (MODE_RENDEZVOUS OR MODE_SERVER) = MODE_SERVER \<and> c_kcp_bind conf = None) \<or>
              (mode AND (MODE_RENDEZVOUS OR MODE_CLIENT) = MODE_CLIENT \<and> c_kcp_connect conf = None) \<or>
              (mode AND (MODE_SERVER OR MODE_CLIENT) = 0 \<and> c_kcp_bind conf = None)
      then (False, conf)
      else
        (let conf1 = conf\<lparr>c_mode := mode\<rparr> in
         if c_psk conf \<noteq> None \<and> c_password conf \<noteq> None then (False, conf1)
         else if \<not> conf_ranges conf then (False, conf1)
         else (True, conf1)))"

text \<open>\<open>root\<close> is the parsed document, \<open>None\<close> when reading or parsing the file failed.\<close>

definition conf_read :: "jutil_value option \<Rightarrow> config option" where
  "conf_read root =
     (case root of None \<Rightarrow> None
      | Some value \<Rightarrow>
          (let (ok, conf) = jutil_walk_object main_scope_cb value conf_default in
           if \<not> ok then None
           else let (ok', conf') = conf_check conf in if ok' then Some conf' else None))"

definition conf_modestr :: "config \<Rightarrow> string" where
  "conf_modestr conf =
     (if c_mode conf AND MODE_SERVER \<noteq> 0 then ''server''
      else if c_mode conf AND MODE_CLIENT \<noteq> 0 then ''client''
      else ''rendezvous server'')"

subsection \<open>What an accepted configuration is\<close>

text \<open>The service a configuration names: exactly one role, with the address that role needs.\<close>

definition conf_role_ok :: "config \<Rightarrow> bool" where
  "conf_role_ok conf \<longleftrightarrow>
     \<not> (c_connect conf \<noteq> None \<and> c_listen conf \<noteq> None) \<and>
     (c_rendezvous_server conf \<noteq> None \<longrightarrow> 0 < c_keepalive conf) \<and>
     (c_connect conf \<noteq> None \<longrightarrow> c_rendezvous_server conf \<noteq> None \<or> c_kcp_bind conf \<noteq> None) \<and>
     (c_listen conf \<noteq> None \<longrightarrow> c_rendezvous_server conf \<noteq> None \<or> c_kcp_connect conf \<noteq> None) \<and>
     (c_connect conf = None \<and> c_listen conf = None \<longrightarrow> c_kcp_bind conf \<noteq> None)"

lemma conf_mode_cases:
  "conf_mode conf =
     (if c_connect conf \<noteq> None then 1 else 0) + (if c_listen conf \<noteq> None then 2 else 0) +
     (if c_rendezvous_server conf \<noteq> None then 4 else 0)"
  by (simp add: conf_mode_def conf_consts Let_def)

lemma conf_check_iff:
  "fst (conf_check conf) \<longleftrightarrow>
     conf_role_ok conf \<and> \<not> (c_psk conf \<noteq> None \<and> c_password conf \<noteq> None) \<and> conf_ranges conf"
  by (cases "c_connect conf"; cases "c_listen conf"; cases "c_rendezvous_server conf")
    (auto simp: conf_check_def conf_mode_cases conf_role_ok_def conf_consts Let_def)

lemma conf_check_mode: "fst (conf_check conf) \<Longrightarrow> snd (conf_check conf) = conf\<lparr>c_mode := conf_mode conf\<rparr>"
  by (auto simp: conf_check_def Let_def split: if_splits)

lemma conf_read_Some:
  assumes "conf_read root = Some conf"
  obtains conf0 where "fst (conf_check conf0)" "conf = conf0\<lparr>c_mode := conf_mode conf0\<rparr>"
proof -
  obtain v where root: "root = Some v"
    using assms by (cases root) (auto simp: conf_read_def)
  obtain ok conf0 where walk: "jutil_walk_object main_scope_cb v conf_default = (ok, conf0)"
    by (meson surj_pair)
  have "fst (conf_check conf0)" "conf = snd (conf_check conf0)"
    using assms by (auto simp: conf_read_def root walk case_prod_beta split: if_splits)
  then show thesis using that conf_check_mode by metis
qed

end
