(* ===== verification/Serialize.thy ===== *)
theory Serialize
  imports Prelude
begin

text \<open>
  The primitive serializer \<^verbatim>\<open>contrib/csnippets/utils/serialize.h\<close>. A writer is the list of
  the bytes it stores at its pointer, lowest address first; a reader takes the readable bytes
  from its pointer on and is \<open>None\<close> when there are too few of them. The lemmas are the round
  trips in both directions, for both byte orders.
\<close>

subsection \<open>Definitions\<close>

fun read_uint8 :: "bytes \<Rightarrow> u8 option" where
  "read_uint8 (b0 # _) = Some b0"
| "read_uint8 _ = None"

definition write_uint8 :: "u8 \<Rightarrow> bytes" where
  "write_uint8 v = [v]"

fun read_uint16 :: "bytes \<Rightarrow> u16 option" where
  "read_uint16 (b0 # b1 # _) = Some (push_bit 8 (ucast b0) OR ucast b1)"
| "read_uint16 _ = None"

fun read_uint16_le :: "bytes \<Rightarrow> u16 option" where
  "read_uint16_le (b0 # b1 # _) = Some (ucast b0 OR push_bit 8 (ucast b1))"
| "read_uint16_le _ = None"

definition write_uint16 :: "u16 \<Rightarrow> bytes" where
  "write_uint16 v = [ucast (drop_bit 8 v), ucast v]"

definition write_uint16_le :: "u16 \<Rightarrow> bytes" where
  "write_uint16_le v = [ucast v, ucast (drop_bit 8 v)]"

fun read_uint32 :: "bytes \<Rightarrow> u32 option" where
  "read_uint32 (b0 # b1 # b2 # b3 # _) =
     Some (push_bit 24 (ucast b0) OR push_bit 16 (ucast b1) OR
           push_bit 8 (ucast b2) OR ucast b3)"
| "read_uint32 _ = None"

fun read_uint32_le :: "bytes \<Rightarrow> u32 option" where
  "read_uint32_le (b0 # b1 # b2 # b3 # _) =
     Some (ucast b0 OR push_bit 8 (ucast b1) OR
           push_bit 16 (ucast b2) OR push_bit 24 (ucast b3))"
| "read_uint32_le _ = None"

definition write_uint32 :: "u32 \<Rightarrow> bytes" where
  "write_uint32 v =
     [ucast (drop_bit 24 v), ucast (drop_bit 16 v), ucast (drop_bit 8 v), ucast v]"

definition write_uint32_le :: "u32 \<Rightarrow> bytes" where
  "write_uint32_le v =
     [ucast v, ucast (drop_bit 8 v), ucast (drop_bit 16 v), ucast (drop_bit 24 v)]"

fun read_uint64 :: "bytes \<Rightarrow> u64 option" where
  "read_uint64 (b0 # b1 # b2 # b3 # b4 # b5 # b6 # b7 # _) =
     Some (push_bit 56 (ucast b0) OR push_bit 48 (ucast b1) OR
           push_bit 40 (ucast b2) OR push_bit 32 (ucast b3) OR
           push_bit 24 (ucast b4) OR push_bit 16 (ucast b5) OR
           push_bit 8 (ucast b6) OR ucast b7)"
| "read_uint64 _ = None"

fun read_uint64_le :: "bytes \<Rightarrow> u64 option" where
  "read_uint64_le (b0 # b1 # b2 # b3 # b4 # b5 # b6 # b7 # _) =
     Some (ucast b0 OR push_bit 8 (ucast b1) OR
           push_bit 16 (ucast b2) OR push_bit 24 (ucast b3) OR
           push_bit 32 (ucast b4) OR push_bit 40 (ucast b5) OR
           push_bit 48 (ucast b6) OR push_bit 56 (ucast b7))"
| "read_uint64_le _ = None"

definition write_uint64 :: "u64 \<Rightarrow> bytes" where
  "write_uint64 v =
     [ucast (drop_bit 56 v), ucast (drop_bit 48 v), ucast (drop_bit 40 v),
      ucast (drop_bit 32 v), ucast (drop_bit 24 v), ucast (drop_bit 16 v),
      ucast (drop_bit 8 v), ucast v]"

definition write_uint64_le :: "u64 \<Rightarrow> bytes" where
  "write_uint64_le v =
     [ucast v, ucast (drop_bit 8 v), ucast (drop_bit 16 v), ucast (drop_bit 24 v),
      ucast (drop_bit 32 v), ucast (drop_bit 40 v), ucast (drop_bit 48 v),
      ucast (drop_bit 56 v)]"

subsection \<open>Lengths\<close>

lemma length_write_uint8 [simp]: "length (write_uint8 v) = 1"
  by (simp add: write_uint8_def)

lemma length_write_uint16 [simp]: "length (write_uint16 v) = 2"
  by (simp add: write_uint16_def)

lemma length_write_uint32 [simp]: "length (write_uint32 v) = 4"
  by (simp add: write_uint32_def)

lemma length_write_uint64 [simp]: "length (write_uint64 v) = 8"
  by (simp add: write_uint64_def)

subsection \<open>Round trips\<close>

text \<open>Bit \<open>n\<close> of a word comes from the byte whose eight bits include \<open>n\<close>.\<close>

lemma bit_byte_at:
  "bit (push_bit k (ucast (ucast (drop_bit k v) :: u8)) :: 'a::len word) n \<longleftrightarrow>
     n < LENGTH('a) \<and> k \<le> n \<and> n < k + 8 \<and> bit v n" for v :: "'a::len word"
  by (auto simp: bit_simps)

lemma bit_byte_low:
  "bit (ucast (ucast v :: u8) :: 'a::len word) n \<longleftrightarrow> n < LENGTH('a) \<and> n < 8 \<and> bit v n"
  for v :: "'a::len word"
  by (auto simp: bit_simps)

lemma read_write_uint8 [simp]: "read_uint8 (write_uint8 v @ r) = Some v"
  by (simp add: write_uint8_def)

lemma read_write_uint16 [simp]: "read_uint16 (write_uint16 v @ r) = Some v"
  by (simp add: write_uint16_def)
    (rule bit_word_eqI, simp only: bit_or_iff bit_byte_at bit_byte_low, simp, arith)

lemma read_write_uint16_le [simp]: "read_uint16_le (write_uint16_le v @ r) = Some v"
  by (simp add: write_uint16_le_def)
    (rule bit_word_eqI, simp only: bit_or_iff bit_byte_at bit_byte_low, simp, arith)

lemma read_write_uint32 [simp]: "read_uint32 (write_uint32 v @ r) = Some v"
  by (simp add: write_uint32_def)
    (rule bit_word_eqI, simp only: bit_or_iff bit_byte_at bit_byte_low, simp, arith)

lemma read_write_uint32_le [simp]: "read_uint32_le (write_uint32_le v @ r) = Some v"
  by (simp add: write_uint32_le_def)
    (rule bit_word_eqI, simp only: bit_or_iff bit_byte_at bit_byte_low, simp, arith)

lemma read_write_uint64 [simp]: "read_uint64 (write_uint64 v @ r) = Some v"
  by (simp add: write_uint64_def)
    (rule bit_word_eqI, simp only: bit_or_iff bit_byte_at bit_byte_low, simp, arith)

lemma read_write_uint64_le [simp]: "read_uint64_le (write_uint64_le v @ r) = Some v"
  by (simp add: write_uint64_le_def)
    (rule bit_word_eqI, simp only: bit_or_iff bit_byte_at bit_byte_low, simp, arith)

end
