(* ===== verification/Ikcp_Base.thy ===== *)
theory Ikcp_Base
  imports Serialize
begin

text \<open>
  The data of the KCP protocol engine (\<^verbatim>\<open>contrib/kcp/ikcp.c\<close>, \<^verbatim>\<open>ikcp.h\<close>): segments, the
  control block, the serial-number comparison \<open>_itimediff\<close>, the segment header codec, creation
  and the parameter setters.

  The intrusive queues are lists, head first. The four queue counters are kept as fields of the
  control block, as in the code, and \<open>kcp_counts\<close> states that they count the queues. Not in
  the record: \<open>user\<close>, \<open>output\<close>, \<open>writelog\<close>, \<open>logmask\<close> (callbacks and logging) and the
  scratch area \<open>buffer\<close>, which carries no data from one call to the next.
\<close>

subsection \<open>Constants\<close>

definition IKCP_RTO_NDL :: u32 where "IKCP_RTO_NDL = 30"
definition IKCP_RTO_MIN :: u32 where "IKCP_RTO_MIN = 100"
definition IKCP_RTO_DEF :: u32 where "IKCP_RTO_DEF = 200"
definition IKCP_RTO_MAX :: u32 where "IKCP_RTO_MAX = 4000"
definition IKCP_CMD_PUSH :: u32 where "IKCP_CMD_PUSH = 81"
definition IKCP_CMD_ACK :: u32 where "IKCP_CMD_ACK = 82"
definition IKCP_CMD_WASK :: u32 where "IKCP_CMD_WASK = 83"
definition IKCP_CMD_WINS :: u32 where "IKCP_CMD_WINS = 84"
definition IKCP_ASK_SEND :: u32 where "IKCP_ASK_SEND = 1"
definition IKCP_ASK_TELL :: u32 where "IKCP_ASK_TELL = 2"
definition IKCP_WND_SND :: u32 where "IKCP_WND_SND = 32"
definition IKCP_WND_RCV :: u32 where "IKCP_WND_RCV = 128"
definition IKCP_MTU_DEF :: u32 where "IKCP_MTU_DEF = 1400"
definition IKCP_INTERVAL :: u32 where "IKCP_INTERVAL = 100"
definition IKCP_OVERHEAD :: u32 where "IKCP_OVERHEAD = 24"
definition IKCP_DEADLINK :: u32 where "IKCP_DEADLINK = 20"
definition IKCP_THRESH_INIT :: u32 where "IKCP_THRESH_INIT = 2"
definition IKCP_THRESH_MIN :: u32 where "IKCP_THRESH_MIN = 2"
definition IKCP_PROBE_INIT :: u32 where "IKCP_PROBE_INIT = 7000"
definition IKCP_PROBE_LIMIT :: u32 where "IKCP_PROBE_LIMIT = 120000"
definition IKCP_FASTACK_LIMIT :: int where "IKCP_FASTACK_LIMIT = 5"

lemmas ikcp_consts = IKCP_RTO_NDL_def IKCP_RTO_MIN_def IKCP_RTO_DEF_def IKCP_RTO_MAX_def
  IKCP_CMD_PUSH_def IKCP_CMD_ACK_def IKCP_CMD_WASK_def IKCP_CMD_WINS_def
  IKCP_ASK_SEND_def IKCP_ASK_TELL_def IKCP_WND_SND_def IKCP_WND_RCV_def IKCP_MTU_DEF_def
  IKCP_INTERVAL_def IKCP_OVERHEAD_def IKCP_DEADLINK_def IKCP_THRESH_INIT_def
  IKCP_THRESH_MIN_def IKCP_PROBE_INIT_def IKCP_PROBE_LIMIT_def IKCP_FASTACK_LIMIT_def

subsection \<open>Segments and the control block\<close>

record ikcpseg =
  s_conv :: u32
  s_cmd :: u32
  s_frg :: u32
  s_wnd :: u32
  s_ts :: u32
  s_sn :: u32
  s_una :: u32
  s_len :: u32
  s_resendts :: u32
  s_rto :: u32
  s_fastack :: u32
  s_xmit :: u32
  s_data :: bytes

record ikcpcb =
  k_conv :: u32
  k_mtu :: u32
  k_mss :: u32
  k_state :: u32
  k_snd_una :: u32
  k_snd_nxt :: u32
  k_rcv_nxt :: u32
  k_ts_recent :: u32
  k_ts_lastack :: u32
  k_ssthresh :: u32
  k_rx_rttval :: u32
  k_rx_srtt :: u32
  k_rx_rto :: u32
  k_rx_minrto :: u32
  k_snd_wnd :: u32
  k_rcv_wnd :: u32
  k_rmt_wnd :: u32
  k_cwnd :: u32
  k_probe :: u32
  k_current :: u32
  k_interval :: u32
  k_ts_flush :: u32
  k_xmit :: u32
  k_nrcv_buf :: u32
  k_nsnd_buf :: u32
  k_nrcv_que :: u32
  k_nsnd_que :: u32
  k_nodelay :: u32
  k_updated :: u32
  k_ts_probe :: u32
  k_probe_wait :: u32
  k_dead_link :: u32
  k_incr :: u32
  k_snd_queue :: "ikcpseg list"
  k_rcv_queue :: "ikcpseg list"
  k_snd_buf :: "ikcpseg list"
  k_rcv_buf :: "ikcpseg list"
  k_acklist :: "(u32 \<times> u32) list"
  k_ackcount :: u32
  k_ackblock :: u32
  k_fastresend :: int
  k_fastlimit :: int
  k_nocwnd :: int
  k_stream :: int

subsection \<open>Small helpers\<close>

definition imin :: "u32 \<Rightarrow> u32 \<Rightarrow> u32" where
  "imin a b = (if a \<le> b then a else b)"

definition imax :: "u32 \<Rightarrow> u32 \<Rightarrow> u32" where
  "imax a b = (if a \<ge> b then a else b)"

definition ibound :: "u32 \<Rightarrow> u32 \<Rightarrow> u32 \<Rightarrow> u32" where
  "ibound lower middle upper = imin (imax lower middle) upper"

definition itimediff :: "u32 \<Rightarrow> u32 \<Rightarrow> int" where
  "itimediff later earlier = sint (later - earlier)"

subsection \<open>Primitive decoders and the segment header\<close>

definition ikcp_decode8u :: "bytes \<Rightarrow> (u8 \<times> bytes) option" where
  "ikcp_decode8u p = do { c \<leftarrow> read_uint8 p; Some (c, drop 1 p) }"

definition ikcp_decode16u :: "bytes \<Rightarrow> (u16 \<times> bytes) option" where
  "ikcp_decode16u p = do { w \<leftarrow> read_uint16 p; Some (w, drop 2 p) }"

definition ikcp_decode32u :: "bytes \<Rightarrow> (u32 \<times> bytes) option" where
  "ikcp_decode32u p = do { l \<leftarrow> read_uint32 p; Some (l, drop 4 p) }"

text \<open>The header \<open>ikcp_encode_seg\<close> writes; the data follows it.\<close>

definition ikcp_encode_seg :: "ikcpseg \<Rightarrow> bytes" where
  "ikcp_encode_seg seg =
     write_uint32 (s_conv seg) @ write_uint8 (ucast (s_cmd seg)) @
     write_uint8 (ucast (s_frg seg)) @ write_uint16 (ucast (s_wnd seg)) @
     write_uint32 (s_ts seg) @ write_uint32 (s_sn seg) @ write_uint32 (s_una seg) @
     write_uint32 (s_len seg)"

definition ikcp_getconv :: "bytes \<Rightarrow> u32 option" where
  "ikcp_getconv p = do { (conv, _) \<leftarrow> ikcp_decode32u p; Some conv }"

subsection \<open>Creation, release and parameters\<close>

definition ikcp_create :: "u32 \<Rightarrow> ikcpcb" where
  "ikcp_create conv =
     \<lparr>k_conv = conv, k_mtu = IKCP_MTU_DEF, k_mss = IKCP_MTU_DEF - IKCP_OVERHEAD,
      k_state = 0, k_snd_una = 0, k_snd_nxt = 0, k_rcv_nxt = 0, k_ts_recent = 0,
      k_ts_lastack = 0, k_ssthresh = IKCP_THRESH_INIT, k_rx_rttval = 0, k_rx_srtt = 0,
      k_rx_rto = IKCP_RTO_DEF, k_rx_minrto = IKCP_RTO_MIN, k_snd_wnd = IKCP_WND_SND,
      k_rcv_wnd = IKCP_WND_RCV, k_rmt_wnd = IKCP_WND_RCV, k_cwnd = 0, k_probe = 0,
      k_current = 0, k_interval = IKCP_INTERVAL, k_ts_flush = IKCP_INTERVAL, k_xmit = 0,
      k_nrcv_buf = 0, k_nsnd_buf = 0, k_nrcv_que = 0, k_nsnd_que = 0, k_nodelay = 0,
      k_updated = 0, k_ts_probe = 0, k_probe_wait = 0, k_dead_link = IKCP_DEADLINK,
      k_incr = 0, k_snd_queue = [], k_rcv_queue = [], k_snd_buf = [], k_rcv_buf = [],
      k_acklist = [], k_ackcount = 0, k_ackblock = 0, k_fastresend = 0,
      k_fastlimit = IKCP_FASTACK_LIMIT, k_nocwnd = 0, k_stream = 1\<rparr>"

text \<open>The segments \<open>ikcp_release\<close> hands back to the pool, in the order it frees them.\<close>

definition ikcp_release :: "ikcpcb \<Rightarrow> ikcpseg list" where
  "ikcp_release kcp = k_snd_buf kcp @ k_rcv_buf kcp @ k_snd_queue kcp @ k_rcv_queue kcp"

text \<open>\<open>mem\<close> says whether the allocation of the new scratch buffer succeeds.\<close>

definition ikcp_setmtu :: "bool \<Rightarrow> ikcpcb \<Rightarrow> int \<Rightarrow> int \<times> ikcpcb" where
  "ikcp_setmtu mem kcp mtu =
     (if mtu < 50 \<or> mtu < uint IKCP_OVERHEAD then (-1, kcp)
      else if \<not> mem then (-2, kcp)
      else (0, kcp\<lparr>k_mtu := word_of_int mtu, k_mss := word_of_int mtu - IKCP_OVERHEAD\<rparr>))"

definition clamp_interval :: "int \<Rightarrow> int" where
  "clamp_interval interval =
     (if interval > 5000 then 5000 else if interval < 10 then 10 else interval)"

definition ikcp_interval :: "ikcpcb \<Rightarrow> int \<Rightarrow> ikcpcb" where
  "ikcp_interval kcp interval = kcp\<lparr>k_interval := word_of_int (clamp_interval interval)\<rparr>"

definition ikcp_nodelay :: "ikcpcb \<Rightarrow> int \<Rightarrow> int \<Rightarrow> int \<Rightarrow> int \<Rightarrow> ikcpcb" where
  "ikcp_nodelay kcp0 nodelay interval resend nc =
     (let kcp1 = (if nodelay \<ge> 0
                  then kcp0\<lparr>k_nodelay := word_of_int nodelay,
                            k_rx_minrto := (if nodelay \<noteq> 0 then IKCP_RTO_NDL else IKCP_RTO_MIN)\<rparr>
                  else kcp0);
          kcp2 = (if interval \<ge> 0
                  then kcp1\<lparr>k_interval := word_of_int (clamp_interval interval)\<rparr>
                  else kcp1);
          kcp3 = (if resend \<ge> 0 then kcp2\<lparr>k_fastresend := resend\<rparr> else kcp2)
      in if nc \<ge> 0 then kcp3\<lparr>k_nocwnd := nc\<rparr> else kcp3)"

definition ikcp_wndsize :: "ikcpcb \<Rightarrow> int \<Rightarrow> int \<Rightarrow> ikcpcb" where
  "ikcp_wndsize kcp0 sndwnd rcvwnd =
     (let kcp1 = (if sndwnd > 0 then kcp0\<lparr>k_snd_wnd := word_of_int sndwnd\<rparr> else kcp0)
      in if rcvwnd > 0
         then kcp1\<lparr>k_rcv_wnd := imax (word_of_int rcvwnd) IKCP_WND_RCV\<rparr> else kcp1)"

definition ikcp_waitsnd :: "ikcpcb \<Rightarrow> u32" where
  "ikcp_waitsnd kcp = k_nsnd_buf kcp + k_nsnd_que kcp"

subsection \<open>The counters count the queues\<close>

definition kcp_counts :: "ikcpcb \<Rightarrow> bool" where
  "kcp_counts kcp \<longleftrightarrow>
     k_nsnd_que kcp = of_nat (length (k_snd_queue kcp)) \<and>
     k_nsnd_buf kcp = of_nat (length (k_snd_buf kcp)) \<and>
     k_nrcv_que kcp = of_nat (length (k_rcv_queue kcp)) \<and>
     k_nrcv_buf kcp = of_nat (length (k_rcv_buf kcp))"

lemma kcp_counts_create: "kcp_counts (ikcp_create conv)"
  by (simp add: kcp_counts_def ikcp_create_def)

lemma ikcp_waitsnd_counts:
  "kcp_counts kcp \<Longrightarrow>
   ikcp_waitsnd kcp = of_nat (length (k_snd_buf kcp) + length (k_snd_queue kcp))"
  by (simp add: kcp_counts_def ikcp_waitsnd_def)

subsection \<open>Serial numbers\<close>

text \<open>
  \<open>_itimediff\<close> is the signed distance of two 32-bit serial numbers; for numbers less than
  \<open>2\<^sup>3\<^sup>1\<close> apart it is the true distance, wherever they stand in the cycle.
\<close>

lemma itimediff_of_nat:
  assumes "\<bar>int i - int j\<bar> < 2 ^ 31"
  shows "itimediff (of_nat i) (of_nat j) = int i - int j"
proof -
  have "itimediff (of_nat i) (of_nat j) = sint (word_of_int (int i - int j) :: u32)"
    by (simp add: itimediff_def)
  also have "\<dots> = signed_take_bit 31 (int i - int j)"
    by (simp only: sint_sbintrunc') simp
  also have "\<dots> = int i - int j"
    using assms by (intro signed_take_bit_int_eq_self) auto
  finally show ?thesis .
qed

lemma itimediff_shift: "itimediff (a + c) (b + c) = itimediff a b"
  by (simp add: itimediff_def)

lemma itimediff_self [simp]: "itimediff a a = 0"
  by (simp add: itimediff_def)

lemma itimediff_0_iff: "itimediff a b = 0 \<longleftrightarrow> a = b"
  by (simp add: itimediff_def) (metis diff_eq_eq add_0 signed_0 signed_word_eqI)

lemma itimediff_range: "- (2 ^ 31) \<le> itimediff a b" "itimediff a b < 2 ^ 31"
  using sint_ge [of "a - b"] sint_lt [of "a - b"] by (simp_all add: itimediff_def)

lemma ibound_bounds: "lo \<le> hi \<Longrightarrow> lo \<le> ibound lo x hi \<and> ibound lo x hi \<le> hi"
  by (auto simp: ibound_def imin_def imax_def)

subsection \<open>The codecs\<close>

lemma length_ikcp_encode_seg [simp]: "length (ikcp_encode_seg seg) = 24"
  by (simp add: ikcp_encode_seg_def)

lemma ikcp_decode8u_write [simp]: "ikcp_decode8u (write_uint8 v @ r) = Some (v, r)"
  by (simp add: ikcp_decode8u_def)

lemma ikcp_decode16u_write [simp]: "ikcp_decode16u (write_uint16 v @ r) = Some (v, r)"
  by (simp add: ikcp_decode16u_def)

lemma ikcp_decode32u_write [simp]: "ikcp_decode32u (write_uint32 v @ r) = Some (v, r)"
  by (simp add: ikcp_decode32u_def)

interpretation kcp_u8: codec write_uint8 ikcp_decode8u "\<lambda>_. True"
  by unfold_locales simp

interpretation kcp_u16: codec write_uint16 ikcp_decode16u "\<lambda>_. True"
  by unfold_locales simp

interpretation kcp_u32: codec write_uint32 ikcp_decode32u "\<lambda>_. True"
  by unfold_locales simp

lemma ikcp_getconv_encode [simp]: "ikcp_getconv (ikcp_encode_seg seg @ r) = Some (s_conv seg)"
  by (simp add: ikcp_getconv_def ikcp_encode_seg_def)

text \<open>A decoder succeeds exactly when enough bytes are left.\<close>

lemma ikcp_decode8u_enough:
  "1 \<le> length p \<Longrightarrow> \<exists>v. ikcp_decode8u p = Some (v, drop 1 p)"
  by (cases p) (auto simp: ikcp_decode8u_def)

lemma ikcp_decode16u_enough:
  "2 \<le> length p \<Longrightarrow> \<exists>v. ikcp_decode16u p = Some (v, drop 2 p)"
  by (auto simp: ikcp_decode16u_def neq_Nil_conv Suc_le_length_iff numeral_2_eq_2)

lemma ikcp_decode32u_enough:
  "4 \<le> length p \<Longrightarrow> \<exists>v. ikcp_decode32u p = Some (v, drop 4 p)"
  by (auto simp: ikcp_decode32u_def Suc_le_length_iff eval_nat_numeral)

end
