(* ===== verification/Serial.thy ===== *)
theory Serial
  imports Ikcp_Base
begin

text \<open>
  Windows of serial numbers. Both segment buffers of the KCP engine hold segments in the order of
  their 32-bit serial numbers, relative to a base (\<open>snd_una\<close> or \<open>rcv_nxt\<close>) that moves and wraps.
  \<open>serial base w sns\<close> says that the numbers \<open>sns\<close> ascend strictly and lie in the window of \<open>w\<close>
  numbers from \<open>base\<close>.
\<close>

definition offs :: "u32 \<Rightarrow> u32 \<Rightarrow> nat" where
  "offs base sn = unat (sn - base)"

definition serial :: "u32 \<Rightarrow> nat \<Rightarrow> u32 list \<Rightarrow> bool" where
  "serial base w sns \<longleftrightarrow> sorted_wrt (<) (map (offs base) sns) \<and> (\<forall>sn \<in> set sns. offs base sn < w)"

lemma serial_Nil [simp]: "serial base w []"
  by (simp add: serial_def)

lemma set_sublist: "subseq xs ys \<Longrightarrow> x \<in> set xs \<Longrightarrow> x \<in> set ys"
  by (induction rule: list_emb.induct) auto

lemma sorted_wrt_sublist: "subseq xs ys \<Longrightarrow> sorted_wrt P ys \<Longrightarrow> sorted_wrt P xs"
  by (induction rule: list_emb.induct) (auto dest: set_sublist)

lemma unat_u32_less: "unat (w :: u32) < 2 ^ 32"
  using unsigned_less [of w, where 'a = nat] by simp

lemma serial_subseq: "serial base w sns \<Longrightarrow> subseq sns' sns \<Longrightarrow> serial base w sns'"
  unfolding serial_def by (meson sorted_wrt_sublist subseq_map set_sublist)

lemma serial_mono: "serial base w sns \<Longrightarrow> w \<le> w' \<Longrightarrow> serial base w' sns"
  by (auto simp: serial_def)

lemma serial_distinct: "serial base w sns \<Longrightarrow> distinct (map (offs base) sns)"
  by (simp add: serial_def strict_sorted_iff)

lemma serial_length:
  assumes "serial base w sns"
  shows "length sns \<le> w"
proof -
  have "length sns = card (set (map (offs base) sns))"
    using serial_distinct [OF assms] by (metis distinct_card length_map)
  also have "\<dots> \<le> card {..<w}"
    using assms by (intro card_mono) (auto simp: serial_def)
  finally show ?thesis by simp
qed

lemma offs_rebase:
  assumes "d \<le> offs base sn"
  shows "offs (base + of_nat d) sn = offs base sn - d"
proof -
  have "d < 2 ^ 32" using assms unat_u32_less [of "sn - base"] by (simp add: offs_def)
  then have "of_nat d \<le> sn - base"
    using assms by (simp add: offs_def word_le_nat_alt unat_of_nat_u32)
  then have "unat (sn - base - of_nat d) = unat (sn - base) - d"
    using \<open>d < 2 ^ 32\<close> by (simp add: unat_sub unat_of_nat_u32)
  then show ?thesis by (simp add: offs_def algebra_simps)
qed

text \<open>Moving the base forward, up to the first number of the window.\<close>

lemma serial_rebase:
  assumes "serial base w sns" "\<And>sn. sn \<in> set sns \<Longrightarrow> d \<le> offs base sn"
  shows "serial (base + of_nat d) (w - d) sns"
proof -
  have eq: "map (offs (base + of_nat d)) sns = map (\<lambda>sn. offs base sn - d) sns"
    using assms(2) by (simp add: offs_rebase)
  have "sorted_wrt (\<lambda>x y. offs base x - d < offs base y - d) sns"
    using assms
    by (auto simp: serial_def sorted_wrt_map diff_less_mono elim!: sorted_wrt_mono_rel [rotated])
  then show ?thesis
    using assms unfolding serial_def eq
    by (auto simp: sorted_wrt_map offs_rebase diff_less_mono)
qed

lemma serial_hd:
  assumes "serial base w (s # sns)"
  shows "serial s (w - offs base s) (s # sns)" "offs base s < w"
proof -
  have "serial (base + of_nat (offs base s)) (w - offs base s) (s # sns)"
    using assms by (intro serial_rebase) (auto simp: serial_def intro: less_imp_le)
  then show "serial s (w - offs base s) (s # sns)" by (simp add: offs_def)
  show "offs base s < w" using assms by (simp add: serial_def)
qed

lemma serial_snoc:
  assumes "serial base w sns" "offs base sn = w"
  shows "serial base (Suc w) (sns @ [sn])"
  using assms by (auto simp: serial_def sorted_wrt_append)

text \<open>Inside a window of fewer than \<open>2\<^sup>3\<^sup>1\<close> numbers \<open>_itimediff\<close> compares offsets.\<close>

lemma itimediff_offs:
  assumes "offs base a < 2 ^ 31" "offs base b < 2 ^ 31"
  shows "itimediff a b = int (offs base a) - int (offs base b)"
proof -
  have "itimediff a b = itimediff (a - base) (b - base)"
    by (simp add: itimediff_def)
  also have "\<dots> = itimediff (of_nat (offs base a)) (of_nat (offs base b))"
    by (simp add: offs_def)
  also have "\<dots> = int (offs base a) - int (offs base b)"
    using assms by (intro itimediff_of_nat) simp
  finally show ?thesis .
qed

lemma offs_nonneg:
  assumes "itimediff sn base \<ge> 0"
  shows "offs base sn < 2 ^ 31"
proof -
  have "uint (sn - base) = itimediff sn base mod 2 ^ 32"
    by (simp add: itimediff_def uint_sint take_bit_eq_mod)
  then have "int (offs base sn) = itimediff sn base"
    using assms itimediff_range(2) [of sn base] by (simp add: offs_def)
  with itimediff_range(2) [of sn base] show ?thesis by simp
qed

text \<open>The acceptance test of \<open>ikcp_parse_data\<close>.\<close>

lemma window_test:
  assumes "unat wnd < 2 ^ 31"
  shows "itimediff sn (base + wnd) < 0 \<and> itimediff sn base \<ge> 0 \<longleftrightarrow> offs base sn < unat wnd"
proof -
  have w: "offs base (base + wnd) = unat wnd" "offs base base = 0"
    by (simp_all add: offs_def)
  show ?thesis
    using offs_nonneg [of sn base] itimediff_offs [of base sn "base + wnd"]
      itimediff_offs [of base sn base] w assms by linarith
qed

end
