(* ===== verification/Ikcp_Queue.thy ===== *)
theory Ikcp_Queue
  imports Serial
begin

text \<open>
  The application side of the KCP engine: \<open>ikcp_send\<close> (fragmentation and the stream-mode
  extension of the last queued segment), \<open>ikcp_peeksize\<close>, \<open>ikcp_recv\<close> and the step that moves
  in-order segments from \<open>rcv_buf\<close> to \<open>rcv_queue\<close>. The lemmas say what each of them does to the
  byte streams the queues hold.
\<close>

subsection \<open>ikcp_send\<close>

text \<open>
  A segment as the allocator hands it out. The code writes \<open>len\<close>, \<open>frg\<close> and \<open>data\<close> of a
  queued segment and leaves the other fields uninitialised until \<open>ikcp_flush\<close> sets them all;
  here they are 0.
\<close>

definition seg_new :: "bytes \<Rightarrow> u32 \<Rightarrow> u32 \<Rightarrow> ikcpseg" where
  "seg_new data len frg =
     \<lparr>s_conv = 0, s_cmd = 0, s_frg = frg, s_wnd = 0, s_ts = 0, s_sn = 0, s_una = 0,
      s_len = len, s_resendts = 0, s_rto = 0, s_fastack = 0, s_xmit = 0, s_data = data\<rparr>"

text \<open>
  \<open>alloc a\<close> says whether the \<open>a\<close>-th segment allocation of the call succeeds. The loop index
  of the code is \<open>i = count - n\<close>, so \<open>count - i - 1\<close> is the remaining number \<open>n\<close> after the
  step.
\<close>

fun ikcp_send_frags ::
  "(nat \<Rightarrow> bool) \<Rightarrow> nat \<Rightarrow> nat \<Rightarrow> bytes \<Rightarrow> int \<Rightarrow> int \<Rightarrow> ikcpcb \<Rightarrow> int \<times> ikcpcb" where
  "ikcp_send_frags alloc a 0 buffer len sent kcp = (sent, kcp)"
| "ikcp_send_frags alloc a (Suc n) buffer len sent kcp =
     (let size = (if len > sint (k_mss kcp) then sint (k_mss kcp) else len) in
      if \<not> alloc a then (-2, kcp)
      else ikcp_send_frags alloc (Suc a) n (drop (nat size) buffer) (len - size) (sent + size)
             (kcp\<lparr>k_snd_queue := k_snd_queue kcp @
                    [seg_new (take (nat size) buffer) (word_of_int size)
                       (if k_stream kcp = 0 then of_nat n else 0)],
                  k_nsnd_que := k_nsnd_que kcp + 1\<rparr>))"

definition ikcp_send_rest ::
  "(nat \<Rightarrow> bool) \<Rightarrow> nat \<Rightarrow> ikcpcb \<Rightarrow> bytes \<Rightarrow> int \<Rightarrow> int \<Rightarrow> int \<times> ikcpcb" where
  "ikcp_send_rest alloc a kcp buffer len sent =
     (let count = (if len \<le> sint (k_mss kcp) then 1
                   else sint ((word_of_int len + k_mss kcp - 1) div k_mss kcp)) in
      if count \<ge> sint IKCP_WND_RCV
      then if k_stream kcp \<noteq> 0 \<and> sent > 0 then (sent, kcp) else (-2, kcp)
      else ikcp_send_frags alloc a (nat (if count = 0 then 1 else count)) buffer len sent kcp)"

definition ikcp_send :: "(nat \<Rightarrow> bool) \<Rightarrow> ikcpcb \<Rightarrow> bytes \<Rightarrow> int \<Rightarrow> int \<times> ikcpcb" where
  "ikcp_send alloc kcp buffer len =
     (if len < 0 then (-1, kcp)
      else if k_stream kcp \<noteq> 0 then
        (if k_snd_queue kcp \<noteq> [] \<and> s_len (last (k_snd_queue kcp)) < k_mss kcp then
           (let old = last (k_snd_queue kcp);
                capacity = sint (k_mss kcp - s_len old);
                extend = (if len < capacity then len else capacity);
                seg = seg_new (s_data old @ take (nat extend) buffer)
                        (s_len old + word_of_int extend) 0;
                kcp' = kcp\<lparr>k_snd_queue := butlast (k_snd_queue kcp) @ [seg]\<rparr> in
            if \<not> alloc 0 then (-2, kcp)
            else if len - extend \<le> 0 then (extend, kcp')
            else ikcp_send_rest alloc 1 kcp' (drop (nat extend) buffer) (len - extend) extend)
         else if len \<le> 0 then (0, kcp)
         else ikcp_send_rest alloc 0 kcp buffer len 0)
      else ikcp_send_rest alloc 0 kcp buffer len 0)"

subsection \<open>ikcp_recv\<close>

fun peek_length :: "ikcpseg list \<Rightarrow> u32" where
  "peek_length [] = 0"
| "peek_length (seg # segs) = s_len seg + (if s_frg seg = 0 then 0 else peek_length segs)"

definition ikcp_peeksize :: "ikcpcb \<Rightarrow> int" where
  "ikcp_peeksize kcp =
     (case k_rcv_queue kcp of [] \<Rightarrow> -1
      | seg # _ \<Rightarrow>
          if s_frg seg = 0 then sint (s_len seg)
          else if k_nrcv_que kcp < s_frg seg + 1 then -1
          else sint (peek_length (k_rcv_queue kcp)))"

text \<open>The merge loop: the bytes copied, their count, and how many segments were passed.\<close>

fun recv_merge :: "ikcpseg list \<Rightarrow> bytes \<times> u32 \<times> nat" where
  "recv_merge [] = ([], 0, 0)"
| "recv_merge (seg # segs) =
     (let here = take (unat (s_len seg)) (s_data seg) in
      if s_frg seg = 0 then (here, s_len seg, 1)
      else let (d, l, n) = recv_merge segs in (here @ d, s_len seg + l, Suc n))"

text \<open>Move available data from \<open>rcv_buf\<close> to \<open>rcv_queue\<close>; the first argument is \<open>rcv_buf\<close>.\<close>

fun rcv_move :: "ikcpseg list \<Rightarrow> ikcpcb \<Rightarrow> ikcpcb" where
  "rcv_move [] kcp = kcp"
| "rcv_move (seg # rest) kcp =
     (if s_sn seg = k_rcv_nxt kcp \<and> k_nrcv_que kcp < k_rcv_wnd kcp
      then rcv_move rest
             (kcp\<lparr>k_rcv_buf := rest, k_nrcv_buf := k_nrcv_buf kcp - 1,
                  k_rcv_queue := k_rcv_queue kcp @ [seg], k_nrcv_que := k_nrcv_que kcp + 1,
                  k_rcv_nxt := k_rcv_nxt kcp + 1\<rparr>)
      else kcp)"

text \<open>The result code, the bytes copied to a non-null \<open>buffer\<close>, and the new control block.\<close>

definition ikcp_recv :: "ikcpcb \<Rightarrow> int \<Rightarrow> int \<times> bytes \<times> ikcpcb" where
  "ikcp_recv kcp len =
     (if k_rcv_queue kcp = [] then (-1, [], kcp)
      else if ikcp_peeksize kcp < 0 then (-2, [], kcp)
      else if ikcp_peeksize kcp > \<bar>len\<bar> then (-3, [], kcp)
      else
        (let recover = (k_nrcv_que kcp \<ge> k_rcv_wnd kcp);
             (d, l, n) = recv_merge (k_rcv_queue kcp);
             kcp1 = (if len < 0 then kcp
                     else kcp\<lparr>k_rcv_queue := drop n (k_rcv_queue kcp),
                              k_nrcv_que := k_nrcv_que kcp - of_nat n\<rparr>);
             kcp2 = rcv_move (k_rcv_buf kcp1) kcp1;
             kcp3 = (if k_nrcv_que kcp2 < k_rcv_wnd kcp2 \<and> recover
                     then kcp2\<lparr>k_probe := k_probe kcp2 OR IKCP_ASK_TELL\<rparr> else kcp2)
         in (sint l, d, kcp3)))"

subsection \<open>Well-formed segments and streams\<close>

text \<open>The bytes a queue of segments holds, in order.\<close>

definition stream_of :: "ikcpseg list \<Rightarrow> bytes" where
  "stream_of segs = concat (map s_data segs)"

text \<open>A queued segment of a stream-mode sender: one to \<open>mss\<close> bytes, correctly counted.\<close>

definition seg_wf :: "u32 \<Rightarrow> ikcpseg \<Rightarrow> bool" where
  "seg_wf mss seg \<longleftrightarrow> s_len seg = of_nat (length (s_data seg)) \<and> 0 < length (s_data seg) \<and>
     length (s_data seg) \<le> unat mss \<and> s_frg seg = 0"

definition mss_ok :: "ikcpcb \<Rightarrow> bool" where
  "mss_ok kcp \<longleftrightarrow> 0 < unat (k_mss kcp) \<and> unat (k_mss kcp) < 2 ^ 16"

lemma stream_of_simps [simp]:
  "stream_of [] = []" "stream_of (s # ss) = s_data s @ stream_of ss"
  "stream_of (xs @ ys) = stream_of xs @ stream_of ys"
  by (simp_all add: stream_of_def)

lemma sint_small:
  assumes "unat (w :: u32) < 2 ^ 31"
  shows "sint w = int (unat w)"
proof -
  have "uint w < 2 ^ 31"
    using assms by (metis of_nat_less_iff of_nat_numeral of_nat_power uint_nat)
  then have "signed_take_bit 31 (uint w) = uint w"
    using uint_ge_0 [of w] by (intro signed_take_bit_int_eq_self) linarith+
  then show ?thesis
    by (simp add: sint_uint)
qed

lemma seg_new_simps [simp]:
  "s_data (seg_new d l f) = d" "s_len (seg_new d l f) = l" "s_frg (seg_new d l f) = f"
  by (simp_all add: seg_new_def)

lemma mss_okD:
  assumes "mss_ok kcp"
  shows "sint (k_mss kcp) = int (unat (k_mss kcp))" "0 < unat (k_mss kcp)"
    "unat (k_mss kcp) < 2 ^ 16"
proof -
  show "0 < unat (k_mss kcp)" "unat (k_mss kcp) < 2 ^ 16"
    using assms by (auto simp: mss_ok_def)
  then show "sint (k_mss kcp) = int (unat (k_mss kcp))"
    by (intro sint_small) simp
qed

lemma mss_okE:
  assumes "mss_ok kcp"
  obtains m where "unat (k_mss kcp) = m" "sint (k_mss kcp) = int m" "uint (k_mss kcp) = int m"
    "0 < m" "m < 2 ^ 16"
  using mss_okD [OF assms] that by (metis uint_nat)

lemma if_min_int: "(if int l > int m then int m else int l) = int (min m l)"
  by auto

text \<open>What one call may append: the segments, the prefix of the buffer they hold, the result.\<close>

definition appends :: "ikcpcb \<Rightarrow> bytes \<Rightarrow> int \<Rightarrow> int \<times> ikcpcb \<Rightarrow> bool" where
  "appends kcp b sent res \<longleftrightarrow>
     (\<exists>fs j. snd res = kcp\<lparr>k_snd_queue := k_snd_queue kcp @ fs,
                           k_nsnd_que := k_nsnd_que kcp + of_nat (length fs)\<rparr> \<and>
             list_all (seg_wf (k_mss kcp)) fs \<and> j \<le> length b \<and> stream_of fs = take j b \<and>
             (fst res = -2 \<or> fst res = sent + int j))"

lemma appends_none: "r = -2 \<or> r = sent \<Longrightarrow> appends kcp b sent (r, kcp)"
  unfolding appends_def by (intro exI [of _ "[]"] exI [of _ 0]) auto

lemma appends_step:
  assumes "appends (kcp\<lparr>k_snd_queue := k_snd_queue kcp @ [s], k_nsnd_que := k_nsnd_que kcp + 1\<rparr>)
             (drop m b) (sent + int m) res"
    and "seg_wf (k_mss kcp) s" "s_data s = take m b" "m \<le> length b"
  shows "appends kcp b sent res"
proof -
  obtain fs j where *: "snd res = kcp\<lparr>k_snd_queue := k_snd_queue kcp @ s # fs,
       k_nsnd_que := k_nsnd_que kcp + 1 + of_nat (length fs)\<rparr>"
    "list_all (seg_wf (k_mss kcp)) fs" "j \<le> length (drop m b)" "stream_of fs = take j (drop m b)"
    "fst res = -2 \<or> fst res = sent + int m + int j"
    using assms(1) by (auto simp: appends_def)
  show ?thesis
    unfolding appends_def using * assms(2-)
    by (intro exI [of _ "s # fs"] exI [of _ "m + j"]) (auto simp: take_add)
qed

lemma ikcp_send_frags_appends:
  assumes "mss_ok kcp" "k_stream kcp \<noteq> 0"
    and "n > 0 \<Longrightarrow> (n - 1) * unat (k_mss kcp) < length b"
  shows "appends kcp b sent (ikcp_send_frags alloc a n b (int (length b)) sent kcp)"
  using assms
proof (induction n arbitrary: a b sent kcp)
  case 0
  then show ?case by (simp add: appends_none)
next
  case (Suc n)
  note mss = mss_okD [OF Suc.prems(1)]
  define m where "m = min (unat (k_mss kcp)) (length b)"
  define s where "s = seg_new (take m b) (word_of_int (int m)) 0"
  define kcp' where "kcp' = kcp\<lparr>k_snd_queue := k_snd_queue kcp @ [s], k_nsnd_que := k_nsnd_que kcp + 1\<rparr>"
  have m: "m \<le> length b" "0 < m" "m \<le> unat (k_mss kcp)"
    using Suc.prems(3) mss by (auto simp: m_def)
  have "n > 0 \<Longrightarrow> (n - 1) * unat (k_mss kcp') < length (drop m b)"
    using Suc.prems(3) mss by (cases n) (auto simp: kcp'_def m_def)
  then have IH: "appends kcp' (drop m b) (sent + int m)
      (ikcp_send_frags alloc (Suc a) n (drop m b) (int (length (drop m b))) (sent + int m) kcp')"
    using Suc.prems by (intro Suc.IH) (auto simp: kcp'_def mss_ok_def)
  have size: "(if int (length b) > sint (k_mss kcp) then sint (k_mss kcp) else int (length b)) = int m"
    unfolding m_def mss(1) by (rule if_min_int)
  have wf: "seg_wf (k_mss kcp) s"
    using m by (auto simp: seg_wf_def s_def)
  show ?case
  proof (cases "alloc a")
    case True
    have "ikcp_send_frags alloc a (Suc n) b (int (length b)) sent kcp =
        ikcp_send_frags alloc (Suc a) n (drop m b) (int (length (drop m b))) (sent + int m) kcp'"
      unfolding ikcp_send_frags.simps size
      using True m Suc.prems(2) by (simp add: Let_def kcp'_def s_def of_nat_diff)
    then show ?thesis
      using appends_step [OF IH [unfolded kcp'_def] wf] m by (simp add: kcp'_def s_def)
  next
    case False
    then show ?thesis by (simp add: appends_none Let_def)
  qed
qed

lemma ikcp_send_frags_all:
  assumes "mss_ok kcp" "0 \<le> len" "len \<le> int n * int (unat (k_mss kcp))"
  shows "fst (ikcp_send_frags (\<lambda>_. True) a n b len sent kcp) = sent + len"
  using assms
proof (induction n arbitrary: a b len sent kcp)
  case (Suc n)
  obtain m where mss: "unat (k_mss kcp) = m" "sint (k_mss kcp) = int m" "0 < m"
    using mss_okE [OF Suc.prems(1)] by metis
  define size where "size = (if len > int m then int m else len)"
  have "len - size \<le> int n * int m" "0 \<le> len - size"
    using Suc.prems(2,3) mss by (auto simp: size_def algebra_simps)
  then have "fst (ikcp_send_frags (\<lambda>_. True) a' n b' (len - size) (sent + size) (kcp\<lparr>k_snd_queue := q, k_nsnd_que := c\<rparr>))
     = sent + size + (len - size)" for a' b' q c
    using Suc.prems mss by (intro Suc.IH) (simp_all add: mss_ok_def)
  then show ?case
    unfolding ikcp_send_frags.simps mss(2) size_def [symmetric] by (simp add: Let_def)
qed simp

text \<open>The number of fragments is the rounded-up quotient.\<close>

lemma send_count:
  assumes "mss_ok kcp" "sint (k_mss kcp) < len" "len < 2 ^ 31"
  shows "sint ((word_of_int len + k_mss kcp - 1) div k_mss kcp) =
         (len + int (unat (k_mss kcp)) - 1) div int (unat (k_mss kcp))"
proof -
  obtain m where mss: "unat (k_mss kcp) = m" "sint (k_mss kcp) = int m" "uint (k_mss kcp) = int m"
    "0 < m" "m < 2 ^ 16"
    using mss_okE [OF assms(1)] by metis
  have km: "k_mss kcp = word_of_int (int m)" by (simp flip: mss(1))
  have len: "uint (word_of_int len + k_mss kcp - 1) = len + int m - 1"
  proof -
    have "word_of_int len + k_mss kcp - 1 = word_of_int (len + int m - 1)"
      unfolding km by simp
    moreover have "0 \<le> len + int m - 1" "len + int m - 1 < 2 ^ 32"
      using assms mss by simp_all
    ultimately show ?thesis by (simp only: uint_word_of_int) simp
  qed
  define q where "q = (word_of_int len + k_mss kcp - 1) div k_mss kcp"
  have "uint q = (len + int m - 1) div int m"
    unfolding q_def uint_div_distrib len by (simp add: mss)
  moreover have "(len + int m - 1) div int m \<le> len"
  proof -
    have "(len - 1) + int m * 1 \<le> len * int m"
      using mult_mono [of 1 "len - 1" "int m - 1" "int m - 1"] assms mss
      by (simp add: algebra_simps)
    then have "(len + int m - 1) div int m \<le> (len * int m) div int m"
      using mss by (intro zdiv_mono1) (auto simp: algebra_simps)
    then show ?thesis using mss by simp
  qed
  ultimately have "uint q < 2 ^ 31"
    using assms(3) by linarith
  then have "unat q < 2 ^ 31"
    by (metis of_nat_less_iff of_nat_numeral of_nat_power uint_nat)
  then show ?thesis
    using \<open>uint q = _\<close> sint_small [of q] by (simp add: q_def mss)
qed


lemma send_count_bounds:
  assumes "0 < (m :: int)"
  shows "((len + m - 1) div m - 1) * m < len" "len \<le> (len + m - 1) div m * m"
  using assms pos_mod_bound [of m "len + m - 1"] pos_mod_sign [of m "len + m - 1"]
    div_mult_mod_eq [of "len + m - 1" m]
  unfolding left_diff_distrib by linarith+

lemma ikcp_send_rest_cases:
  assumes "mss_ok kcp" "0 < length b" "int (length b) < 2 ^ 31"
  obtains (few) n where "0 < n" "(n - 1) * unat (k_mss kcp) < length b"
      "int (length b) \<le> int n * int (unat (k_mss kcp))"
      "ikcp_send_rest alloc a kcp b (int (length b)) sent =
       ikcp_send_frags alloc a n b (int (length b)) sent kcp"
  | (many) "ikcp_send_rest alloc a kcp b (int (length b)) sent =
       (if k_stream kcp \<noteq> 0 \<and> sent > 0 then (sent, kcp) else (-2, kcp))"
      "127 * unat (k_mss kcp) < length b"
proof -
  obtain m where mss: "unat (k_mss kcp) = m" "sint (k_mss kcp) = int m" "0 < m"
    using mss_okE [OF assms(1)] by metis
  define q where "q = (int (length b) + int m - 1) div int m"
  have q: "(q - 1) * int m < int (length b)" "int (length b) \<le> q * int m"
    using send_count_bounds [of "int m" "int (length b)"] mss by (simp_all add: q_def)
  define c where "c = (if int (length b) \<le> int m then 1 else q)"
  have c: "(c - 1) * int m < int (length b)" "int (length b) \<le> c * int m"
    using q assms(2) by (auto simp: c_def)
  have "0 < c * int m" using c(2) assms(2) by linarith
  then have c0: "0 < c" using mss(3) by (simp add: zero_less_mult_iff)
  have eq: "ikcp_send_rest alloc a kcp b (int (length b)) sent =
     (if c \<ge> 128 then if k_stream kcp \<noteq> 0 \<and> sent > 0 then (sent, kcp) else (-2, kcp)
      else ikcp_send_frags alloc a (nat c) b (int (length b)) sent kcp)"
  proof -
    have ceq: "(if int (length b) \<le> sint (k_mss kcp) then 1
           else sint ((word_of_int (int (length b)) + k_mss kcp - 1) div k_mss kcp)) = c"
      using send_count [OF assms(1) _ assms(3)] unfolding mss c_def q_def by simp
    show ?thesis
      unfolding ikcp_send_rest_def ceq Let_def using c0 by (simp add: IKCP_WND_RCV_def)
  qed
  show ?thesis
  proof (cases "c \<ge> 128")
    case True
    then have "127 * int m \<le> (c - 1) * int m" by (intro mult_right_mono) auto
    with c(1) have "127 * m < length b" by linarith
    then show ?thesis using many eq True mss by simp
  next
    case False
    obtain n where n: "c = int n" using c0 by (metis nonneg_int_cases less_imp_le)
    then have "int (n - 1) * int m < int (length b)" "int (length b) \<le> int n * int m"
      using c c0 by (simp_all add: of_nat_diff)
    then have "(n - 1) * m < length b" "int (length b) \<le> int n * int m"
      by (metis of_nat_less_iff of_nat_mult)+
    then show ?thesis using few [of n] eq False n mss c0 by simp
  qed
qed

lemma ikcp_send_rest_appends:
  assumes "mss_ok kcp" "k_stream kcp \<noteq> 0" "0 < length b" "int (length b) < 2 ^ 31"
  shows "appends kcp b sent (ikcp_send_rest alloc a kcp b (int (length b)) sent)"
proof (cases rule: ikcp_send_rest_cases [OF assms(1,3,4), of alloc a sent])
  case (1 n)
  then show ?thesis using ikcp_send_frags_appends [OF assms(1,2), of n b] by simp
next
  case 2
  then show ?thesis by (auto intro: appends_none)
qed

lemma ikcp_send_rest_all:
  assumes "mss_ok kcp" "0 < length b" "length b \<le> 127 * unat (k_mss kcp)"
  shows "fst (ikcp_send_rest (\<lambda>_. True) a kcp b (int (length b)) sent) = sent + int (length b)"
proof -
  have "length b < 2 ^ 31"
    using mss_okD [OF assms(1)] assms(3) by simp
  then have len: "int (length b) < 2 ^ 31" by simp
  show ?thesis
  proof (cases rule: ikcp_send_rest_cases [OF assms(1,2) len, of "\<lambda>_. True" a sent])
    case (1 n)
    then show ?thesis using ikcp_send_frags_all [OF assms(1)] by simp
  next
    case 2
    then show ?thesis using assms(3) by linarith
  qed
qed


text \<open>
  What \<open>ikcp_send\<close> does to a stream-mode sender: the queued byte stream grows by a prefix of the
  buffer, of the length returned when the result is not negative.
\<close>

definition send_post :: "ikcpcb \<Rightarrow> bytes \<Rightarrow> int \<times> ikcpcb \<Rightarrow> bool" where
  "send_post kcp b res \<longleftrightarrow>
     (\<exists>q c j. snd res = kcp\<lparr>k_snd_queue := q, k_nsnd_que := c\<rparr> \<and>
        c + of_nat (length (k_snd_queue kcp)) = k_nsnd_que kcp + of_nat (length q) \<and>
        list_all (seg_wf (k_mss kcp)) q \<and> j \<le> length b \<and>
        stream_of q = stream_of (k_snd_queue kcp) @ take j b \<and>
        (fst res < 0 \<or> fst res = int j))"

lemma send_postI_same:
  "list_all (seg_wf (k_mss kcp)) (k_snd_queue kcp) \<Longrightarrow> r \<le> 0 \<Longrightarrow> send_post kcp b (r, kcp)"
  unfolding send_post_def
  by (intro exI [of _ "k_snd_queue kcp"] exI [of _ "k_nsnd_que kcp"] exI [of _ 0]) auto

lemma send_postI_appends:
  assumes "appends (kcp\<lparr>k_snd_queue := q\<rparr>) (drop e b) (int e) res"
    and "length q = length (k_snd_queue kcp)" "list_all (seg_wf (k_mss kcp)) q"
    and "stream_of q = stream_of (k_snd_queue kcp) @ take e b" "e \<le> length b"
  shows "send_post kcp b res"
proof -
  obtain fs j where *: "snd res = kcp\<lparr>k_snd_queue := q @ fs,
       k_nsnd_que := k_nsnd_que kcp + of_nat (length fs)\<rparr>"
    "list_all (seg_wf (k_mss kcp)) fs" "j \<le> length (drop e b)" "stream_of fs = take j (drop e b)"
    "fst res = -2 \<or> fst res = int e + int j"
    using assms(1) by (auto simp: appends_def)
  show ?thesis
    unfolding send_post_def using * assms(2-)
    by (intro exI [of _ "q @ fs"] exI [of _ "k_nsnd_que kcp + of_nat (length fs)"]
              exI [of _ "e + j"]) (auto simp: take_add algebra_simps)
qed

text \<open>The last queued segment, filled up with the next bytes of the buffer.\<close>

lemma send_extend:
  assumes "mss_ok kcp" "seg_wf (k_mss kcp) old" "s_len old < k_mss kcp"
  defines "cap \<equiv> unat (k_mss kcp) - length (s_data old)"
  shows "sint (k_mss kcp - s_len old) = int cap" "0 < cap"
    "e \<le> cap \<Longrightarrow> e \<le> length b \<Longrightarrow>
     seg_wf (k_mss kcp) (seg_new (s_data old @ take e b) (s_len old + word_of_int (int e)) 0)"
proof -
  note mss = mss_okD [OF assms(1)]
  have old: "unat (s_len old) = length (s_data old)"
    using assms(2) mss by (auto simp: seg_wf_def intro!: unat_of_nat_u32)
  have "unat (k_mss kcp - s_len old) = cap"
    using assms(3) old by (simp add: cap_def unat_sub less_imp_le)
  then show "sint (k_mss kcp - s_len old) = int cap"
    using mss by (subst sint_small) (auto simp: cap_def)
  show "0 < cap"
    using assms(3) old by (simp add: cap_def word_less_nat_alt)
  show "e \<le> cap \<Longrightarrow> e \<le> length b \<Longrightarrow>
     seg_wf (k_mss kcp) (seg_new (s_data old @ take e b) (s_len old + word_of_int (int e)) 0)"
    using assms(2) by (auto simp: seg_wf_def cap_def)
qed

lemma ikcp_send_stream:
  assumes "mss_ok kcp" "k_stream kcp \<noteq> 0" "list_all (seg_wf (k_mss kcp)) (k_snd_queue kcp)"
    and "int (length b) < 2 ^ 31"
  shows "send_post kcp b (ikcp_send alloc kcp b (int (length b)))"
proof (cases "k_snd_queue kcp \<noteq> [] \<and> s_len (last (k_snd_queue kcp)) < k_mss kcp")
  case True
  then obtain q old where q: "k_snd_queue kcp = q @ [old]" and len: "s_len old < k_mss kcp"
    by (metis append_butlast_last_id)
  have old: "seg_wf (k_mss kcp) old" and wfq: "list_all (seg_wf (k_mss kcp)) q"
    using assms(3) q by auto
  define cap where "cap = unat (k_mss kcp) - length (s_data old)"
  note ext = send_extend [OF assms(1) old len, folded cap_def]
  define e where "e = min cap (length b)"
  have e: "(if int (length b) < int cap then int (length b) else int cap) = int e" "e \<le> length b"
    by (auto simp: e_def)
  define s where "s = seg_new (s_data old @ take e b) (s_len old + word_of_int (int e)) 0"
  define kcp' where "kcp' = kcp\<lparr>k_snd_queue := q @ [s]\<rparr>"
  have wf: "seg_wf (k_mss kcp) s"
    unfolding s_def using e by (intro ext(3)) (auto simp: e_def)
  have eq: "ikcp_send alloc kcp b (int (length b)) =
     (if \<not> alloc 0 then (-2, kcp) else if length b \<le> e then (int e, kcp')
      else ikcp_send_rest alloc 1 kcp' (drop e b) (int (length (drop e b))) (int e))"
    unfolding ikcp_send_def Let_def q last_snoc butlast_snoc ext(1) e(1)
    using assms(2) len e by (simp add: kcp'_def s_def of_nat_diff)
  have app: "appends kcp' (drop e b) (int e) (ikcp_send alloc kcp b (int (length b)))" if "alloc 0"
  proof -
    have "appends kcp' (drop e b) (int e)
        (ikcp_send_rest alloc 1 kcp' (drop e b) (int (length (drop e b))) (int e))"
      if "\<not> length b \<le> e"
      using assms that by (intro ikcp_send_rest_appends) (auto simp: kcp'_def mss_ok_def)
    then show ?thesis
      unfolding eq using that by (auto simp del: length_drop intro: appends_none)
  qed
  show ?thesis
  proof (cases "alloc 0")
    case True
    show ?thesis
      using send_postI_appends [OF app [OF True, unfolded kcp'_def]] wf wfq e(2) q
      by (simp add: s_def)
  qed (simp add: eq send_postI_same assms(3))
next
  case False
  have "appends (kcp\<lparr>k_snd_queue := k_snd_queue kcp\<rparr>) (drop 0 b) (int 0)
      (ikcp_send alloc kcp b (int (length b)))"
    using False assms
    by (auto simp: ikcp_send_def intro!: appends_none ikcp_send_rest_appends)
  from send_postI_appends [OF this] show ?thesis
    using assms(3) by simp
qed

text \<open>With memory, a buffer that needs fewer than 128 segments is queued whole.\<close>

lemma ikcp_send_all:
  assumes "mss_ok kcp" "k_stream kcp \<noteq> 0" "list_all (seg_wf (k_mss kcp)) (k_snd_queue kcp)"
    and "length b \<le> 127 * unat (k_mss kcp)"
  shows "fst (ikcp_send (\<lambda>_. True) kcp b (int (length b))) = int (length b)"
proof (cases "k_snd_queue kcp \<noteq> [] \<and> s_len (last (k_snd_queue kcp)) < k_mss kcp")
  case True
  define old where "old = last (k_snd_queue kcp)"
  have old: "seg_wf (k_mss kcp) old" "s_len old < k_mss kcp"
    using assms(3) True by (auto simp: old_def list_all_iff)
  define cap where "cap = unat (k_mss kcp) - length (s_data old)"
  note ext = send_extend [OF assms(1) old, folded cap_def]
  show ?thesis
    unfolding ikcp_send_def Let_def old_def [symmetric] ext(1)
    using True old assms ikcp_send_rest_all [of "kcp\<lparr>k_snd_queue := q\<rparr>" "drop cap b" for q] 
    by (auto simp: mss_ok_def of_nat_diff)
next
  case False
  then show ?thesis
    using assms ikcp_send_rest_all [OF assms(1), of b 0 0] by (auto simp: ikcp_send_def)
qed


subsection \<open>What the receive side hands over\<close>

lemma recv_merge_length: "fst (snd (recv_merge q)) = peek_length q"
  by (induction q) (auto simp: Let_def split: prod.splits)

text \<open>The debug assertion \<open>len == peeksize\<close> of \<open>ikcp_recv\<close> holds.\<close>

lemma recv_merge_peeksize:
  "k_rcv_queue kcp \<noteq> [] \<Longrightarrow> 0 \<le> ikcp_peeksize kcp \<Longrightarrow>
   sint (fst (snd (recv_merge (k_rcv_queue kcp)))) = ikcp_peeksize kcp"
  by (auto simp: recv_merge_length ikcp_peeksize_def split: list.splits if_splits)

text \<open>The segments of one message: all but the last announce more to come.\<close>

lemma recv_merge_message:
  assumes "\<forall>s \<in> set (q @ [t]). s_len s = of_nat (length (s_data s)) \<and> length (s_data s) < 2 ^ 32"
    and "\<forall>s \<in> set q. s_frg s \<noteq> 0" "s_frg t = 0"
  shows "recv_merge (q @ t # r) =
    (stream_of (q @ [t]), of_nat (length (stream_of (q @ [t]))), Suc (length q))"
  using assms by (induction q) (auto simp: unat_of_nat_u32)

definition rcv_shift :: "nat \<Rightarrow> ikcpcb \<Rightarrow> ikcpcb" where
  "rcv_shift n kcp = kcp\<lparr>k_rcv_buf := drop n (k_rcv_buf kcp),
     k_nrcv_buf := k_nrcv_buf kcp - of_nat n,
     k_rcv_queue := k_rcv_queue kcp @ take n (k_rcv_buf kcp),
     k_nrcv_que := k_nrcv_que kcp + of_nat n, k_rcv_nxt := k_rcv_nxt kcp + of_nat n\<rparr>"

text \<open>
  \<open>rcv_move\<close> shifts the longest run of consecutive segments that starts at \<open>rcv_nxt\<close> and fits
  in the window.
\<close>

lemma rcv_move_shift:
  obtains n where "n \<le> length (k_rcv_buf kcp)" "rcv_move (k_rcv_buf kcp) kcp = rcv_shift n kcp"
    "\<And>i. i < n \<Longrightarrow> s_sn (k_rcv_buf kcp ! i) = k_rcv_nxt kcp + of_nat i"
    "n < length (k_rcv_buf kcp) \<Longrightarrow> s_sn (k_rcv_buf kcp ! n) \<noteq> k_rcv_nxt kcp + of_nat n \<or>
       \<not> k_nrcv_que kcp + of_nat n < k_rcv_wnd kcp"
    "n > 0 \<Longrightarrow> k_nrcv_que kcp + of_nat (n - 1) < k_rcv_wnd kcp"
proof -
  have "\<exists>n \<le> length buf. rcv_move buf kcp = rcv_shift n kcp \<and>
     (\<forall>i < n. s_sn (buf ! i) = k_rcv_nxt kcp + of_nat i) \<and>
     (n < length buf \<longrightarrow> s_sn (buf ! n) \<noteq> k_rcv_nxt kcp + of_nat n \<or>
       \<not> k_nrcv_que kcp + of_nat n < k_rcv_wnd kcp) \<and>
     (n > 0 \<longrightarrow> k_nrcv_que kcp + of_nat (n - 1) < k_rcv_wnd kcp)"
    if "k_rcv_buf kcp = buf" for buf
    using that
  proof (induction buf kcp rule: rcv_move.induct)
    case (1 kcp)
    then show ?case by (auto simp: rcv_shift_def)
  next
    case (2 seg rest kcp)
    show ?case
    proof (cases "s_sn seg = k_rcv_nxt kcp \<and> k_nrcv_que kcp < k_rcv_wnd kcp")
      case True
      with 2 obtain n where n: "n \<le> length rest"
        "rcv_move (seg # rest) kcp = rcv_shift (Suc n) kcp"
        "\<forall>i < n. s_sn (rest ! i) = k_rcv_nxt kcp + 1 + of_nat i"
        "n < length rest \<longrightarrow> s_sn (rest ! n) \<noteq> k_rcv_nxt kcp + 1 + of_nat n \<or>
           \<not> k_nrcv_que kcp + 1 + of_nat n < k_rcv_wnd kcp"
        "n > 0 \<longrightarrow> k_nrcv_que kcp + 1 + of_nat (n - 1) < k_rcv_wnd kcp"
        by (auto simp: rcv_shift_def algebra_simps)
      then show ?thesis using True
        by (intro exI [of _ "Suc n"]) (auto simp: nth_Cons' algebra_simps of_nat_diff)
    next
      case False
      then show ?thesis using 2
        by (intro exI [of _ 0]) (auto simp: rcv_shift_def)
    qed
  qed
  then show thesis using that by blast
qed

lemma rcv_shift_simps [simp]:
  "k_rcv_buf (rcv_shift n kcp) = drop n (k_rcv_buf kcp)"
  "k_rcv_queue (rcv_shift n kcp) = k_rcv_queue kcp @ take n (k_rcv_buf kcp)"
  "k_rcv_nxt (rcv_shift n kcp) = k_rcv_nxt kcp + of_nat n"
  "k_nrcv_que (rcv_shift n kcp) = k_nrcv_que kcp + of_nat n"
  "k_nrcv_buf (rcv_shift n kcp) = k_nrcv_buf kcp - of_nat n"
  "k_rcv_wnd (rcv_shift n kcp) = k_rcv_wnd kcp"
  by (simp_all add: rcv_shift_def)

text \<open>A successful \<open>ikcp_recv\<close>: the merged message, the shortened queue, and the run moved up.\<close>

lemma ikcp_recv_success:
  assumes "fst (ikcp_recv kcp len) \<ge> 0" "len \<ge> 0"
  obtains d l m n p where "recv_merge (k_rcv_queue kcp) = (d, l, m)"
    "fst (snd (ikcp_recv kcp len)) = d" "fst (ikcp_recv kcp len) = sint l" "sint l \<le> len"
    "k_rcv_queue kcp \<noteq> []" "0 \<le> ikcp_peeksize kcp"
    "n \<le> length (k_rcv_buf kcp)"
    "\<And>i. i < n \<Longrightarrow> s_sn (k_rcv_buf kcp ! i) = k_rcv_nxt kcp + of_nat i"
    "snd (snd (ikcp_recv kcp len)) =
       (rcv_shift n (kcp\<lparr>k_rcv_queue := drop m (k_rcv_queue kcp),
          k_nrcv_que := k_nrcv_que kcp - of_nat m\<rparr>))\<lparr>k_probe := p\<rparr>"
    "n > 0 \<Longrightarrow> k_nrcv_que kcp - of_nat m + of_nat (n - 1) < k_rcv_wnd kcp"
proof -
  obtain d l m where dlm: "recv_merge (k_rcv_queue kcp) = (d, l, m)"
    by (metis prod_cases3)
  define kcp1 where "kcp1 = kcp\<lparr>k_rcv_queue := drop m (k_rcv_queue kcp),
          k_nrcv_que := k_nrcv_que kcp - of_nat m\<rparr>"
  obtain n where n: "n \<le> length (k_rcv_buf kcp1)"
    "rcv_move (k_rcv_buf kcp1) kcp1 = rcv_shift n kcp1"
    "\<And>i. i < n \<Longrightarrow> s_sn (k_rcv_buf kcp1 ! i) = k_rcv_nxt kcp1 + of_nat i"
    "n > 0 \<Longrightarrow> k_nrcv_que kcp1 + of_nat (n - 1) < k_rcv_wnd kcp1"
    by (rule rcv_move_shift) blast
  have ok: "k_rcv_queue kcp \<noteq> []" "0 \<le> ikcp_peeksize kcp" "ikcp_peeksize kcp \<le> len"
    using assms by (auto simp: ikcp_recv_def split: if_splits)
  have l: "sint l = ikcp_peeksize kcp"
    using recv_merge_peeksize [OF ok(1,2)] dlm by simp
  define p where "p = (if k_nrcv_que (rcv_shift n kcp1) < k_rcv_wnd (rcv_shift n kcp1) \<and>
      k_rcv_wnd kcp \<le> k_nrcv_que kcp then k_probe (rcv_shift n kcp1) OR IKCP_ASK_TELL
      else k_probe (rcv_shift n kcp1))"
  have "ikcp_recv kcp len = (sint l, d, (rcv_shift n kcp1)\<lparr>k_probe := p\<rparr>)"
    unfolding ikcp_recv_def dlm Let_def split kcp1_def [symmetric]
    using ok assms(2) by (simp add: n(2) p_def)
  then show thesis
    using ok l n unfolding kcp1_def by (intro that [OF dlm]) (auto simp: gr0_conv_Suc)
qed

end
