(* ===== verification/Ikcp_Input.thy ===== *)
theory Ikcp_Input
  imports Ikcp_Queue
begin

text \<open>
  The network side of the KCP engine, incoming: \<open>ikcp_input\<close> with the round-trip estimator, the
  acknowledgement handlers, the ack list and the insertion into the receive buffer. The build
  defines \<open>IKCP_FASTACK_CONSERVE\<close>, so its branches are the ones modelled.

  \<open>mem n\<close> says whether an allocation for \<open>n\<close> bytes succeeds. The value \<open>None\<close> stands for a
  run the process does not survive: a read past the end of the packet, a failed allocation
  (\<open>abort\<close> in \<open>ikcp_ack_push\<close>, the unchecked \<open>ikcp_segment_new\<close> in \<open>ikcp_input\<close>), or the
  doubling loop of \<open>ikcp_ack_push\<close> not ending.
\<close>

subsection \<open>Round-trip time\<close>

definition ikcp_update_ack :: "ikcpcb \<Rightarrow> int \<Rightarrow> ikcpcb" where
  "ikcp_update_ack kcp rtt =
     (let kcp1 =
        (if k_rx_srtt kcp = 0
         then kcp\<lparr>k_rx_srtt := word_of_int rtt, k_rx_rttval := word_of_int (rtt sdiv 2)\<rparr>
         else
           (let delta = \<bar>sint (word_of_int rtt - k_rx_srtt kcp)\<bar>;
                rttval = word_of_int ((sint (3 * k_rx_rttval kcp) + delta) sdiv 4);
                srtt = word_of_int (sint (7 * k_rx_srtt kcp + word_of_int rtt) sdiv 8)
            in kcp\<lparr>k_rx_rttval := rttval,
                   k_rx_srtt := (if sint srtt < 1 then 1 else srtt)\<rparr>));
          rto = k_rx_srtt kcp1 + imax (k_interval kcp1) (4 * k_rx_rttval kcp1)
      in kcp1\<lparr>k_rx_rto := ibound (k_rx_minrto kcp1) rto IKCP_RTO_MAX\<rparr>)"

subsection \<open>Acknowledgements\<close>

definition ikcp_shrink_buf :: "ikcpcb \<Rightarrow> ikcpcb" where
  "ikcp_shrink_buf kcp =
     kcp\<lparr>k_snd_una := (case k_snd_buf kcp of [] \<Rightarrow> k_snd_nxt kcp | seg # _ \<Rightarrow> s_sn seg)\<rparr>"

text \<open>The loops return the remaining buffer and the number of segments deleted.\<close>

fun parse_ack_loop :: "u32 \<Rightarrow> ikcpseg list \<Rightarrow> ikcpseg list \<times> nat" where
  "parse_ack_loop sn [] = ([], 0)"
| "parse_ack_loop sn (seg # segs) =
     (if sn = s_sn seg then (segs, 1)
      else if itimediff sn (s_sn seg) < 0 then (seg # segs, 0)
      else let (r, n) = parse_ack_loop sn segs in (seg # r, n))"

definition ikcp_parse_ack :: "ikcpcb \<Rightarrow> u32 \<Rightarrow> ikcpcb" where
  "ikcp_parse_ack kcp sn =
     (if itimediff sn (k_snd_una kcp) < 0 \<or> itimediff sn (k_snd_nxt kcp) \<ge> 0 then kcp
      else let (r, n) = parse_ack_loop sn (k_snd_buf kcp)
           in kcp\<lparr>k_snd_buf := r, k_nsnd_buf := k_nsnd_buf kcp - of_nat n\<rparr>)"

fun parse_una_loop :: "u32 \<Rightarrow> ikcpseg list \<Rightarrow> ikcpseg list \<times> nat" where
  "parse_una_loop una [] = ([], 0)"
| "parse_una_loop una (seg # segs) =
     (if itimediff una (s_sn seg) > 0
      then let (r, n) = parse_una_loop una segs in (r, Suc n)
      else (seg # segs, 0))"

definition ikcp_parse_una :: "ikcpcb \<Rightarrow> u32 \<Rightarrow> ikcpcb" where
  "ikcp_parse_una kcp una =
     (let (r, n) = parse_una_loop una (k_snd_buf kcp)
      in kcp\<lparr>k_snd_buf := r, k_nsnd_buf := k_nsnd_buf kcp - of_nat n\<rparr>)"

fun parse_fastack_loop :: "u32 \<Rightarrow> u32 \<Rightarrow> ikcpseg list \<Rightarrow> ikcpseg list" where
  "parse_fastack_loop sn ts [] = []"
| "parse_fastack_loop sn ts (seg # segs) =
     (if itimediff sn (s_sn seg) < 0 then seg # segs
      else (if sn \<noteq> s_sn seg \<and> itimediff ts (s_ts seg) \<ge> 0
            then seg\<lparr>s_fastack := s_fastack seg + 1\<rparr> else seg) # parse_fastack_loop sn ts segs)"

definition ikcp_parse_fastack :: "ikcpcb \<Rightarrow> u32 \<Rightarrow> u32 \<Rightarrow> ikcpcb" where
  "ikcp_parse_fastack kcp sn ts =
     (if itimediff sn (k_snd_una kcp) < 0 \<or> itimediff sn (k_snd_nxt kcp) \<ge> 0 then kcp
      else kcp\<lparr>k_snd_buf := parse_fastack_loop sn ts (k_snd_buf kcp)\<rparr>)"

text \<open>
  The doubling loop. Past \<open>2\<^sup>3\<^sup>1\<close> the shift wraps to 0 and the loop does not end, so it is a
  partial function.
\<close>

partial_function (option) ack_newblock :: "u32 \<Rightarrow> u32 \<Rightarrow> u32 option" where
  "ack_newblock newblock newsize =
     (if newblock < newsize then ack_newblock (push_bit 1 newblock) newsize
      else Some newblock)"

declare ack_newblock.simps [code]

text \<open>The entries of \<open>acklist\<close> from \<open>ackcount\<close> on are never read and not kept.\<close>

definition ikcp_ack_push :: "(nat \<Rightarrow> bool) \<Rightarrow> ikcpcb \<Rightarrow> u32 \<Rightarrow> u32 \<Rightarrow> ikcpcb option" where
  "ikcp_ack_push mem kcp sn ts =
     do { kcp1 \<leftarrow>
            (let newsize = k_ackcount kcp + 1 in
             if newsize > k_ackblock kcp
             then do { newblock \<leftarrow> ack_newblock 8 newsize;
                       if mem (unat newblock * 4 * 2)
                       then Some (kcp\<lparr>k_ackblock := newblock\<rparr>) else None }
             else Some kcp);
          Some (kcp1\<lparr>k_acklist := take (unat (k_ackcount kcp1)) (k_acklist kcp1) @ [(sn, ts)],
                     k_ackcount := k_ackcount kcp1 + 1\<rparr>) }"

subsection \<open>The receive buffer\<close>

text \<open>
  The search of \<open>ikcp_parse_data\<close> from the tail, on the reversed buffer; \<open>None\<close> when the
  serial number is already there.
\<close>

fun insert_tail :: "ikcpseg \<Rightarrow> ikcpseg list \<Rightarrow> ikcpseg list option" where
  "insert_tail newseg [] = Some [newseg]"
| "insert_tail newseg (seg # segs) =
     (if s_sn seg = s_sn newseg then None
      else if itimediff (s_sn newseg) (s_sn seg) > 0 then Some (newseg # seg # segs)
      else map_option ((#) seg) (insert_tail newseg segs))"

definition ikcp_parse_data :: "ikcpcb \<Rightarrow> ikcpseg \<Rightarrow> ikcpcb" where
  "ikcp_parse_data kcp newseg =
     (let sn = s_sn newseg in
      if itimediff sn (k_rcv_nxt kcp + k_rcv_wnd kcp) \<ge> 0 \<or> itimediff sn (k_rcv_nxt kcp) < 0
      then kcp
      else
        (let kcp1 = (case insert_tail newseg (rev (k_rcv_buf kcp)) of
                       None \<Rightarrow> kcp
                     | Some r \<Rightarrow> kcp\<lparr>k_rcv_buf := rev r, k_nrcv_buf := k_nrcv_buf kcp + 1\<rparr>)
         in rcv_move (k_rcv_buf kcp1) kcp1))"

subsection \<open>ikcp_input\<close>

text \<open>The header fields, in a segment without data, and the bytes after them.\<close>

definition ikcp_decode_seg :: "bytes \<Rightarrow> (ikcpseg \<times> bytes) option" where
  "ikcp_decode_seg data = do {
     (conv, data) \<leftarrow> ikcp_decode32u data;
     (cmd, data) \<leftarrow> ikcp_decode8u data;
     (frg, data) \<leftarrow> ikcp_decode8u data;
     (wnd, data) \<leftarrow> ikcp_decode16u data;
     (ts, data) \<leftarrow> ikcp_decode32u data;
     (sn, data) \<leftarrow> ikcp_decode32u data;
     (una, data) \<leftarrow> ikcp_decode32u data;
     (len, data) \<leftarrow> ikcp_decode32u data;
     Some (\<lparr>s_conv = conv, s_cmd = ucast cmd, s_frg = ucast frg, s_wnd = ucast wnd, s_ts = ts,
            s_sn = sn, s_una = una, s_len = len, s_resendts = 0, s_rto = 0, s_fastack = 0,
            s_xmit = 0, s_data = []\<rparr>, data) }"

text \<open>
  What the loop remembers of the acknowledgements it saw: \<open>None\<close> for \<open>flag = 0\<close>, else the pair
  \<open>maxack\<close>, \<open>latest_ts\<close>.
\<close>

type_synonym ack_seen = "(u32 \<times> u32) option"

definition note_ack :: "ack_seen \<Rightarrow> u32 \<Rightarrow> u32 \<Rightarrow> ack_seen" where
  "note_ack seen sn ts =
     (case seen of
        None \<Rightarrow> Some (sn, ts)
      | Some (maxack, latest_ts) \<Rightarrow>
          if itimediff sn maxack > 0 \<and> itimediff ts latest_ts > 0 then Some (sn, ts) else seen)"

text \<open>The part of the loop body after the checks; \<open>seg\<close> carries its data.\<close>

definition input_segment ::
  "(nat \<Rightarrow> bool) \<Rightarrow> ikcpseg \<Rightarrow> ikcpcb \<Rightarrow> ack_seen \<Rightarrow> (ikcpcb \<times> ack_seen) option" where
  "input_segment mem seg kcp0 seen =
     (let kcp = ikcp_shrink_buf (ikcp_parse_una (kcp0\<lparr>k_rmt_wnd := s_wnd seg\<rparr>) (s_una seg));
          sn = s_sn seg; ts = s_ts seg in
      if s_cmd seg = IKCP_CMD_ACK then
        (let kcp1 = (if itimediff (k_current kcp) ts \<ge> 0
                     then ikcp_update_ack kcp (itimediff (k_current kcp) ts) else kcp)
         in Some (ikcp_shrink_buf (ikcp_parse_ack kcp1 sn), note_ack seen sn ts))
      else if s_cmd seg = IKCP_CMD_PUSH then
        (if itimediff sn (k_rcv_nxt kcp + k_rcv_wnd kcp) < 0
         then do { kcp1 \<leftarrow> ikcp_ack_push mem kcp sn ts;
                   if itimediff sn (k_rcv_nxt kcp1) \<ge> 0
                   then if mem (unat (s_len seg)) then Some (ikcp_parse_data kcp1 seg, seen)
                        else None
                   else Some (kcp1, seen) }
         else Some (kcp, seen))
      else if s_cmd seg = IKCP_CMD_WASK then
        Some (kcp\<lparr>k_probe := k_probe kcp OR IKCP_ASK_TELL\<rparr>, seen)
      else Some (kcp, seen))"

definition known_cmd :: "u32 \<Rightarrow> bool" where
  "known_cmd cmd \<longleftrightarrow>
     cmd = IKCP_CMD_PUSH \<or> cmd = IKCP_CMD_ACK \<or> cmd = IKCP_CMD_WASK \<or> cmd = IKCP_CMD_WINS"

lemma ikcp_decode8u_Some: "ikcp_decode8u p = Some (v, q) \<Longrightarrow> q = drop 1 p \<and> 1 \<le> length p"
  by (cases p) (auto simp: ikcp_decode8u_def)

lemma ikcp_decode16u_Some: "ikcp_decode16u p = Some (v, q) \<Longrightarrow> q = drop 2 p"
  by (auto simp: ikcp_decode16u_def split: bind_splits)

lemma ikcp_decode32u_Some: "ikcp_decode32u p = Some (v, q) \<Longrightarrow> q = drop 4 p"
  by (auto simp: ikcp_decode32u_def split: bind_splits)

lemma ikcp_decode_seg_Some:
  assumes "ikcp_decode_seg data = Some (seg, rest)"
  shows "rest = drop 24 data \<and> data \<noteq> []"
  using assms
  by (auto simp: ikcp_decode_seg_def split: bind_splits
      dest!: ikcp_decode8u_Some ikcp_decode16u_Some ikcp_decode32u_Some)

text \<open>
  The loop returns the result code (0 when it leaves by the size check), the control block and
  the acknowledgements seen.
\<close>

function ikcp_input_loop ::
  "(nat \<Rightarrow> bool) \<Rightarrow> bytes \<Rightarrow> ikcpcb \<Rightarrow> ack_seen \<Rightarrow> (int \<times> ikcpcb \<times> ack_seen) option" where
  "ikcp_input_loop mem data kcp seen =
     (if length data < unat IKCP_OVERHEAD then Some (0, kcp, seen)
      else case ikcp_decode_seg data of
        None \<Rightarrow> None
      | Some (seg, rest) \<Rightarrow>
          if s_conv seg \<noteq> k_conv kcp then Some (-1, kcp, seen)
          else if int (length rest) < uint (s_len seg) \<or> sint (s_len seg) < 0
          then Some (-2, kcp, seen)
          else if \<not> known_cmd (s_cmd seg) then Some (-3, kcp, seen)
          else case input_segment mem (seg\<lparr>s_data := take (unat (s_len seg)) rest\<rparr>) kcp seen of
            None \<Rightarrow> None
          | Some (kcp', seen') \<Rightarrow>
              ikcp_input_loop mem (drop (unat (s_len seg)) rest) kcp' seen')"
  by pat_completeness auto
termination
  by (relation "measure (\<lambda>(mem, data, kcp, seen). length data)")
    (auto dest!: ikcp_decode_seg_Some)

text \<open>Congestion window growth after new data was acknowledged.\<close>

definition input_cwnd :: "ikcpcb \<Rightarrow> ikcpcb" where
  "input_cwnd kcp =
     (if k_cwnd kcp < k_rmt_wnd kcp then
        (let mss = k_mss kcp;
             kcp1 =
               (if k_cwnd kcp < k_ssthresh kcp
                then kcp\<lparr>k_cwnd := k_cwnd kcp + 1, k_incr := k_incr kcp + mss\<rparr>
                else
                  (let incr0 = (if k_incr kcp < mss then mss else k_incr kcp);
                       incr1 = incr0 + ((mss * mss) div incr0 + mss div 16)
                   in kcp\<lparr>k_incr := incr1,
                          k_cwnd := (if (k_cwnd kcp + 1) * mss \<le> incr1
                                     then (incr1 + mss - 1) div (if mss > 0 then mss else 1)
                                     else k_cwnd kcp)\<rparr>))
         in if k_cwnd kcp1 > k_rmt_wnd kcp1
            then kcp1\<lparr>k_cwnd := k_rmt_wnd kcp1, k_incr := k_rmt_wnd kcp1 * mss\<rparr> else kcp1)
      else kcp)"

text \<open>\<open>data\<close> is the non-null packet of \<open>size\<close> bytes; the first check truncates \<open>size\<close> to an int.\<close>

definition ikcp_input :: "(nat \<Rightarrow> bool) \<Rightarrow> ikcpcb \<Rightarrow> bytes \<Rightarrow> (int \<times> ikcpcb) option" where
  "ikcp_input mem kcp data =
     (if sint (of_nat (length data) :: u32) < sint IKCP_OVERHEAD then Some (-1, kcp)
      else do {
        (r, kcp1, seen) \<leftarrow> ikcp_input_loop mem data kcp None;
        if r < 0 then Some (r, kcp1)
        else
          (let kcp2 = (case seen of None \<Rightarrow> kcp1
                       | Some (maxack, latest_ts) \<Rightarrow> ikcp_parse_fastack kcp1 maxack latest_ts)
           in Some (0, if itimediff (k_snd_una kcp2) (k_snd_una kcp) > 0
                       then input_cwnd kcp2 else kcp2)) })"

subsection \<open>The handlers touch only their own fields\<close>

lemma rto_bounds:
  assumes "k_rx_minrto kcp \<le> IKCP_RTO_MAX"
  shows "k_rx_minrto kcp \<le> k_rx_rto (ikcp_update_ack kcp rtt)"
    "k_rx_rto (ikcp_update_ack kcp rtt) \<le> IKCP_RTO_MAX"
  using ibound_bounds [OF assms] by (simp_all add: ikcp_update_ack_def Let_def)

lemma ikcp_update_ack_frame [simp]:
  "k_conv (ikcp_update_ack kcp rtt) = k_conv kcp" "k_mss (ikcp_update_ack kcp rtt) = k_mss kcp"
  "k_mtu (ikcp_update_ack kcp rtt) = k_mtu kcp"
  "k_stream (ikcp_update_ack kcp rtt) = k_stream kcp"
  "k_snd_queue (ikcp_update_ack kcp rtt) = k_snd_queue kcp"
  "k_nsnd_que (ikcp_update_ack kcp rtt) = k_nsnd_que kcp"
  "k_snd_buf (ikcp_update_ack kcp rtt) = k_snd_buf kcp"
  "k_nsnd_buf (ikcp_update_ack kcp rtt) = k_nsnd_buf kcp"
  "k_snd_una (ikcp_update_ack kcp rtt) = k_snd_una kcp"
  "k_snd_nxt (ikcp_update_ack kcp rtt) = k_snd_nxt kcp"
  "k_rcv_queue (ikcp_update_ack kcp rtt) = k_rcv_queue kcp"
  "k_nrcv_que (ikcp_update_ack kcp rtt) = k_nrcv_que kcp"
  "k_rcv_buf (ikcp_update_ack kcp rtt) = k_rcv_buf kcp"
  "k_nrcv_buf (ikcp_update_ack kcp rtt) = k_nrcv_buf kcp"
  "k_rcv_nxt (ikcp_update_ack kcp rtt) = k_rcv_nxt kcp"
  "k_rcv_wnd (ikcp_update_ack kcp rtt) = k_rcv_wnd kcp"
  "k_acklist (ikcp_update_ack kcp rtt) = k_acklist kcp"
  "k_ackcount (ikcp_update_ack kcp rtt) = k_ackcount kcp"
  "k_rx_minrto (ikcp_update_ack kcp rtt) = k_rx_minrto kcp"
  by (simp_all add: ikcp_update_ack_def Let_def)

lemma parse_ack_loop_char:
  "parse_ack_loop sn buf = (r, n) \<Longrightarrow>
   (r = buf \<and> n = 0) \<or> (\<exists>xs s ys. buf = xs @ s # ys \<and> s_sn s = sn \<and> r = xs @ ys \<and> n = 1)"
proof (induction buf arbitrary: r n)
  case (Cons a buf)
  show ?case
  proof (cases "sn = s_sn a \<or> itimediff sn (s_sn a) < 0")
    case True
    then show ?thesis using Cons.prems by (auto split: if_splits intro: exI [of _ "[]"])
  next
    case False
    obtain r' n' where r: "parse_ack_loop sn buf = (r', n')" by fastforce
    with Cons.prems False have "r = a # r'" "n = n'" by auto
    with Cons.IH [OF r] show ?thesis
      by (metis append_Cons)
  qed
qed simp

lemma parse_una_loop_char:
  "parse_una_loop una buf =
     (dropWhile (\<lambda>s. itimediff una (s_sn s) > 0) buf,
      length (takeWhile (\<lambda>s. itimediff una (s_sn s) > 0) buf))"
  by (induction buf) auto

lemma ikcp_parse_una_eq:
  "ikcp_parse_una kcp una =
     kcp\<lparr>k_snd_buf := dropWhile (\<lambda>s. itimediff una (s_sn s) > 0) (k_snd_buf kcp),
         k_nsnd_buf := k_nsnd_buf kcp -
           of_nat (length (takeWhile (\<lambda>s. itimediff una (s_sn s) > 0) (k_snd_buf kcp)))\<rparr>"
  by (simp add: ikcp_parse_una_def parse_una_loop_char)

text \<open>Two segments that differ at most in their timers, window and acknowledgement fields.\<close>

definition seg_sim :: "ikcpseg \<Rightarrow> ikcpseg \<Rightarrow> bool" where
  "seg_sim s t \<longleftrightarrow> s_conv t = s_conv s \<and> s_cmd t = s_cmd s \<and> s_frg t = s_frg s \<and>
     s_sn t = s_sn s \<and> s_len t = s_len s \<and> s_data t = s_data s"

lemma seg_sim_refl [simp]: "seg_sim s s"
  by (simp add: seg_sim_def)

lemma seg_sims_refl [simp]: "list_all2 seg_sim buf buf"
  by (rule list.rel_refl) simp

lemma parse_fastack_loop_sim: "list_all2 seg_sim buf (parse_fastack_loop sn ts buf)"
  by (induction buf) (auto simp: seg_sim_def [abs_def] intro: list.rel_refl)

text \<open>The doubling loop ends, on a block that is large enough, for every size up to \<open>2\<^sup>3\<^sup>1\<close>.\<close>

lemma ack_newblock_pow:
  assumes "k \<le> 31" "n \<le> 2 ^ 31"
  shows "\<exists>b. ack_newblock (2 ^ k) n = Some b \<and> n \<le> b"
  using assms
proof (induction "31 - k" arbitrary: k)
  case 0
  then have "\<not> (2 ^ k :: u32) < n" by auto
  then show ?case by (subst ack_newblock.simps) auto
next
  case (Suc d)
  have *: "push_bit 1 (2 ^ k :: u32) = 2 ^ Suc k" by (simp add: push_bit_eq_mult)
  show ?case
  proof (cases "(2 ^ k :: u32) < n")
    case True
    have "\<exists>b. ack_newblock (2 ^ Suc k) n = Some b \<and> n \<le> b"
      using Suc.hyps(2) Suc.prems by (intro Suc.hyps(1)) auto
    with True show ?thesis
      by (subst ack_newblock.simps) (simp only: * if_True)
  next
    case False
    then show ?thesis by (subst ack_newblock.simps) auto
  qed
qed

lemma ack_newblock_8: "n \<le> 2 ^ 31 \<Longrightarrow> \<exists>b. ack_newblock 8 n = Some b \<and> n \<le> b"
  using ack_newblock_pow [of 3 n] by simp

lemma ikcp_ack_push_Some:
  assumes "ikcp_ack_push mem kcp sn ts = Some kcp'"
  obtains b where "kcp' = kcp\<lparr>k_ackblock := b,
    k_acklist := take (unat (k_ackcount kcp)) (k_acklist kcp) @ [(sn, ts)],
    k_ackcount := k_ackcount kcp + 1\<rparr>"
proof (cases "k_ackblock kcp < k_ackcount kcp + 1")
  case True
  with assms that show ?thesis
    by (auto simp: ikcp_ack_push_def Let_def bind_eq_Some_conv split: if_splits)
next
  case False
  with assms that [of "k_ackblock kcp"] show ?thesis
    by (simp add: ikcp_ack_push_def Let_def)
qed

lemma ikcp_ack_push_total:
  assumes "\<And>n. mem n" "unat (k_ackcount kcp) < 2 ^ 31"
  shows "\<exists>kcp'. ikcp_ack_push mem kcp sn ts = Some kcp'"
proof -
  have "k_ackcount kcp + 1 \<le> 2 ^ 31"
    using assms(2) by (simp add: word_le_nat_alt unat_plus_if')
  from ack_newblock_8 [OF this] assms(1) show ?thesis
    by (auto simp: ikcp_ack_push_def Let_def)
qed

lemma decode_at:
  "i + 1 \<le> length p \<Longrightarrow> \<exists>v. ikcp_decode8u (drop i p) = Some (v, drop (i + 1) p)"
  "i + 2 \<le> length p \<Longrightarrow> \<exists>v. ikcp_decode16u (drop i p) = Some (v, drop (i + 2) p)"
  "i + 4 \<le> length p \<Longrightarrow> \<exists>v. ikcp_decode32u (drop i p) = Some (v, drop (i + 4) p)"
  using ikcp_decode8u_enough [of "drop i p"] ikcp_decode16u_enough [of "drop i p"]
    ikcp_decode32u_enough [of "drop i p"]
  by (simp_all add: le_diff_conv2 add.commute)

lemma ikcp_decode_seg_enough:
  assumes "24 \<le> length data"
  shows "\<exists>seg. ikcp_decode_seg data = Some (seg, drop 24 data)"
  using assms decode_at(3) [of 0 data] decode_at(1) [of 4 data] decode_at(1) [of 5 data]
    decode_at(2) [of 6 data] decode_at(3) [of 8 data] decode_at(3) [of 12 data]
    decode_at(3) [of 16 data] decode_at(3) [of 20 data]
  by (clarsimp simp: ikcp_decode_seg_def)

end
