(* ===== verification/Ikcp_Flush.thy ===== *)
theory Ikcp_Flush
  imports Ikcp_Input
begin

text \<open>
  The network side of the KCP engine, outgoing: \<open>ikcp_flush\<close>, \<open>ikcp_update\<close> and \<open>ikcp_check\<close>.

  The state of a flush is the control block, the bytes \<open>ptr - buffer\<close> of the scratch buffer and
  the packets handed to the \<open>output\<close> callback so far, in order.
\<close>

type_synonym outs = "bytes \<times> bytes list"

subsection \<open>Writing segments into packets\<close>

definition ikcp_output :: "bytes list \<Rightarrow> bytes \<Rightarrow> bytes list" where
  "ikcp_output pkts buffer = (if buffer = [] then pkts else pkts @ [buffer])"

text \<open>Send the buffer first if \<open>need\<close> more bytes do not fit in the mtu.\<close>

definition make_room :: "ikcpcb \<Rightarrow> int \<Rightarrow> outs \<Rightarrow> outs" where
  "make_room kcp need out =
     (let (buffer, pkts) = out in
      if int (length buffer) + need > sint (k_mtu kcp) then ([], ikcp_output pkts buffer) else out)"

definition put_bytes :: "bytes \<Rightarrow> outs \<Rightarrow> outs" where
  "put_bytes bs out = (fst out @ bs, snd out)"

definition put_header :: "ikcpcb \<Rightarrow> ikcpseg \<Rightarrow> outs \<Rightarrow> outs" where
  "put_header kcp seg out =
     put_bytes (ikcp_encode_seg seg) (make_room kcp (sint IKCP_OVERHEAD) out)"

definition ikcp_wnd_unused :: "ikcpcb \<Rightarrow> u32" where
  "ikcp_wnd_unused kcp =
     (if k_nrcv_que kcp < k_rcv_wnd kcp then k_rcv_wnd kcp - k_nrcv_que kcp else 0)"

text \<open>The control segment \<open>ikcp_flush\<close> fills in first.\<close>

definition ctl_seg :: "ikcpcb \<Rightarrow> ikcpseg" where
  "ctl_seg kcp =
     \<lparr>s_conv = k_conv kcp, s_cmd = IKCP_CMD_ACK, s_frg = 0, s_wnd = ikcp_wnd_unused kcp,
      s_ts = 0, s_sn = 0, s_una = k_rcv_nxt kcp, s_len = 0, s_resendts = 0, s_rto = 0,
      s_fastack = 0, s_xmit = 0, s_data = []\<rparr>"

text \<open>Acknowledgements; the result's first part is \<open>seg\<close> after the loop.\<close>

fun flush_acks :: "ikcpcb \<Rightarrow> (u32 \<times> u32) list \<Rightarrow> ikcpseg \<Rightarrow> outs \<Rightarrow> ikcpseg \<times> outs" where
  "flush_acks kcp [] seg out = (seg, out)"
| "flush_acks kcp ((sn, ts) # acks) seg out =
     (let seg' = seg\<lparr>s_sn := sn, s_ts := ts\<rparr>
      in flush_acks kcp acks seg' (put_header kcp seg' out))"

subsection \<open>Window probes\<close>

definition flush_probe_timer :: "ikcpcb \<Rightarrow> ikcpcb" where
  "flush_probe_timer kcp =
     (if k_rmt_wnd kcp = 0 then
        (if k_probe_wait kcp = 0
         then kcp\<lparr>k_probe_wait := IKCP_PROBE_INIT, k_ts_probe := k_current kcp + IKCP_PROBE_INIT\<rparr>
         else if itimediff (k_current kcp) (k_ts_probe kcp) \<ge> 0
         then
           (let w0 = (if k_probe_wait kcp < IKCP_PROBE_INIT then IKCP_PROBE_INIT
                      else k_probe_wait kcp);
                w1 = w0 + w0 div 2;
                w2 = (if w1 > IKCP_PROBE_LIMIT then IKCP_PROBE_LIMIT else w1)
            in kcp\<lparr>k_probe_wait := w2, k_ts_probe := k_current kcp + w2,
                   k_probe := k_probe kcp OR IKCP_ASK_SEND\<rparr>)
         else kcp)
      else kcp\<lparr>k_ts_probe := 0, k_probe_wait := 0\<rparr>)"

definition flush_probes :: "ikcpcb \<Rightarrow> ikcpseg \<Rightarrow> outs \<Rightarrow> outs" where
  "flush_probes kcp seg out =
     (let out1 = (if k_probe kcp AND IKCP_ASK_SEND \<noteq> 0
                  then put_header kcp (seg\<lparr>s_cmd := IKCP_CMD_WASK\<rparr>) out else out)
      in if k_probe kcp AND IKCP_ASK_TELL \<noteq> 0
         then put_header kcp (seg\<lparr>s_cmd := IKCP_CMD_WINS\<rparr>) out1 else out1)"

subsection \<open>From the queue to the send buffer\<close>

definition flush_cwnd :: "ikcpcb \<Rightarrow> u32" where
  "flush_cwnd kcp =
     (let cwnd = imin (k_snd_wnd kcp) (k_rmt_wnd kcp)
      in if k_nocwnd kcp = 0 then imin (k_cwnd kcp) cwnd else cwnd)"

text \<open>The first argument is \<open>snd_queue\<close>.\<close>

fun flush_move :: "ikcpseg list \<Rightarrow> u32 \<Rightarrow> u32 \<Rightarrow> ikcpcb \<Rightarrow> ikcpcb" where
  "flush_move [] cwnd wnd kcp = kcp"
| "flush_move (newseg # queue) cwnd wnd kcp =
     (if itimediff (k_snd_nxt kcp) (k_snd_una kcp + cwnd) < 0
      then flush_move queue cwnd wnd
             (kcp\<lparr>k_snd_queue := queue, k_nsnd_que := k_nsnd_que kcp - 1,
                  k_snd_buf := k_snd_buf kcp @
                    [newseg\<lparr>s_conv := k_conv kcp, s_cmd := IKCP_CMD_PUSH, s_wnd := wnd,
                            s_ts := k_current kcp, s_sn := k_snd_nxt kcp,
                            s_una := k_rcv_nxt kcp, s_resendts := k_current kcp,
                            s_rto := k_rx_rto kcp, s_fastack := 0, s_xmit := 0\<rparr>],
                  k_nsnd_buf := k_nsnd_buf kcp + 1, k_snd_nxt := k_snd_nxt kcp + 1\<rparr>)
      else kcp)"

subsection \<open>Data segments\<close>

text \<open>
  What the retransmission logic decides for one segment of \<open>snd_buf\<close>: the segment with its timers
  updated, and why it is sent.
\<close>

datatype resend = Hold | First | Timeout | Fast

definition flush_decide :: "ikcpcb \<Rightarrow> u32 \<Rightarrow> u32 \<Rightarrow> ikcpseg \<Rightarrow> ikcpseg \<times> resend" where
  "flush_decide kcp resent rtomin segment =
     (let current = k_current kcp in
      if s_xmit segment = 0 then
        (segment\<lparr>s_xmit := s_xmit segment + 1, s_rto := k_rx_rto kcp,
                 s_resendts := current + k_rx_rto kcp + rtomin\<rparr>, First)
      else if itimediff current (s_resendts segment) \<ge> 0 then
        (let rto =
           (if k_nodelay kcp = 0 then s_rto segment + imax (s_rto segment) (k_rx_rto kcp)
            else s_rto segment +
                 word_of_int (sint (if k_nodelay kcp < 2 then s_rto segment else k_rx_rto kcp)
                                sdiv 2))
         in (segment\<lparr>s_xmit := s_xmit segment + 1, s_rto := rto,
                     s_resendts := current + rto\<rparr>, Timeout))
      else if s_fastack segment \<ge> resent \<and>
              (sint (s_xmit segment) \<le> k_fastlimit kcp \<or> k_fastlimit kcp \<le> 0) then
        (segment\<lparr>s_xmit := s_xmit segment + 1, s_fastack := 0,
                 s_resendts := current + s_rto segment\<rparr>, Fast)
      else (segment, Hold))"

text \<open>
  The loop over \<open>snd_buf\<close>: \<open>wnd\<close> is \<open>seg.wnd\<close>. The result is the rewritten buffer, the output,
  the number of fast retransmissions (\<open>change\<close>), of timeouts (each counts in \<open>xmit\<close> and sets
  \<open>lost\<close>) and whether a segment reached \<open>dead_link\<close>.
\<close>

definition stamp :: "ikcpcb \<Rightarrow> u32 \<Rightarrow> ikcpseg \<Rightarrow> ikcpseg" where
  "stamp kcp wnd segment =
     segment\<lparr>s_ts := k_current kcp, s_wnd := wnd, s_una := k_rcv_nxt kcp\<rparr>"

fun flush_segs :: "ikcpcb \<Rightarrow> u32 \<Rightarrow> u32 \<Rightarrow> u32 \<Rightarrow> ikcpseg list \<Rightarrow> outs \<Rightarrow>
    ikcpseg list \<times> outs \<times> nat \<times> nat \<times> bool" where
  "flush_segs kcp resent rtomin wnd [] out = ([], out, 0, 0, False)"
| "flush_segs kcp resent rtomin wnd (segment # rest) out =
     (case flush_decide kcp resent rtomin segment of
        (segment1, Hold) \<Rightarrow>
          (let (r, out', c, l, d) = flush_segs kcp resent rtomin wnd rest out
           in (segment1 # r, out', c, l, d))
      | (segment1, why) \<Rightarrow>
          (let segment2 = stamp kcp wnd segment1;
               need = sint (IKCP_OVERHEAD + s_len segment2);
               out1 = put_bytes (ikcp_encode_seg segment2 @
                                 take (unat (s_len segment2)) (s_data segment2))
                        (make_room kcp need out);
               (r, out', c, l, d) = flush_segs kcp resent rtomin wnd rest out1
           in (segment2 # r, out', (if why = Fast then c + 1 else c),
               (if why = Timeout then l + 1 else l), s_xmit segment2 \<ge> k_dead_link kcp \<or> d)))"

subsection \<open>ikcp_flush\<close>

text \<open>The congestion update at the end; \<open>cwnd\<close> is the window computed above.\<close>

definition flush_congestion :: "bool \<Rightarrow> bool \<Rightarrow> u32 \<Rightarrow> u32 \<Rightarrow> ikcpcb \<Rightarrow> ikcpcb" where
  "flush_congestion change lost resent cwnd kcp0 =
     (let kcp1 =
        (if change
         then
           (let half = (k_snd_nxt kcp0 - k_snd_una kcp0) div 2;
                ssthresh = (if half < IKCP_THRESH_MIN then IKCP_THRESH_MIN else half)
            in kcp0\<lparr>k_ssthresh := ssthresh, k_cwnd := ssthresh + resent,
                    k_incr := (ssthresh + resent) * k_mss kcp0\<rparr>)
         else kcp0);
          kcp2 =
        (if lost
         then kcp1\<lparr>k_ssthresh := (if cwnd div 2 < IKCP_THRESH_MIN then IKCP_THRESH_MIN
                                  else cwnd div 2),
                   k_cwnd := 1, k_incr := k_mss kcp1\<rparr>
         else kcp1)
      in if k_cwnd kcp2 < 1 then kcp2\<lparr>k_cwnd := 1, k_incr := k_mss kcp2\<rparr> else kcp2)"

definition flush_resent :: "ikcpcb \<Rightarrow> u32" where
  "flush_resent kcp =
     (if k_fastresend kcp > 0 then word_of_int (k_fastresend kcp) else 0xffffffff)"

definition flush_rtomin :: "ikcpcb \<Rightarrow> u32" where
  "flush_rtomin kcp =
     (if k_nodelay kcp = 0 then word_of_int (drop_bit 3 (sint (k_rx_rto kcp))) else 0)"

definition ikcp_flush :: "ikcpcb \<Rightarrow> ikcpcb \<times> bytes list" where
  "ikcp_flush kcp =
     (if k_updated kcp = 0 then (kcp, [])
      else
        (let seg0 = ctl_seg kcp;
             acks = take (nat (sint (k_ackcount kcp))) (k_acklist kcp);
             (seg, out1) = flush_acks kcp acks seg0 ([], []);
             kcp1 = flush_probe_timer (kcp\<lparr>k_ackcount := 0\<rparr>);
             out2 = flush_probes kcp1 seg out1;
             kcp2 = kcp1\<lparr>k_probe := 0\<rparr>;
             cwnd = flush_cwnd kcp2;
             kcp3 = flush_move (k_snd_queue kcp2) cwnd (s_wnd seg) kcp2;
             resent = flush_resent kcp3;
             rtomin = flush_rtomin kcp3;
             (buf, (buffer, pkts), change, lost, dead) =
               flush_segs kcp3 resent rtomin (s_wnd seg) (k_snd_buf kcp3) out2;
             kcp4 = kcp3\<lparr>k_snd_buf := buf, k_xmit := k_xmit kcp3 + of_nat lost,
                         k_state := (if dead then - 1 else k_state kcp3)\<rparr>
         in (flush_congestion (change \<noteq> 0) (lost \<noteq> 0) resent cwnd kcp4,
             ikcp_output pkts buffer)))"

subsection \<open>ikcp_update and ikcp_check\<close>

definition ikcp_update :: "ikcpcb \<Rightarrow> u32 \<Rightarrow> ikcpcb \<times> bytes list" where
  "ikcp_update kcp0 current =
     (let kcp1 = kcp0\<lparr>k_current := current\<rparr>;
          kcp2 = (if k_updated kcp1 = 0 then kcp1\<lparr>k_updated := 1, k_ts_flush := current\<rparr>
                  else kcp1);
          slap0 = itimediff current (k_ts_flush kcp2);
          far = (slap0 \<ge> 10000 \<or> slap0 < -10000);
          kcp3 = (if far then kcp2\<lparr>k_ts_flush := current\<rparr> else kcp2);
          slap = (if far then 0 else slap0)
      in if slap \<ge> 0
         then
           (let next_flush = k_ts_flush kcp3 + k_interval kcp3;
                kcp4 = kcp3\<lparr>k_ts_flush := (if itimediff current next_flush \<ge> 0
                                           then current + k_interval kcp3 else next_flush)\<rparr>
            in ikcp_flush kcp4)
         else (kcp3, []))"

text \<open>The scan of \<open>snd_buf\<close>: \<open>None\<close> when a segment is due, else the least distance found.\<close>

fun check_packets :: "u32 \<Rightarrow> ikcpseg list \<Rightarrow> int \<Rightarrow> int option" where
  "check_packets current [] tm_packet = Some tm_packet"
| "check_packets current (seg # segs) tm_packet =
     (let diff = itimediff (s_resendts seg) current in
      if diff \<le> 0 then None
      else check_packets current segs (if diff < tm_packet then diff else tm_packet))"

definition ikcp_check :: "ikcpcb \<Rightarrow> u32 \<Rightarrow> u32" where
  "ikcp_check kcp current =
     (if k_updated kcp = 0 then current
      else
        (let d = itimediff current (k_ts_flush kcp);
             ts_flush = (if d \<ge> 10000 \<or> d < -10000 then current else k_ts_flush kcp)
         in if itimediff current ts_flush \<ge> 0 then current
            else
              (let tm_flush = itimediff ts_flush current in
               case check_packets current (k_snd_buf kcp) 0x7fffffff of
                 None \<Rightarrow> current
               | Some tm_packet \<Rightarrow>
                   (let minimal = word_of_int (if tm_packet < tm_flush then tm_packet
                                               else tm_flush)
                    in current + (if minimal \<ge> k_interval kcp then k_interval kcp
                                  else minimal)))))"

end
