(* ===== verification/Ikcp_Inv.thy ===== *)
theory Ikcp_Inv
  imports Ikcp_Flush
begin

text \<open>
  The invariant of one KCP control block, and that every operation keeps it, whatever packets
  arrive: the counters count the queues, the segments in flight and the segments received out of
  order stand in serial order inside their windows, every stored segment knows its length.
\<close>

subsection \<open>The invariant\<close>

text \<open>The parameters as \<open>kcp_new\<close> leaves them.\<close>

definition params_ok :: "ikcpcb \<Rightarrow> bool" where
  "params_ok k \<longleftrightarrow> 50 \<le> unat (k_mtu k) \<and> unat (k_mtu k) < 2 ^ 16 \<and>
     k_mss k = k_mtu k - IKCP_OVERHEAD \<and> unat (k_snd_wnd k) < 2 ^ 31 \<and>
     0 < unat (k_rcv_wnd k) \<and> unat (k_rcv_wnd k) < 2 ^ 31 \<and> k_stream k \<noteq> 0 \<and>
     k_rx_minrto k \<le> IKCP_RTO_MAX"

text \<open>
  The segments in flight: in serial order, at most a send window of them, and \<open>snd_una\<close> is the
  first of them.
\<close>

definition snd_first :: "ikcpseg list \<Rightarrow> u32 \<Rightarrow> u32" where
  "snd_first buf nxt = (case buf of [] \<Rightarrow> nxt | seg # _ \<Rightarrow> s_sn seg)"

definition snd_window :: "ikcpcb \<Rightarrow> bool" where
  "snd_window k \<longleftrightarrow>
     serial (k_snd_una k) (offs (k_snd_una k) (k_snd_nxt k)) (map s_sn (k_snd_buf k)) \<and>
     offs (k_snd_una k) (k_snd_nxt k) \<le> unat (k_snd_wnd k) \<and>
     k_snd_una k = snd_first (k_snd_buf k) (k_snd_nxt k)"

text \<open>The segments received: those out of order in serial order inside the receive window.\<close>

definition rcv_window :: "ikcpcb \<Rightarrow> bool" where
  "rcv_window k \<longleftrightarrow>
     serial (k_rcv_nxt k) (unat (k_rcv_wnd k)) (map s_sn (k_rcv_buf k)) \<and>
     length (k_rcv_queue k) \<le> unat (k_rcv_wnd k)"

definition seg_counted :: "ikcpseg \<Rightarrow> bool" where
  "seg_counted s \<longleftrightarrow> length (s_data s) < 2 ^ 31 \<and> s_len s = of_nat (length (s_data s))"

definition segs_ok :: "ikcpcb \<Rightarrow> bool" where
  "segs_ok k \<longleftrightarrow> list_all (seg_wf (k_mss k)) (k_snd_queue k) \<and>
     list_all (seg_wf (k_mss k)) (k_snd_buf k) \<and>
     list_all seg_counted (k_rcv_queue k) \<and> list_all seg_counted (k_rcv_buf k)"

definition kcp_inv :: "ikcpcb \<Rightarrow> bool" where
  "kcp_inv k \<longleftrightarrow> params_ok k \<and> kcp_counts k \<and> snd_window k \<and> rcv_window k \<and> segs_ok k \<and>
     unat (k_ackcount k) \<le> length (k_acklist k)"

lemmas kcp_inv_defs = kcp_inv_def params_ok_def kcp_counts_def snd_window_def rcv_window_def
  segs_ok_def

text \<open>Fields the invariant does not speak of.\<close>

lemma kcp_inv_other [simp]:
  "kcp_inv (k\<lparr>k_probe := p\<rparr>) = kcp_inv k" "kcp_inv (k\<lparr>k_rmt_wnd := p\<rparr>) = kcp_inv k"
  "kcp_inv (k\<lparr>k_cwnd := p\<rparr>) = kcp_inv k" "kcp_inv (k\<lparr>k_incr := p\<rparr>) = kcp_inv k"
  "kcp_inv (k\<lparr>k_ssthresh := p\<rparr>) = kcp_inv k" "kcp_inv (k\<lparr>k_xmit := p\<rparr>) = kcp_inv k"
  "kcp_inv (k\<lparr>k_state := p\<rparr>) = kcp_inv k" "kcp_inv (k\<lparr>k_probe_wait := p\<rparr>) = kcp_inv k"
  "kcp_inv (k\<lparr>k_ts_probe := p\<rparr>) = kcp_inv k" "kcp_inv (k\<lparr>k_current := p\<rparr>) = kcp_inv k"
  "kcp_inv (k\<lparr>k_ts_flush := p\<rparr>) = kcp_inv k" "kcp_inv (k\<lparr>k_updated := p\<rparr>) = kcp_inv k"
  "kcp_inv (k\<lparr>k_ackblock := p\<rparr>) = kcp_inv k"
  by (simp_all add: kcp_inv_defs)

lemma kcp_invD:
  assumes "kcp_inv k"
  shows "params_ok k" "k_snd_una k = snd_first (k_snd_buf k) (k_snd_nxt k)"
    "serial (k_snd_una k) (offs (k_snd_una k) (k_snd_nxt k)) (map s_sn (k_snd_buf k))"
    "offs (k_snd_una k) (k_snd_nxt k) \<le> unat (k_snd_wnd k)"
    "unat (k_snd_wnd k) < 2 ^ 31" "unat (k_rcv_wnd k) < 2 ^ 31"
    "serial (k_rcv_nxt k) (unat (k_rcv_wnd k)) (map s_sn (k_rcv_buf k))"
    "list_all (seg_wf (k_mss k)) (k_snd_queue k)" "list_all (seg_wf (k_mss k)) (k_snd_buf k)"
    "list_all seg_counted (k_rcv_queue k)" "list_all seg_counted (k_rcv_buf k)"
    "k_nsnd_buf k = of_nat (length (k_snd_buf k))" "length (k_rcv_queue k) \<le> unat (k_rcv_wnd k)"
    "k_nrcv_que k = of_nat (length (k_rcv_queue k))" "unat (k_ackcount k) \<le> length (k_acklist k)"
    "k_stream k \<noteq> 0"
  using assms unfolding kcp_inv_defs by blast+

lemma params_ok_mss:
  assumes "params_ok k"
  shows "mss_ok k" "unat (k_mss k) = unat (k_mtu k) - 24"
proof -
  have "unat (k_mtu k - IKCP_OVERHEAD) = unat (k_mtu k) - 24"
    using assms by (simp add: params_ok_def IKCP_OVERHEAD_def unat_sub word_le_nat_alt)
  then show "unat (k_mss k) = unat (k_mtu k) - 24" "mss_ok k"
    using assms by (auto simp: params_ok_def mss_ok_def)
qed

subsection \<open>Sending and receiving\<close>

lemma kcp_inv_send:
  assumes "kcp_inv k" "int (length b) < 2 ^ 31"
  shows "kcp_inv (snd (ikcp_send alloc k b (int (length b))))"
proof -
  have "send_post k b (ikcp_send alloc k b (int (length b)))"
    using assms by (intro ikcp_send_stream params_ok_mss) (auto simp: kcp_inv_defs)
  then show ?thesis
    using assms(1) by (auto simp: send_post_def kcp_inv_defs algebra_simps)
qed

lemma serial_shift:
  assumes "serial base w (map s_sn buf)" "n \<le> length buf"
  shows "serial (base + of_nat n) (w - n) (map s_sn (drop n buf))"
proof (rule serial_rebase)
  show "serial base w (map s_sn (drop n buf))"
    using assms(1) by (rule serial_subseq) (auto intro: subseq_map simp: suffix_imp_subseq)
  fix sn assume "sn \<in> set (map s_sn (drop n buf))"
  then obtain j where j: "n \<le> j" "j < length buf" "sn = s_sn (buf ! j)"
    by (auto simp: in_set_conv_nth) (metis le_add1 less_diff_conv add.commute)
  have "j \<le> map (offs base) (map s_sn buf) ! j"
    using assms(1) j sorted_wrt_less_nth_ge [of "map (offs base) (map s_sn buf)" 0 j]
    by (auto simp: serial_def)
  with j show "n \<le> offs base sn" by simp
qed

lemma kcp_inv_shift:
  assumes "kcp_inv k" "n \<le> length (k_rcv_buf k)"
    and "n > 0 \<Longrightarrow> k_nrcv_que k + of_nat (n - 1) < k_rcv_wnd k"
  shows "kcp_inv (rcv_shift n k)"
proof -
  have len: "length (k_rcv_buf k) \<le> unat (k_rcv_wnd k)"
    using assms(1) serial_length by (fastforce simp: kcp_inv_defs)
  have "length (k_rcv_queue k) + n \<le> unat (k_rcv_wnd k)"
  proof (cases n)
    case (Suc m)
    have b: "length (k_rcv_queue k) + m < 2 ^ 32"
      using assms(1,2) len Suc by (auto simp: kcp_inv_defs)
    have "(of_nat (length (k_rcv_queue k) + m) :: u32) < k_rcv_wnd k"
      using assms Suc by (simp add: kcp_inv_defs)
    then show ?thesis
      using Suc unat_of_nat_u32 [OF b] by (simp add: word_less_nat_alt)
  qed (use assms in \<open>simp add: kcp_inv_defs\<close>)
  moreover have "serial (k_rcv_nxt k + of_nat n) (unat (k_rcv_wnd k)) (map s_sn (drop n (k_rcv_buf k)))"
    using assms by (intro serial_mono [OF serial_shift]) (auto simp: kcp_inv_defs)
  ultimately show ?thesis
    using assms(1,2) unfolding kcp_inv_defs rcv_shift_def
    by (auto simp: list_all_iff of_nat_diff dest: in_set_takeD in_set_dropD)
qed

lemma kcp_inv_move: "kcp_inv k \<Longrightarrow> kcp_inv (rcv_move (k_rcv_buf k) k)"
  using rcv_move_shift [of k] kcp_inv_shift [of k] by metis

lemma recv_merge_count: "recv_merge q = (d, l, m) \<Longrightarrow> m \<le> length q"
  by (induction q arbitrary: d l m) (auto simp: Let_def split: if_splits prod.splits)

lemma kcp_inv_recv:
  assumes "kcp_inv k"
  shows "kcp_inv (snd (snd (ikcp_recv k len)))"
proof -
  obtain d l m where dlm: "recv_merge (k_rcv_queue k) = (d, l, m)"
    by (metis prod_cases3)
  note m = recv_merge_count [OF dlm]
  define k1 where "k1 = (if len < 0 then k else k\<lparr>k_rcv_queue := drop m (k_rcv_queue k),
          k_nrcv_que := k_nrcv_que k - of_nat m\<rparr>)"
  have "kcp_inv k1"
    using assms m by (auto simp: k1_def kcp_inv_defs list_all_iff of_nat_diff dest: in_set_dropD)
  then have "kcp_inv (rcv_move (k_rcv_buf k1) k1)" by (rule kcp_inv_move)
  then show ?thesis
    using assms unfolding ikcp_recv_def dlm Let_def split k1_def [symmetric] by auto
qed

subsection \<open>Incoming packets\<close>

lemma serial_snoc_iff:
  "serial base w (xs @ [a]) \<longleftrightarrow>
   serial base w xs \<and> offs base a < w \<and> (\<forall>x \<in> set xs. offs base x < offs base a)"
  by (auto simp: serial_def sorted_wrt_append)

lemma insert_tail_None: "insert_tail s xs = None \<Longrightarrow> s_sn s \<in> s_sn ` set xs"
  by (induction xs) (auto split: if_splits)

lemma insert_tail_set: "insert_tail s xs = Some r \<Longrightarrow> set r = insert s (set xs) \<and> length r = Suc (length xs)"
  by (induction xs arbitrary: r) (auto split: if_splits)

lemma insert_tail_serial:
  assumes "insert_tail s xs = Some r" "serial base w (map s_sn (rev xs))"
    and "offs base (s_sn s) < w" "w \<le> 2 ^ 31"
  shows "serial base w (map s_sn (rev r))"
  using assms
proof (induction xs arbitrary: r)
  case Nil
  then show ?case by (auto simp: serial_def)
next
  case (Cons a xs)
  have a: "serial base w (map s_sn (rev xs))" "offs base (s_sn a) < w"
    "\<And>x. x \<in> set xs \<Longrightarrow> offs base (s_sn x) < offs base (s_sn a)"
    using Cons.prems(2) by (auto simp: serial_snoc_iff)
  have diff: "itimediff (s_sn s) (s_sn a) = int (offs base (s_sn s)) - int (offs base (s_sn a))"
    using Cons.prems a by (intro itimediff_offs) auto
  show ?case
  proof (cases "itimediff (s_sn s) (s_sn a) > 0")
    case True
    then have "r = s # a # xs" using Cons.prems(1) by (auto split: if_splits)
    then show ?thesis
      using a Cons.prems(3) True diff serial_snoc_iff [of base w "map s_sn (rev xs) @ [s_sn a]"]
      by (auto simp: serial_snoc_iff dest: less_trans)
  next
    case False
    with Cons.prems(1) obtain r' where r: "r = a # r'" "insert_tail s xs = Some r'"
      "s_sn a \<noteq> s_sn s"
      by (auto split: if_splits)
    have "offs base (s_sn s) < offs base (s_sn a)"
      using False diff itimediff_0_iff [of "s_sn s" "s_sn a"] r(3) by auto
    then show ?thesis
      using Cons.IH [OF r(2) a(1) Cons.prems(3,4)] a r insert_tail_set [OF r(2)]
      by (auto simp: serial_snoc_iff)
  qed
qed

lemma kcp_inv_parse_data:
  assumes "kcp_inv k" "seg_counted s"
  shows "kcp_inv (ikcp_parse_data k s)"
proof (cases "itimediff (s_sn s) (k_rcv_nxt k + k_rcv_wnd k) \<ge> 0 \<or> itimediff (s_sn s) (k_rcv_nxt k) < 0")
  case True
  then show ?thesis using assms by (simp add: ikcp_parse_data_def)
next
  case False
  then have o: "offs (k_rcv_nxt k) (s_sn s) < unat (k_rcv_wnd k)"
    using assms by (subst window_test [symmetric]) (auto simp: kcp_inv_defs)
  define k1 where "k1 = (case insert_tail s (rev (k_rcv_buf k)) of None \<Rightarrow> k
      | Some r \<Rightarrow> k\<lparr>k_rcv_buf := rev r, k_nrcv_buf := k_nrcv_buf k + 1\<rparr>)"
  have "kcp_inv k1"
  proof (cases "insert_tail s (rev (k_rcv_buf k))")
    case (Some r)
    have "serial (k_rcv_nxt k) (unat (k_rcv_wnd k)) (map s_sn (rev r))"
      using assms(1) o by (intro insert_tail_serial [OF Some]) (auto simp: kcp_inv_defs)
    then show ?thesis
      using assms Some insert_tail_set [OF Some]
      by (auto simp: k1_def kcp_inv_defs list_all_iff)
  qed (use assms in \<open>simp add: k1_def\<close>)
  then show ?thesis
    using False kcp_inv_move by (simp add: ikcp_parse_data_def Let_def flip: k1_def)
qed


text \<open>Removing acknowledged segments, then \<open>ikcp_shrink_buf\<close>.\<close>

lemma kcp_inv_sndI:
  assumes "kcp_inv k" "serial una (offs una (k_snd_nxt k)) (map s_sn buf)"
    and "offs una (k_snd_nxt k) \<le> offs (k_snd_una k) (k_snd_nxt k)"
    and "una = snd_first buf (k_snd_nxt k)" "list_all (seg_wf (k_mss k)) buf"
  shows "kcp_inv (k\<lparr>k_snd_buf := buf, k_nsnd_buf := of_nat (length buf), k_snd_una := una\<rparr>)"
proof -
  have "offs una (k_snd_nxt k) \<le> unat (k_snd_wnd k)"
    using assms(3) kcp_invD(4) [OF assms(1)] by (rule le_trans)
  then show ?thesis
    using assms(1,2,5) assms(4) [symmetric] unfolding kcp_inv_defs
    by (elim conjE, intro conjI) simp_all
qed

lemma serial_first:
  assumes "serial base (offs base nxt) (map s_sn buf)"
  defines "una \<equiv> snd_first buf nxt"
  shows "serial una (offs una nxt) (map s_sn buf) \<and> offs una nxt \<le> offs base nxt"
proof (cases buf)
  case (Cons s r)
  have hd: "serial (s_sn s) (offs base nxt - offs base (s_sn s)) (map s_sn buf)"
    "offs base (s_sn s) < offs base nxt"
    using serial_hd [of base "offs base nxt" "s_sn s" "map s_sn r"] assms(1) Cons by simp_all
  have "offs (base + of_nat (offs base (s_sn s))) nxt = offs base nxt - offs base (s_sn s)"
    using hd(2) by (intro offs_rebase) simp
  then have "offs (s_sn s) nxt = offs base nxt - offs base (s_sn s)"
    by (simp add: offs_def)
  then show ?thesis
    using hd(1) Cons by (simp add: una_def snd_first_def)
qed (simp add: una_def snd_first_def offs_def)

lemma ikcp_shrink_buf_first:
  "ikcp_shrink_buf k = k\<lparr>k_snd_una := snd_first (k_snd_buf k) (k_snd_nxt k)\<rparr>"
  by (simp add: ikcp_shrink_buf_def snd_first_def)

lemma kcp_inv_shrink:
  assumes "kcp_inv k" "subseq buf (k_snd_buf k)"
  shows "kcp_inv (ikcp_shrink_buf (k\<lparr>k_snd_buf := buf, k_nsnd_buf := of_nat (length buf)\<rparr>))"
proof -
  have "serial (k_snd_una k) (offs (k_snd_una k) (k_snd_nxt k)) (map s_sn buf)"
    using kcp_invD(3) [OF assms(1)] subseq_map [OF assms(2)] by (rule serial_subseq)
  note una = serial_first [OF this]
  have "list_all (seg_wf (k_mss k)) buf"
    using assms(2) kcp_invD(9) [OF assms(1)] by (auto simp: list_all_iff dest: set_sublist)
  with una have "kcp_inv (k\<lparr>k_snd_buf := buf, k_nsnd_buf := of_nat (length buf),
      k_snd_una := snd_first buf (k_snd_nxt k)\<rparr>)"
    by (intro kcp_inv_sndI [OF assms(1)]) auto
  then show ?thesis unfolding ikcp_shrink_buf_first by simp
qed

lemma kcp_inv_parse_una:
  assumes "kcp_inv k"
  shows "kcp_inv (ikcp_shrink_buf (ikcp_parse_una k una))"
proof -
  let ?P = "\<lambda>s. itimediff una (s_sn s) > 0"
  have "length (k_snd_buf k) = length (takeWhile ?P (k_snd_buf k)) + length (dropWhile ?P (k_snd_buf k))"
    by (metis length_append takeWhile_dropWhile_id)
  then have "ikcp_parse_una k una = k\<lparr>k_snd_buf := dropWhile ?P (k_snd_buf k),
      k_nsnd_buf := of_nat (length (dropWhile ?P (k_snd_buf k)))\<rparr>"
    using assms by (simp add: ikcp_parse_una_eq kcp_inv_defs)
  then show ?thesis
    using kcp_inv_shrink [OF assms suffix_imp_subseq [OF suffix_dropWhile]] by simp
qed

lemma kcp_inv_parse_ack:
  assumes "kcp_inv k"
  shows "kcp_inv (ikcp_shrink_buf (ikcp_parse_ack k sn))"
proof -
  obtain r n where rn: "parse_ack_loop sn (k_snd_buf k) = (r, n)" by fastforce
  have same: "k\<lparr>k_snd_buf := k_snd_buf k, k_nsnd_buf := of_nat (length (k_snd_buf k))\<rparr> = k"
    using assms by (simp add: kcp_inv_defs)
  have "subseq r (k_snd_buf k)" "length (k_snd_buf k) = length r + n"
    using parse_ack_loop_char [OF rn] by (auto intro!: list_emb_append_mono)
  then show ?thesis
    using kcp_inv_shrink [OF assms] kcp_inv_shrink [OF assms, of "k_snd_buf k"] same assms
    by (simp add: ikcp_parse_ack_def rn kcp_counts_def kcp_inv_def)
qed

lemma ikcp_update_ack_snd_wnd [simp]: "k_snd_wnd (ikcp_update_ack kcp rtt) = k_snd_wnd kcp"
  by (simp add: ikcp_update_ack_def Let_def)

lemma kcp_inv_update_ack [simp]: "kcp_inv (ikcp_update_ack k rtt) = kcp_inv k"
  by (simp add: kcp_inv_defs)

lemma unat_Suc_le: "unat (w + 1 :: u32) \<le> Suc (unat w)"
  by (auto simp: unat_plus_if')

lemma kcp_inv_ack_push:
  assumes "kcp_inv k" "ikcp_ack_push mem k sn ts = Some k'"
  shows "kcp_inv k'"
proof -
  obtain b where k': "k' = k\<lparr>k_ackblock := b,
      k_acklist := take (unat (k_ackcount k)) (k_acklist k) @ [(sn, ts)],
      k_ackcount := k_ackcount k + 1\<rparr>"
    using assms(2) by (rule ikcp_ack_push_Some)
  show ?thesis
    using assms(1) unat_Suc_le [of "k_ackcount k"] unfolding k' kcp_inv_defs
    by (elim conjE, intro conjI) simp_all
qed

lemma input_segment_inv:
  assumes "kcp_inv k" "seg_counted s" "input_segment mem s k seen = Some (k', seen')"
  shows "kcp_inv k'"
proof -
  define k1 where "k1 = ikcp_shrink_buf (ikcp_parse_una (k\<lparr>k_rmt_wnd := s_wnd s\<rparr>) (s_una s))"
  have "kcp_inv k1"
    unfolding k1_def using assms(1) by (intro kcp_inv_parse_una) simp
  then show ?thesis
    using assms(2,3) unfolding input_segment_def Let_def k1_def [symmetric]
    by (auto simp: kcp_inv_parse_ack kcp_inv_parse_data bind_eq_Some_conv
        split: if_splits dest: kcp_inv_ack_push)
qed

lemma seg_counted_input:
  assumes "\<not> (int (length rest) < uint l \<or> sint (l :: u32) < 0)" "s_len s = l"
  shows "seg_counted (s\<lparr>s_data := take (unat l) rest\<rparr>)"
proof -
  have "unat l < 2 ^ 31"
    using assms offs_nonneg [of l 0] by (simp add: offs_def itimediff_def)
  moreover have "unat l \<le> length rest"
    using assms by (metis linorder_not_less nat_less_iff of_nat_0_le_iff nat_uint_eq uint_nat of_nat_less_iff)
  ultimately show ?thesis using assms(2) by (simp add: seg_counted_def)
qed

text \<open>
  What holds of the packet and the control block before the loop, and is kept by the processing of
  one segment, holds at the end.
\<close>

lemma ikcp_input_loop_invariant:
  assumes "ikcp_input_loop mem data k seen = Some (r, k', seen')" "P data k"
    and "\<And>data k seen seg rest k1 seen1. P data k \<Longrightarrow>
      ikcp_decode_seg data = Some (seg, rest) \<Longrightarrow> s_conv seg = k_conv k \<Longrightarrow>
      \<not> (int (length rest) < uint (s_len seg) \<or> sint (s_len seg) < 0) \<Longrightarrow>
      input_segment mem (seg\<lparr>s_data := take (unat (s_len seg)) rest\<rparr>) k seen = Some (k1, seen1) \<Longrightarrow>
      P (drop (unat (s_len seg)) rest) k1"
  shows "\<exists>data'. P data' k'"
  using assms
proof (induction mem data k seen rule: ikcp_input_loop.induct)
  case (1 mem data k seen)
  show ?case
  proof (cases "length data < unat IKCP_OVERHEAD")
    case False
    then obtain seg rest where dec: "ikcp_decode_seg data = Some (seg, rest)"
      using ikcp_decode_seg_enough [of data] by (auto simp: IKCP_OVERHEAD_def)
    let ?go = "s_conv seg = k_conv k \<and>
      \<not> (int (length rest) < uint (s_len seg) \<or> sint (s_len seg) < 0) \<and> known_cmd (s_cmd seg)"
    show ?thesis
    proof (cases ?go)
      case True
      with False dec 1(2) obtain k1 seen1 where step:
        "input_segment mem (seg\<lparr>s_data := take (unat (s_len seg)) rest\<rparr>) k seen = Some (k1, seen1)"
        "ikcp_input_loop mem (drop (unat (s_len seg)) rest) k1 seen1 = Some (r, k', seen')"
        by (subst (asm) ikcp_input_loop.simps) (auto split: option.splits)
      from 1(3) dec True step(1) have "P (drop (unat (s_len seg)) rest) k1"
        by (intro 1(4) [OF 1(3) dec _ _ step(1)]) auto
      with True show ?thesis
        by (intro 1(1) [OF False dec refl _ _ _ step(1) refl step(2) _ 1(4)]) auto
    next
      case False
      with \<open>\<not> length data < _\<close> dec 1(2,3) show ?thesis
        by (subst (asm) ikcp_input_loop.simps) (auto split: if_splits)
    qed
  qed (use 1(2,3) in \<open>subst (asm) ikcp_input_loop.simps, auto\<close>)
qed

lemma ikcp_input_loop_inv:
  assumes "ikcp_input_loop mem data k seen = Some (r, k', seen')" "kcp_inv k"
  shows "kcp_inv k'"
proof -
  have "\<exists>data' :: bytes. kcp_inv k'"
    by (rule ikcp_input_loop_invariant [OF assms(1), of "\<lambda>_. kcp_inv", OF assms(2)])
      (rule input_segment_inv [OF _ seg_counted_input], auto)
  then show ?thesis by simp
qed

lemma kcp_inv_sim:
  assumes "kcp_inv k" "list_all2 seg_sim (k_snd_buf k) buf"
  shows "kcp_inv (k\<lparr>k_snd_buf := buf\<rparr>)"
proof -
  have "map s_sn buf = map s_sn (k_snd_buf k)" "length buf = length (k_snd_buf k)"
    using assms(2) by (induction rule: list_all2_induct) (auto simp: seg_sim_def)
  moreover have "list_all (seg_wf (k_mss k)) buf"
    using assms(2) kcp_invD(9) [OF assms(1)]
    by (auto simp: kcp_inv_def segs_ok_def list_all_length list_all2_conv_all_nth seg_sim_def seg_wf_def)
  moreover have "snd_first buf nxt = snd_first (k_snd_buf k) nxt" for nxt
    using assms(2) by (cases buf; cases "k_snd_buf k") (auto simp: snd_first_def seg_sim_def)
  ultimately have "kcp_inv (k\<lparr>k_snd_buf := buf, k_nsnd_buf := of_nat (length buf),
      k_snd_una := k_snd_una k\<rparr>)"
    using kcp_invD(2,3) [OF assms(1)] by (intro kcp_inv_sndI [OF assms(1)]) auto
  moreover have "of_nat (length buf) = k_nsnd_buf k"
    using \<open>length buf = _\<close> kcp_invD(12) [OF assms(1)] by simp
  ultimately show ?thesis by simp
qed

lemma kcp_inv_cwnd: "kcp_inv k \<Longrightarrow> kcp_inv (input_cwnd k)"
  by (simp add: input_cwnd_def Let_def)

lemma ikcp_input_cases:
  assumes "ikcp_input mem k data = Some (r, k')"
  obtains "k' = k" "r = -1"
  | k1 seen where "ikcp_input_loop mem data k None = Some (r, k1, seen)" "r < 0" "k' = k1"
  | k1 seen r1 k2 where "ikcp_input_loop mem data k None = Some (r1, k1, seen)" "r = 0" "r1 \<ge> 0"
      "k2 = k1 \<or> (\<exists>sn ts. k2 = ikcp_parse_fastack k1 sn ts)" "k' = k2 \<or> k' = input_cwnd k2"
proof (cases "sint (of_nat (length data) :: u32) < sint IKCP_OVERHEAD")
  case True
  with assms that(1) show ?thesis by (simp add: ikcp_input_def)
next
  case False
  with assms obtain r1 k1 seen where loop: "ikcp_input_loop mem data k None = Some (r1, k1, seen)"
    by (auto simp: ikcp_input_def bind_eq_Some_conv)
  define k2 where "k2 = (case seen of None \<Rightarrow> k1
      | Some (maxack, latest_ts) \<Rightarrow> ikcp_parse_fastack k1 maxack latest_ts)"
  have k2: "k2 = k1 \<or> (\<exists>sn ts. k2 = ikcp_parse_fastack k1 sn ts)"
    by (auto simp: k2_def split: option.splits)
  show ?thesis
  proof (cases "r1 < 0")
    case True
    with assms False loop that(2) show ?thesis by (simp add: ikcp_input_def)
  next
    case r1: False
    with assms False loop have "r = 0" "k' = k2 \<or> k' = input_cwnd k2"
      by (auto simp: ikcp_input_def Let_def simp flip: k2_def split: if_splits)
    with that(3) [OF loop _ _ k2] r1 show ?thesis by simp
  qed
qed

lemma kcp_inv_input:
  assumes "kcp_inv k" "ikcp_input mem k data = Some (r, k')"
  shows "kcp_inv k'"
proof -
  have fa: "kcp_inv (ikcp_parse_fastack k sn ts)" if "kcp_inv k" for k sn ts
    using that kcp_inv_sim [OF _ parse_fastack_loop_sim] by (simp add: ikcp_parse_fastack_def)
  from assms(2) show ?thesis
  proof (cases rule: ikcp_input_cases)
    case (2 k1 seen)
    then show ?thesis using ikcp_input_loop_inv assms(1) by blast
  next
    case (3 k1 seen r1 k2)
    then show ?thesis using ikcp_input_loop_inv [OF 3(1) assms(1)] fa kcp_inv_cwnd by metis
  qed (use assms in simp)
qed


subsection \<open>Flushing\<close>

lemma kcp_inv_probe_timer: "kcp_inv k \<Longrightarrow> kcp_inv (flush_probe_timer k)"
  by (simp add: flush_probe_timer_def Let_def)

lemma kcp_inv_congestion: "kcp_inv k \<Longrightarrow> kcp_inv (flush_congestion c l r w k)"
  by (simp add: flush_congestion_def Let_def)

lemma flush_cwnd_le: "unat (flush_cwnd k) \<le> unat (k_snd_wnd k)"
  by (auto simp: flush_cwnd_def imin_def Let_def word_le_nat_alt)

text \<open>One step of the loop that moves segments into flight.\<close>

lemma kcp_inv_enqueue:
  assumes "kcp_inv k" "k_snd_queue k = s # q"
    and "itimediff (k_snd_nxt k) (k_snd_una k + cwnd) < 0" "unat cwnd \<le> unat (k_snd_wnd k)"
    and "s_sn s' = k_snd_nxt k" "seg_wf (k_mss k) s'"
  shows "kcp_inv (k\<lparr>k_snd_queue := q, k_nsnd_que := k_nsnd_que k - 1,
     k_snd_buf := k_snd_buf k @ [s'], k_nsnd_buf := k_nsnd_buf k + 1, k_snd_nxt := k_snd_nxt k + 1\<rparr>)"
    (is "kcp_inv ?k")
proof -
  let ?una = "k_snd_una k" and ?nxt = "k_snd_nxt k"
  note inv = kcp_invD [OF assms(1)]
  have "itimediff ?nxt ?una \<ge> 0"
    using itimediff_offs [of ?una ?nxt ?una] inv(4,5) by (simp add: offs_def)
  then have lt: "offs ?una ?nxt < unat cwnd"
    using window_test [of cwnd ?nxt ?una] assms(3,4) inv(5) by simp
  have "unat (?nxt - ?una + 1) = Suc (unat (?nxt - ?una))"
    using lt assms(4) inv(5) by (simp add: offs_def unat_plus_if')
  then have nxt: "offs ?una (?nxt + 1) = Suc (offs ?una ?nxt)"
    by (simp add: offs_def diff_add_eq)
  have "serial ?una (offs ?una (?nxt + 1)) (map s_sn (k_snd_buf k @ [s']))"
    using serial_snoc [OF inv(3) refl] nxt assms(5) by simp
  moreover have "?una = snd_first (k_snd_buf k @ [s']) (?nxt + 1)"
    using inv(2) assms(5) by (auto simp: snd_first_def split: list.splits)
  ultimately have "snd_window ?k"
    using lt nxt assms(4) by (simp add: snd_window_def)
  moreover have "params_ok ?k" "rcv_window ?k"
    using assms(1) by (auto simp: kcp_inv_def params_ok_def rcv_window_def)
  moreover have "kcp_counts ?k" "segs_ok ?k"
    using assms by (auto simp: kcp_inv_def kcp_counts_def segs_ok_def)
  ultimately show ?thesis using inv(15) by (simp add: kcp_inv_def)
qed

lemma flush_move_inv:
  assumes "kcp_inv k" "unat cwnd \<le> unat (k_snd_wnd k)"
  shows "kcp_inv (flush_move (k_snd_queue k) cwnd wnd k)"
proof -
  have "kcp_inv (flush_move q cwnd wnd k)" if "k_snd_queue k = q" for q
    using that assms
  proof (induction q cwnd wnd k rule: flush_move.induct)
    case (2 s q cwnd wnd k)
    show ?case
    proof (cases "itimediff (k_snd_nxt k) (k_snd_una k + cwnd) < 0")
      case True
      have wf: "seg_wf (k_mss k) s"
        using kcp_invD(8) [OF 2(3)] 2(2) by simp
      show ?thesis
        using True 2(2-) wf
        by (simp, intro 2(1)) (auto intro!: kcp_inv_enqueue [of k s q cwnd] simp: seg_wf_def)
    qed (use 2 in simp)
  qed simp
  then show ?thesis by simp
qed

lemma flush_decide_sim: "flush_decide k r m s = (s', why) \<Longrightarrow> seg_sim s s'"
  by (auto simp: flush_decide_def Let_def seg_sim_def split: if_splits)

lemma stamp_sim: "seg_sim s s' \<Longrightarrow> seg_sim s (stamp k wnd s')"
  by (simp add: seg_sim_def stamp_def)

lemma flush_segs_sim: "list_all2 seg_sim buf (fst (flush_segs k resent rtomin wnd buf out))"
proof (induction buf arbitrary: out)
  case (Cons s rest)
  obtain s' why where d: "flush_decide k resent rtomin s = (s', why)" by fastforce
  show ?case
    using d Cons flush_decide_sim [OF d] stamp_sim [OF flush_decide_sim [OF d]]
    by (cases why) (simp_all add: Let_def case_prod_beta)
qed simp

lemma kcp_inv_ackcount: "kcp_inv k \<Longrightarrow> kcp_inv (k\<lparr>k_ackcount := 0\<rparr>)"
  unfolding kcp_inv_defs by (elim conjE, intro conjI) simp_all

text \<open>The stages of a flush that does something.\<close>

lemma ikcp_flush_stages:
  assumes "k_updated k \<noteq> 0"
  obtains seg out1 k1 k3 buf buffer pkts c l d where
    "flush_acks k (take (nat (sint (k_ackcount k))) (k_acklist k)) (ctl_seg k) ([], []) = (seg, out1)"
    "k1 = flush_probe_timer (k\<lparr>k_ackcount := 0\<rparr>)"
    "k3 = flush_move (k_snd_queue k1) (flush_cwnd k1) (s_wnd seg) (k1\<lparr>k_probe := 0\<rparr>)"
    "flush_segs k3 (flush_resent k3) (flush_rtomin k3) (s_wnd seg) (k_snd_buf k3)
       (flush_probes k1 seg out1) = (buf, (buffer, pkts), c, l, d)"
    "ikcp_flush k = (flush_congestion (c \<noteq> 0) (l \<noteq> 0) (flush_resent k3) (flush_cwnd k1)
        (k3\<lparr>k_snd_buf := buf, k_xmit := k_xmit k3 + of_nat l,
            k_state := (if d then - 1 else k_state k3)\<rparr>), ikcp_output pkts buffer)"
proof -
  obtain seg out1 where acks: "flush_acks k (take (nat (sint (k_ackcount k))) (k_acklist k))
      (ctl_seg k) ([], []) = (seg, out1)" by (metis surj_pair)
  define k1 where "k1 = flush_probe_timer (k\<lparr>k_ackcount := 0\<rparr>)"
  define k3 where "k3 = flush_move (k_snd_queue k1) (flush_cwnd k1) (s_wnd seg) (k1\<lparr>k_probe := 0\<rparr>)"
  obtain buf buffer pkts c l d where segs: "flush_segs k3 (flush_resent k3) (flush_rtomin k3)
      (s_wnd seg) (k_snd_buf k3) (flush_probes k1 seg out1) = (buf, (buffer, pkts), c, l, d)"
    by (metis prod_cases5 surj_pair)
  have "flush_cwnd (k1\<lparr>k_probe := 0\<rparr>) = flush_cwnd k1"
    by (simp add: flush_cwnd_def Let_def)
  then have "ikcp_flush k = (flush_congestion (c \<noteq> 0) (l \<noteq> 0) (flush_resent k3) (flush_cwnd k1)
        (k3\<lparr>k_snd_buf := buf, k_xmit := k_xmit k3 + of_nat l,
            k_state := (if d then - 1 else k_state k3)\<rparr>), ikcp_output pkts buffer)"
    using assms segs unfolding ikcp_flush_def Let_def acks split k1_def [symmetric]
    by (simp flip: k3_def)
  then show thesis using that [OF acks k1_def k3_def segs] by simp
qed

lemma kcp_inv_flush:
  assumes "kcp_inv k"
  shows "kcp_inv (fst (ikcp_flush k))"
proof (cases "k_updated k = 0")
  case False
  then show ?thesis
  proof (rule ikcp_flush_stages)
    fix seg out1 k1 k3 buf buffer pkts c l d
    assume k1: "k1 = flush_probe_timer (k\<lparr>k_ackcount := 0\<rparr>)"
      and k3: "k3 = flush_move (k_snd_queue k1) (flush_cwnd k1) (s_wnd seg) (k1\<lparr>k_probe := 0\<rparr>)"
      and segs: "flush_segs k3 (flush_resent k3) (flush_rtomin k3) (s_wnd seg) (k_snd_buf k3)
       (flush_probes k1 seg out1) = (buf, (buffer, pkts), c, l, d)"
      and eq: "ikcp_flush k = (flush_congestion (c \<noteq> 0) (l \<noteq> 0) (flush_resent k3) (flush_cwnd k1)
        (k3\<lparr>k_snd_buf := buf, k_xmit := k_xmit k3 + of_nat l,
            k_state := (if d then - 1 else k_state k3)\<rparr>), ikcp_output pkts buffer)"
    have "kcp_inv (k1\<lparr>k_probe := 0\<rparr>)"
      using assms by (simp add: k1 kcp_inv_probe_timer kcp_inv_ackcount)
    from flush_move_inv [OF this, of "flush_cwnd k1" "s_wnd seg"] have "kcp_inv k3"
      using flush_cwnd_le [of k1] by (simp add: k3)
    then have "kcp_inv (k3\<lparr>k_snd_buf := buf\<rparr>)"
      using kcp_inv_sim [OF _ flush_segs_sim] segs by (metis fst_conv)
    then show ?thesis
      unfolding eq by (simp add: kcp_inv_congestion)
  qed
qed (use assms in \<open>simp add: ikcp_flush_def\<close>)

lemma kcp_inv_update:
  assumes "kcp_inv k"
  shows "kcp_inv (fst (ikcp_update k current))"
  using assms by (auto simp: ikcp_update_def Let_def intro!: kcp_inv_flush)

end
