(* ===== verification/Ikcp_Out.thy ===== *)
theory Ikcp_Out
  imports Ikcp_Inv
begin

text \<open>
  What a flush hands to the output callback: the kinds of segments in the packets, and that every
  packet is non-empty and fits in the mtu.
\<close>

subsection \<open>What a flush writes\<close>

lemma flush_move_frame:
  "k_mtu (flush_move q w wnd k) = k_mtu k" "k_mss (flush_move q w wnd k) = k_mss k"
  "k_rcv_nxt (flush_move q w wnd k) = k_rcv_nxt k" "k_rcv_buf (flush_move q w wnd k) = k_rcv_buf k"
  "k_rcv_queue (flush_move q w wnd k) = k_rcv_queue k" "k_conv (flush_move q w wnd k) = k_conv k"
  "k_acklist (flush_move q w wnd k) = k_acklist k" "k_snd_una (flush_move q w wnd k) = k_snd_una k"
  by (induction q w wnd k rule: flush_move.induct) simp_all

lemma flush_probe_timer_frame [simp]:
  "k_mtu (flush_probe_timer k) = k_mtu k" "k_mss (flush_probe_timer k) = k_mss k"
  "k_rcv_nxt (flush_probe_timer k) = k_rcv_nxt k" "k_rcv_buf (flush_probe_timer k) = k_rcv_buf k"
  "k_rcv_queue (flush_probe_timer k) = k_rcv_queue k" "k_conv (flush_probe_timer k) = k_conv k"
  "k_acklist (flush_probe_timer k) = k_acklist k" "k_snd_queue (flush_probe_timer k) = k_snd_queue k"
  "k_snd_buf (flush_probe_timer k) = k_snd_buf k" "k_snd_nxt (flush_probe_timer k) = k_snd_nxt k"
  "k_snd_una (flush_probe_timer k) = k_snd_una k" "k_current (flush_probe_timer k) = k_current k"
  by (simp_all add: flush_probe_timer_def Let_def)

text \<open>The control segments and the data segments a flush of \<open>k\<close> writes.\<close>

definition ctl_ok :: "ikcpcb \<Rightarrow> ikcpseg \<Rightarrow> bool" where
  "ctl_ok k s \<longleftrightarrow> s_conv s = k_conv k \<and> s_frg s = 0 \<and> s_una s = k_rcv_nxt k \<and> s_len s = 0 \<and>
     s_data s = [] \<and> (s_cmd s = IKCP_CMD_ACK \<and> (s_sn s, s_ts s) \<in> set (k_acklist k) \<or>
     s_cmd s = IKCP_CMD_WASK \<or> s_cmd s = IKCP_CMD_WINS)"

definition dat_ok :: "ikcpcb \<Rightarrow> ikcpseg list \<Rightarrow> ikcpseg \<Rightarrow> bool" where
  "dat_ok k buf t \<longleftrightarrow> (\<exists>s \<in> set buf. seg_sim s t) \<and> s_una t = k_rcv_nxt k"

definition put_data :: "ikcpcb \<Rightarrow> ikcpseg \<Rightarrow> outs \<Rightarrow> outs" where
  "put_data k t out = put_bytes (ikcp_encode_seg t @ take (unat (s_len t)) (s_data t))
     (make_room k (sint (IKCP_OVERHEAD + s_len t)) out)"

lemma seg_sims_member:
  "list_all2 seg_sim xs ys \<Longrightarrow> s \<in> set xs \<Longrightarrow> seg_sim s t \<Longrightarrow> \<exists>s' \<in> set ys. seg_sim s' t"
  by (induction rule: list_all2_induct) (auto simp: seg_sim_def)

lemma put_cong:
  "k_mtu k' = k_mtu k \<Longrightarrow> put_header k' s out = put_header k s out"
  "k_mtu k' = k_mtu k \<Longrightarrow> put_data k' s out = put_data k s out"
  by (simp_all add: put_header_def put_data_def make_room_def)

lemma flush_acks_invariant:
  assumes "\<And>s out. ctl_ok k s \<Longrightarrow> Q out \<Longrightarrow> Q (put_header k s out)"
    and "set acks \<subseteq> set (k_acklist k)" "Q out"
    and "s_cmd s = IKCP_CMD_ACK" "ctl_ok k (s\<lparr>s_cmd := IKCP_CMD_WASK\<rparr>)"
  shows "Q (snd (flush_acks k acks s out)) \<and>
    ctl_ok k ((fst (flush_acks k acks s out))\<lparr>s_cmd := IKCP_CMD_WASK\<rparr>)"
  using assms(2-)
proof (induction acks arbitrary: s out)
  case (Cons a acks)
  obtain sn ts where a: "a = (sn, ts)" by fastforce
  define s' where "s' = s\<lparr>s_sn := sn, s_ts := ts\<rparr>"
  have "ctl_ok k s'" "ctl_ok k (s'\<lparr>s_cmd := IKCP_CMD_WASK\<rparr>)" "s_cmd s' = IKCP_CMD_ACK"
    using Cons.prems by (auto simp: s'_def ctl_ok_def a)
  then show ?case
    using Cons.IH [of "put_header k s' out" s'] Cons.prems assms(1)
    by (simp add: a Let_def flip: s'_def)
qed simp

lemma flush_segs_invariant:
  assumes "\<And>t out. dat_ok k buf t \<Longrightarrow> Q out \<Longrightarrow> Q (put_data k t out)" "Q out"
  shows "Q (fst (snd (flush_segs k resent rtomin wnd buf out)))"
  using assms
proof (induction buf arbitrary: out)
  case (Cons s rest)
  obtain s' why where d: "flush_decide k resent rtomin s = (s', why)" by fastforce
  have rest: "Q (fst (snd (flush_segs k resent rtomin wnd rest out')))" if "Q out'" for out'
    using that Cons.prems(1) by (intro Cons.IH) (auto simp: dat_ok_def)
  have "dat_ok k (s # rest) (stamp k wnd s')"
    using stamp_sim [OF flush_decide_sim [OF d]] by (auto simp: dat_ok_def stamp_def)
  from Cons.prems(1) [OF this Cons.prems(2)] have "Q (put_data k (stamp k wnd s') out)" .
  with rest [OF this] rest [OF Cons.prems(2)] d show ?case
    by (cases why) (simp_all add: Let_def case_prod_beta put_data_def)
qed simp


text \<open>
  A property of the output that every write of a control or data segment keeps holds of the
  whole output.
\<close>

lemma ikcp_flush_invariant:
  assumes "Q ([], [])" "\<And>s out. ctl_ok k s \<Longrightarrow> Q out \<Longrightarrow> Q (put_header k s out)"
    and "\<And>t out. dat_ok k (k_snd_buf (fst (ikcp_flush k))) t \<Longrightarrow> Q out \<Longrightarrow> Q (put_data k t out)"
  shows "\<exists>buffer pkts. Q (buffer, pkts) \<and> snd (ikcp_flush k) = ikcp_output pkts buffer"
proof (cases "k_updated k = 0")
  case False
  then show ?thesis
  proof (rule ikcp_flush_stages)
    fix seg out1 k1 k3 buf buffer pkts c l d
    assume acks: "flush_acks k (take (nat (sint (k_ackcount k))) (k_acklist k)) (ctl_seg k) ([], [])
        = (seg, out1)"
      and k1: "k1 = flush_probe_timer (k\<lparr>k_ackcount := 0\<rparr>)"
      and k3: "k3 = flush_move (k_snd_queue k1) (flush_cwnd k1) (s_wnd seg) (k1\<lparr>k_probe := 0\<rparr>)"
      and segs: "flush_segs k3 (flush_resent k3) (flush_rtomin k3) (s_wnd seg) (k_snd_buf k3)
       (flush_probes k1 seg out1) = (buf, (buffer, pkts), c, l, d)"
      and eq: "ikcp_flush k = (flush_congestion (c \<noteq> 0) (l \<noteq> 0) (flush_resent k3) (flush_cwnd k1)
        (k3\<lparr>k_snd_buf := buf, k_xmit := k_xmit k3 + of_nat l,
            k_state := (if d then - 1 else k_state k3)\<rparr>), ikcp_output pkts buffer)"
    have "s_cmd (ctl_seg k) = IKCP_CMD_ACK" "ctl_ok k ((ctl_seg k)\<lparr>s_cmd := IKCP_CMD_WASK\<rparr>)"
      by (simp_all add: ctl_seg_def ctl_ok_def)
    from flush_acks_invariant [OF assms(2) set_take_subset assms(1) this]
    have 1: "Q out1 \<and> ctl_ok k (seg\<lparr>s_cmd := IKCP_CMD_WASK\<rparr>)"
      using acks by (metis fst_conv snd_conv)
    then have "ctl_ok k (seg\<lparr>s_cmd := IKCP_CMD_WINS\<rparr>)"
      by (simp add: ctl_ok_def)
    with 1 have 2: "Q (flush_probes k1 seg out1)"
      using put_cong(1) [of k1 k] assms(2) by (simp add: flush_probes_def Let_def k1)
    have mtu: "k_mtu k3 = k_mtu k" and nxt: "k_rcv_nxt k3 = k_rcv_nxt k"
      by (simp_all add: k3 k1 flush_move_frame)
    have buf: "k_snd_buf (fst (ikcp_flush k)) = buf"
      by (simp add: eq flush_congestion_def Let_def)
    have "Q (put_data k3 t out)" if "dat_ok k3 (k_snd_buf k3) t" "Q out" for t out
    proof -
      have "list_all2 seg_sim (k_snd_buf k3) buf"
        using flush_segs_sim segs by (metis fst_conv)
      then have "dat_ok k (k_snd_buf (fst (ikcp_flush k))) t"
        using that(1) unfolding dat_ok_def buf nxt
        by (auto dest: seg_sims_member)
      then show ?thesis
        using assms(3) that(2) put_cong(2) [OF mtu] by simp
    qed
    from flush_segs_invariant [of k3 "k_snd_buf k3" Q, OF this 2, of "flush_resent k3"]
    have "Q (buffer, pkts)" using segs by (metis fst_conv snd_conv)
    then show ?thesis by (auto simp: eq)
  qed
qed (use assms(1) in \<open>auto simp: ikcp_flush_def ikcp_output_def intro!: exI [of _ "[]"]\<close>)

subsection \<open>Packet sizes\<close>

definition out_ok :: "nat \<Rightarrow> outs \<Rightarrow> bool" where
  "out_ok m out \<longleftrightarrow> length (fst out) \<le> m \<and> (\<forall>p \<in> set (snd out). p \<noteq> [] \<and> length p \<le> m)"

lemma out_ok_put:
  assumes "sint (k_mtu k) = int m" "out_ok m out" "length bs \<le> m"
  shows "out_ok m (put_bytes bs (make_room k (int (length bs)) out))"
proof -
  obtain buffer pkts where out: "out = (buffer, pkts)" by fastforce
  show ?thesis
    using assms(2,3) unfolding out_ok_def put_bytes_def make_room_def Let_def out assms(1)
    by (auto simp: ikcp_output_def split: if_splits)
qed

lemma seg_wf_need:
  assumes "params_ok k" "seg_wf (k_mss k) t"
  defines "bs \<equiv> ikcp_encode_seg t @ take (unat (s_len t)) (s_data t)"
  shows "sint (IKCP_OVERHEAD + s_len t) = int (length bs)" "length bs \<le> unat (k_mtu k)"
    "take (unat (s_len t)) (s_data t) = s_data t"
proof -
  have mtu: "24 < unat (k_mtu k)" "unat (k_mtu k) < 2 ^ 16"
    using assms(1) by (auto simp: params_ok_def)
  have len: "length (s_data t) \<le> unat (k_mtu k) - 24"
    using assms(2) params_ok_mss(2) [OF assms(1)] by (simp add: seg_wf_def)
  have unat: "unat (s_len t) = length (s_data t)"
    using len mtu assms(2) by (auto simp: seg_wf_def intro!: unat_of_nat_u32)
  then have "unat (IKCP_OVERHEAD + s_len t) = 24 + length (s_data t)"
    using len mtu by (simp add: IKCP_OVERHEAD_def unat_plus_if')
  moreover from this have "sint (IKCP_OVERHEAD + s_len t) = int (unat (IKCP_OVERHEAD + s_len t))"
    using len mtu by (intro sint_small) simp
  ultimately show "sint (IKCP_OVERHEAD + s_len t) = int (length bs)" "length bs \<le> unat (k_mtu k)"
    "take (unat (s_len t)) (s_data t) = s_data t"
    using len mtu unat by (simp_all add: bs_def)
qed

lemma dat_ok_wf:
  assumes "kcp_inv k" "dat_ok k (k_snd_buf (fst (ikcp_flush k))) t"
  shows "seg_wf (k_mss k) t"
proof -
  have "k_mss (fst (ikcp_flush k)) = k_mss k"
  proof (cases "k_updated k = 0")
    case False
    then show ?thesis
      by (rule ikcp_flush_stages) (simp add: flush_congestion_def Let_def flush_move_frame)
  qed (simp add: ikcp_flush_def)
  then have "list_all (seg_wf (k_mss k)) (k_snd_buf (fst (ikcp_flush k)))"
    using kcp_invD(9) [OF kcp_inv_flush [OF assms(1)]] by simp
  then show ?thesis
    using assms(2) by (auto simp: dat_ok_def list_all_iff seg_sim_def seg_wf_def)
qed

lemma flush_packets:
  assumes "kcp_inv k" "p \<in> set (snd (ikcp_flush k))"
  shows "p \<noteq> [] \<and> length p \<le> unat (k_mtu k)"
proof -
  note params = kcp_invD(1) [OF assms(1)]
  have mtu: "sint (k_mtu k) = int (unat (k_mtu k))"
    using params by (intro sint_small) (simp add: params_ok_def)
  have "\<exists>buffer pkts. out_ok (unat (k_mtu k)) (buffer, pkts) \<and>
      snd (ikcp_flush k) = ikcp_output pkts buffer"
  proof (rule ikcp_flush_invariant)
    fix s out assume "out_ok (unat (k_mtu k)) out"
    then show "out_ok (unat (k_mtu k)) (put_header k s out)"
      using out_ok_put [OF mtu, of out "ikcp_encode_seg s"] params
      by (simp add: put_header_def IKCP_OVERHEAD_def params_ok_def)
  next
    fix t out
    assume t: "dat_ok k (k_snd_buf (fst (ikcp_flush k))) t" and "out_ok (unat (k_mtu k)) out"
    note need = seg_wf_need [OF params dat_ok_wf [OF assms(1) t]]
    show "out_ok (unat (k_mtu k)) (put_data k t out)"
      unfolding put_data_def need(1) using \<open>out_ok _ out\<close> need(2) by (rule out_ok_put [OF mtu])
  qed (simp add: out_ok_def)
  then show ?thesis using assms(2) by (auto simp: out_ok_def ikcp_output_def split: if_splits)
qed

end
