(* ===== verification/Ikcp_Wire.thy ===== *)
theory Ikcp_Wire
  imports Ikcp_Out
begin

text \<open>
  What the segments of one end mean to the other. A sender's log lists the data of the segments it
  has sent off, in order; a data segment on the wire carries entry number \<open>sn\<close> of the log. The
  lemmas follow each operation of the engine against the logs of both directions: a receiver holds
  a prefix of the peer's log, and a sender drops a segment only when the peer has it.
\<close>

subsection \<open>Segments and packets that belong to a stream\<close>

definition idx :: "ikcpseg \<Rightarrow> nat" where
  "idx s = unat (s_sn s)"

text \<open>\<open>s\<close> carries entry number \<open>sn\<close> of the log \<open>lg\<close> of a sender.\<close>

definition data_seg :: "bytes list \<Rightarrow> ikcpseg \<Rightarrow> bool" where
  "data_seg lg s \<longleftrightarrow> idx s < length lg \<and> s_data s = lg ! idx s \<and> s_frg s = 0 \<and>
     s_len s = of_nat (length (s_data s))"

definition lg_ok :: "bytes list \<Rightarrow> bool" where
  "lg_ok lg \<longleftrightarrow> length lg < 2 ^ 31 \<and> (\<forall>d \<in> set lg. 0 < length d \<and> length d < 2 ^ 16)"

definition push_seg :: "u32 \<Rightarrow> bytes list \<Rightarrow> ikcpseg \<Rightarrow> bool" where
  "push_seg conv lg s \<longleftrightarrow> data_seg lg s \<and> s_cmd s = IKCP_CMD_PUSH \<and> s_conv s = conv"

text \<open>The serial numbers a receiver has accepted.\<close>

definition recvd :: "ikcpcb \<Rightarrow> nat set" where
  "recvd k = {..<unat (k_rcv_nxt k)} \<union> idx ` set (k_rcv_buf k)"

definition wire_seg :: "u32 \<Rightarrow> bytes list \<Rightarrow> ikcpcb \<Rightarrow> ikcpseg \<Rightarrow> bool" where
  "wire_seg conv lg k s \<longleftrightarrow> s_conv s = conv \<and> unat (s_una s) \<le> unat (k_rcv_nxt k) \<and>
     (s_cmd s = IKCP_CMD_PUSH \<and> data_seg lg s \<or>
      s_data s = [] \<and> s_len s = 0 \<and> s_frg s = 0 \<and>
      (s_cmd s = IKCP_CMD_ACK \<and> idx s \<in> recvd k \<or>
       s_cmd s = IKCP_CMD_WASK \<or> s_cmd s = IKCP_CMD_WINS))"

definition wire :: "ikcpseg \<Rightarrow> bytes" where
  "wire s = ikcp_encode_seg s @ s_data s"

definition wire_pkt :: "u32 \<Rightarrow> bytes list \<Rightarrow> ikcpcb \<Rightarrow> bytes \<Rightarrow> bool" where
  "wire_pkt conv lg k p \<longleftrightarrow>
     (\<exists>ss. p = concat (map wire ss) \<and> list_all (wire_seg conv lg k) ss)"

subsection \<open>The two ends against the log\<close>

definition snd_log :: "u32 \<Rightarrow> bytes list \<Rightarrow> ikcpcb \<Rightarrow> bytes \<Rightarrow> bool" where
  "snd_log conv lg k sent \<longleftrightarrow> k_conv k = conv \<and> unat (k_snd_nxt k) = length lg \<and>
     list_all (push_seg conv lg) (k_snd_buf k) \<and>
     sent = concat lg @ stream_of (k_snd_queue k) \<and>
     (\<forall>a \<in> set (k_acklist k). unat (fst a) \<in> recvd k)"

definition rcv_log :: "bytes list \<Rightarrow> ikcpcb \<Rightarrow> bytes \<Rightarrow> bool" where
  "rcv_log lg k got \<longleftrightarrow> unat (k_rcv_nxt k) \<le> length lg \<and>
     list_all (data_seg lg) (k_rcv_buf k) \<and> list_all (\<lambda>s. s_frg s = 0) (k_rcv_queue k) \<and>
     got @ stream_of (k_rcv_queue k) = concat (take (unat (k_rcv_nxt k)) lg)"

text \<open>Every logged segment is still with the sender or has reached the receiver.\<close>

definition covered :: "bytes list \<Rightarrow> ikcpcb \<Rightarrow> ikcpcb \<Rightarrow> bool" where
  "covered lg kx ky \<longleftrightarrow> {..<length lg} \<subseteq> idx ` set (k_snd_buf kx) \<union> recvd ky"

lemma recvd_cong [simp]:
  "recvd (k\<lparr>k_probe := p\<rparr>) = recvd k" "recvd (k\<lparr>k_snd_queue := q\<rparr>) = recvd k"
  "recvd (k\<lparr>k_nsnd_que := c\<rparr>) = recvd k" "recvd (k\<lparr>k_rcv_queue := q\<rparr>) = recvd k"
  "recvd (k\<lparr>k_nrcv_que := c\<rparr>) = recvd k" "recvd (k\<lparr>k_snd_buf := q\<rparr>) = recvd k"
  "recvd (k\<lparr>k_nsnd_buf := c\<rparr>) = recvd k" "recvd (k\<lparr>k_snd_una := c\<rparr>) = recvd k"
  "recvd (k\<lparr>k_rmt_wnd := c\<rparr>) = recvd k" "recvd (k\<lparr>k_ackblock := c\<rparr>) = recvd k"
  "recvd (k\<lparr>k_acklist := a\<rparr>) = recvd k" "recvd (k\<lparr>k_ackcount := c\<rparr>) = recvd k"
  by (simp_all add: recvd_def)

lemma wire_pkt_mono:
  assumes "wire_pkt conv lg k p" "recvd k \<subseteq> recvd k'" "unat (k_rcv_nxt k) \<le> unat (k_rcv_nxt k')"
    and "prefix lg lg'"
  shows "wire_pkt conv lg' k' p"
proof -
  have "data_seg lg s \<Longrightarrow> data_seg lg' s" for s
    using assms(4) by (auto simp: data_seg_def prefix_def nth_append)
  then have "wire_seg conv lg k s \<Longrightarrow> wire_seg conv lg' k' s" for s
    using assms(2,3) by (auto simp: wire_seg_def)
  then show ?thesis
    using assms(1) by (auto simp: wire_pkt_def list_all_iff)
qed

subsection \<open>Moving received segments up\<close>

lemma unat_add_run:
  assumes "unat (a :: u32) \<le> m" "m < 2 ^ 31" "\<And>i. i < n \<Longrightarrow> unat (a + of_nat i) < m"
  shows "unat (a + of_nat n) = unat a + n \<and> unat a + n \<le> m"
  using assms(3)
proof (induction n)
  case (Suc n)
  then have "unat (a + of_nat n) = unat a + n" "unat (a + of_nat n) < m"
    using Suc.prems [of n] by auto
  moreover have "unat (a + of_nat n + 1) = Suc (unat (a + of_nat n))"
    using \<open>unat (a + of_nat n) < m\<close> assms(2) by (simp add: unat_plus_if')
  moreover have "a + of_nat (Suc n) = a + of_nat n + 1"
    by simp
  ultimately show ?case by (metis Suc_leI add_Suc_right)
qed (use assms(1) in simp)

lemma concat_run:
  assumes "n \<le> length buf" "\<And>i. i < n \<Longrightarrow> idx (buf ! i) = m + i \<and> s_data (buf ! i) = lg ! (m + i)"
    and "m + n \<le> length lg"
  shows "concat (take (m + n) lg) = concat (take m lg) @ stream_of (take n buf)"
  using assms
proof (induction n)
  case (Suc n)
  then show ?case
    by (simp add: take_Suc_conv_app_nth)
qed simp

lemma rcv_shift_run:
  assumes "unat (k_rcv_nxt k) \<le> length lg" "lg_ok lg" "list_all (data_seg lg) (k_rcv_buf k)"
    and "n \<le> length (k_rcv_buf k)"
    and "\<forall>i < n. s_sn (k_rcv_buf k ! i) = k_rcv_nxt k + of_nat i"
  shows "unat (k_rcv_nxt k + of_nat n) = unat (k_rcv_nxt k) + n"
    "unat (k_rcv_nxt k) + n \<le> length lg"
    "i < n \<Longrightarrow> idx (k_rcv_buf k ! i) = unat (k_rcv_nxt k) + i"
proof -
  have "unat (k_rcv_nxt k + of_nat i) < length lg" if "i < n" for i
  proof -
    have "data_seg lg (k_rcv_buf k ! i)"
      using assms(3,4) that by (simp add: list_all_length)
    then show ?thesis using assms(5) that by (simp add: data_seg_def idx_def)
  qed
  then have run: "unat (k_rcv_nxt k + of_nat m) = unat (k_rcv_nxt k) + m \<and>
      unat (k_rcv_nxt k) + m \<le> length lg" if "m \<le> n" for m
    using assms(1,2) that by (intro unat_add_run) (auto simp: lg_ok_def)
  show "unat (k_rcv_nxt k + of_nat n) = unat (k_rcv_nxt k) + n"
    "unat (k_rcv_nxt k) + n \<le> length lg"
    using run [of n] by auto
  show "i < n \<Longrightarrow> idx (k_rcv_buf k ! i) = unat (k_rcv_nxt k) + i"
    using run [of i] assms(5) by (simp add: idx_def)
qed

lemma rcv_shift_log:
  assumes "rcv_log lg k got" "lg_ok lg" "n \<le> length (k_rcv_buf k)"
    and "\<forall>i < n. s_sn (k_rcv_buf k ! i) = k_rcv_nxt k + of_nat i"
  shows "rcv_log lg (rcv_shift n k) got" "recvd (rcv_shift n k) = recvd k"
    "unat (k_rcv_nxt k) \<le> unat (k_rcv_nxt (rcv_shift n k))"
proof -
  have nxt: "unat (k_rcv_nxt k) \<le> length lg" and buf: "list_all (data_seg lg) (k_rcv_buf k)"
    using assms(1) by (auto simp: rcv_log_def)
  note run = rcv_shift_run [OF nxt assms(2) buf assms(3,4)]
  have data: "s_data (k_rcv_buf k ! i) = lg ! (unat (k_rcv_nxt k) + i)" "s_frg (k_rcv_buf k ! i) = 0"
    if "i < n" for i
    using run(3) [OF that] buf that assms(3) by (auto simp: list_all_length data_seg_def)
  have "concat (take (unat (k_rcv_nxt k) + n) lg) =
      concat (take (unat (k_rcv_nxt k)) lg) @ stream_of (take n (k_rcv_buf k))"
    using assms(3) run(2,3) data by (intro concat_run) auto
  moreover have "list_all (\<lambda>s. s_frg s = 0) (take n (k_rcv_buf k))"
    using data(2) by (simp add: list_all_length)
  ultimately show "rcv_log lg (rcv_shift n k) got"
    using assms(1) run(1,2) by (auto simp: rcv_log_def list_all_iff dest: in_set_dropD)
  show "unat (k_rcv_nxt k) \<le> unat (k_rcv_nxt (rcv_shift n k))"
    using run(1) by simp
  have "idx ` set (take n (k_rcv_buf k)) = {unat (k_rcv_nxt k)..<unat (k_rcv_nxt k) + n}"
  proof -
    have "map idx (take n (k_rcv_buf k)) = [unat (k_rcv_nxt k)..<unat (k_rcv_nxt k) + n]"
      using assms(3) run(3) by (intro nth_equalityI) auto
    from arg_cong [OF this, of set] show ?thesis by simp
  qed
  moreover have "set (k_rcv_buf k) = set (take n (k_rcv_buf k)) \<union> set (drop n (k_rcv_buf k))"
    by (metis append_take_drop_id set_append)
  ultimately show "recvd (rcv_shift n k) = recvd k"
    using run(1) by (auto simp: recvd_def image_Un)
qed

lemma ikcp_recv_log:
  assumes "kcp_inv k" "rcv_log lg k got" "lg_ok lg" "fst (ikcp_recv k len) \<ge> 0" "len \<ge> 0"
  shows "rcv_log lg (snd (snd (ikcp_recv k len))) (got @ fst (snd (ikcp_recv k len)))"
    "recvd (snd (snd (ikcp_recv k len))) = recvd k"
    "unat (k_rcv_nxt k) \<le> unat (k_rcv_nxt (snd (snd (ikcp_recv k len))))"
proof -
  obtain d l m n p where r: "recv_merge (k_rcv_queue k) = (d, l, m)"
    "fst (snd (ikcp_recv k len)) = d" "k_rcv_queue k \<noteq> []" "n \<le> length (k_rcv_buf k)"
    "\<And>i. i < n \<Longrightarrow> s_sn (k_rcv_buf k ! i) = k_rcv_nxt k + of_nat i"
    "snd (snd (ikcp_recv k len)) =
       (rcv_shift n (k\<lparr>k_rcv_queue := drop m (k_rcv_queue k),
          k_nrcv_que := k_nrcv_que k - of_nat m\<rparr>))\<lparr>k_probe := p\<rparr>"
    using ikcp_recv_success [OF assms(4,5)] by metis
  obtain s q where q: "k_rcv_queue k = s # q" using r(3) by (cases "k_rcv_queue k") auto
  have "s_frg s = 0" "seg_counted s"
    using assms(2) kcp_invD(10) [OF assms(1)] q by (auto simp: rcv_log_def)
  moreover from this have "unat (s_len s) = length (s_data s)"
    by (auto simp: seg_counted_def intro!: unat_of_nat_u32)
  ultimately have dm: "d = s_data s" "m = 1"
    using r(1) q by auto
  define k1 where "k1 = k\<lparr>k_rcv_queue := q, k_nrcv_que := k_nrcv_que k - 1\<rparr>"
  have "rcv_log lg k1 (got @ d)"
    using assms(2) q dm by (simp add: rcv_log_def k1_def)
  note sh = rcv_shift_log [OF this assms(3), of n]
  show "rcv_log lg (snd (snd (ikcp_recv k len))) (got @ fst (snd (ikcp_recv k len)))"
    "recvd (snd (snd (ikcp_recv k len))) = recvd k"
    "unat (k_rcv_nxt k) \<le> unat (k_rcv_nxt (snd (snd (ikcp_recv k len))))"
    using sh r dm q unfolding k1_def by (simp_all add: rcv_log_def)
qed


subsection \<open>Sending and flushing\<close>

lemma data_seg_append: "data_seg lg s \<Longrightarrow> data_seg (lg @ ds) s"
  by (auto simp: data_seg_def nth_append)

lemma data_seg_sim: "seg_sim s t \<Longrightarrow> data_seg lg s \<Longrightarrow> data_seg lg t"
  by (simp add: seg_sim_def data_seg_def idx_def)

lemma push_seg_sim: "seg_sim s t \<Longrightarrow> push_seg conv lg s \<Longrightarrow> push_seg conv lg t"
  by (simp add: push_seg_def data_seg_def idx_def seg_sim_def)

text \<open>\<open>flush_move\<close> sends off a run of queued segments, numbered from \<open>snd_nxt\<close>.\<close>

definition sent_as :: "ikcpcb \<Rightarrow> u32 \<Rightarrow> ikcpseg \<Rightarrow> ikcpseg \<Rightarrow> bool" where
  "sent_as k sn s t \<longleftrightarrow> s_conv t = k_conv k \<and> s_cmd t = IKCP_CMD_PUSH \<and> s_sn t = sn \<and>
     s_frg t = s_frg s \<and> s_len t = s_len s \<and> s_data t = s_data s"

lemma flush_move_run:
  assumes "k_snd_queue k = q"
  shows "\<exists>n new. n \<le> length q \<and> length new = n \<and>
    k_snd_queue (flush_move q w wnd k) = drop n q \<and>
    k_snd_buf (flush_move q w wnd k) = k_snd_buf k @ new \<and>
    k_snd_nxt (flush_move q w wnd k) = k_snd_nxt k + of_nat n \<and>
    (\<forall>i < n. sent_as k (k_snd_nxt k + of_nat i) (q ! i) (new ! i))"
  using assms
proof (induction q w wnd k rule: flush_move.induct)
  case (1 w wnd k)
  then show ?case by (intro exI [of _ 0] exI [of _ "[]"]) simp
next
  case (2 s q w wnd k)
  show ?case
  proof (cases "itimediff (k_snd_nxt k) (k_snd_una k + w) < 0")
    case True
    define t where "t = s\<lparr>s_conv := k_conv k, s_cmd := IKCP_CMD_PUSH, s_wnd := wnd,
      s_ts := k_current k, s_sn := k_snd_nxt k, s_una := k_rcv_nxt k, s_resendts := k_current k,
      s_rto := k_rx_rto k, s_fastack := 0, s_xmit := 0\<rparr>"
    have t: "sent_as k (k_snd_nxt k) s t" by (simp add: sent_as_def t_def)
    from 2(1) [OF True] obtain n new where IH: "n \<le> length q" "length new = n"
      "k_snd_queue (flush_move (s # q) w wnd k) = drop n q"
      "k_snd_buf (flush_move (s # q) w wnd k) = k_snd_buf k @ t # new"
      "k_snd_nxt (flush_move (s # q) w wnd k) = k_snd_nxt k + 1 + of_nat n"
      "\<forall>i < n. sent_as k (k_snd_nxt k + 1 + of_nat i) (q ! i) (new ! i)"
      using True by (auto simp: t_def sent_as_def)
    then show ?thesis
      using t by (intro exI [of _ "Suc n"] exI [of _ "t # new"])
        (simp add: All_less_Suc2 ac_simps del: flush_move.simps)
  next
    case False
    with 2 show ?thesis by (intro exI [of _ 0] exI [of _ "[]"]) simp
  qed
qed


text \<open>
  A flush, against the log extended by the segments it sends off: what is in the packets, and the
  sender's side of the invariant.
\<close>

definition flushed :: "ikcpcb \<Rightarrow> ikcpcb \<Rightarrow> bytes list" where
  "flushed k k' = map s_data (take (unat (k_snd_nxt k' - k_snd_nxt k)) (k_snd_queue k))"

lemma flush_fields:
  assumes "k_updated k \<noteq> 0"
  obtains n new where "n \<le> length (k_snd_queue k)" "length new = n"
    "k_snd_queue (fst (ikcp_flush k)) = drop n (k_snd_queue k)"
    "list_all2 seg_sim (k_snd_buf k @ new) (k_snd_buf (fst (ikcp_flush k)))"
    "k_snd_nxt (fst (ikcp_flush k)) = k_snd_nxt k + of_nat n"
    "\<forall>i < n. sent_as k (k_snd_nxt k + of_nat i) (k_snd_queue k ! i) (new ! i)"
    "k_conv (fst (ikcp_flush k)) = k_conv k" "k_rcv_nxt (fst (ikcp_flush k)) = k_rcv_nxt k"
    "k_rcv_buf (fst (ikcp_flush k)) = k_rcv_buf k" "k_rcv_queue (fst (ikcp_flush k)) = k_rcv_queue k"
    "k_acklist (fst (ikcp_flush k)) = k_acklist k"
  using assms
proof (rule ikcp_flush_stages)
  fix seg out1 k1 k3 buf buffer pkts c l d
  assume k1: "k1 = flush_probe_timer (k\<lparr>k_ackcount := 0\<rparr>)"
    and k3: "k3 = flush_move (k_snd_queue k1) (flush_cwnd k1) (s_wnd seg) (k1\<lparr>k_probe := 0\<rparr>)"
    and segs: "flush_segs k3 (flush_resent k3) (flush_rtomin k3) (s_wnd seg) (k_snd_buf k3)
       (flush_probes k1 seg out1) = (buf, (buffer, pkts), c, l, d)"
    and eq: "ikcp_flush k = (flush_congestion (c \<noteq> 0) (l \<noteq> 0) (flush_resent k3) (flush_cwnd k1)
        (k3\<lparr>k_snd_buf := buf, k_xmit := k_xmit k3 + of_nat l,
            k_state := (if d then - 1 else k_state k3)\<rparr>), ikcp_output pkts buffer)"
  have sim: "list_all2 seg_sim (k_snd_buf k3) buf"
    using flush_segs_sim segs by (metis fst_conv)
  obtain n new where n: "n \<le> length (k_snd_queue k)" "length new = n"
    "k_snd_queue k3 = drop n (k_snd_queue k)" "k_snd_buf k3 = k_snd_buf k @ new"
    "k_snd_nxt k3 = k_snd_nxt k + of_nat n"
    "\<forall>i < n. sent_as k (k_snd_nxt k + of_nat i) (k_snd_queue k ! i) (new ! i)"
    using flush_move_run [of "k1\<lparr>k_probe := 0\<rparr>" "k_snd_queue k1" "flush_cwnd k1" "s_wnd seg"]
    unfolding k3 [symmetric] by (auto simp: k1 sent_as_def)
  show thesis
    by (rule that [OF n(1,2)])
      (use n sim in \<open>simp_all add: eq flush_congestion_def Let_def k3 k1 flush_move_frame\<close>)
qed


lemma wire_pkt_Nil: "wire_pkt conv lg k []"
  unfolding wire_pkt_def by (intro exI [of _ "[]"]) simp

lemma wire_pkt_snoc: "wire_pkt conv lg k p \<Longrightarrow> wire_seg conv lg k s \<Longrightarrow> wire_pkt conv lg k (p @ wire s)"
  unfolding wire_pkt_def by (elim exE conjE, rule_tac x = "ss @ [s]" in exI) simp

definition wire_out :: "u32 \<Rightarrow> bytes list \<Rightarrow> ikcpcb \<Rightarrow> outs \<Rightarrow> bool" where
  "wire_out conv lg k out \<longleftrightarrow>
     wire_pkt conv lg k (fst out) \<and> (\<forall>p \<in> set (snd out). wire_pkt conv lg k p)"

lemma wire_out_put:
  assumes "wire_out conv lg k out" "wire_seg conv lg k s"
  shows "wire_out conv lg k (put_bytes (wire s) (make_room k' need out))"
  using assms wire_pkt_snoc [OF _ assms(2)] wire_pkt_Nil [of conv lg k]
  by (cases out) (auto simp: wire_out_def put_bytes_def make_room_def ikcp_output_def
      dest: wire_pkt_snoc [OF wire_pkt_Nil])

lemma snd_log_members:
  "snd_log conv lg k sent \<Longrightarrow> s \<in> set (k_snd_buf k) \<Longrightarrow>
   push_seg conv lg s"
  by (simp add: snd_log_def list_all_iff)

lemma flush_wire:
  assumes "kcp_inv k" "snd_log conv lg (fst (ikcp_flush k)) sent"
    and "k_conv k = conv" "\<forall>a \<in> set (k_acklist k). unat (fst a) \<in> recvd k"
    and "p \<in> set (snd (ikcp_flush k))"
  shows "wire_pkt conv lg k p"
proof -
  have "\<exists>buffer pkts. wire_out conv lg k (buffer, pkts) \<and>
      snd (ikcp_flush k) = ikcp_output pkts buffer"
  proof (rule ikcp_flush_invariant)
    show "wire_out conv lg k ([], [])" by (simp add: wire_out_def wire_pkt_Nil)
  next
    fix s out assume s: "ctl_ok k s" and out: "wire_out conv lg k out"
    have "wire_seg conv lg k s" "wire s = ikcp_encode_seg s"
      using s assms(3,4) by (auto simp: ctl_ok_def wire_seg_def wire_def idx_def)
    with wire_out_put [OF out] show "wire_out conv lg k (put_header k s out)"
      by (metis put_header_def)
  next
    fix t out
    assume t: "dat_ok k (k_snd_buf (fst (ikcp_flush k))) t" and out: "wire_out conv lg k out"
    then obtain s where s: "s \<in> set (k_snd_buf (fst (ikcp_flush k)))" "seg_sim s t"
      and una: "s_una t = k_rcv_nxt k" by (auto simp: dat_ok_def)
    have "data_seg lg t" "s_cmd t = IKCP_CMD_PUSH" "s_conv t = conv"
      using snd_log_members [OF assms(2) s(1)] data_seg_sim [OF s(2)] s(2)
      by (auto simp: seg_sim_def push_seg_def)
    then have "wire_seg conv lg k t"
      by (simp add: wire_seg_def una)
    moreover have "put_data k t out =
        put_bytes (wire t) (make_room k (sint (IKCP_OVERHEAD + s_len t)) out)"
      using seg_wf_need(3) [OF kcp_invD(1) [OF assms(1)] dat_ok_wf [OF assms(1) t]]
      by (simp add: put_data_def wire_def)
    ultimately show "wire_out conv lg k (put_data k t out)"
      using wire_out_put [OF out] by simp
  qed
  then show ?thesis
    using assms(5) by (auto simp: wire_out_def ikcp_output_def split: if_splits)
qed

lemma data_seg_new:
  assumes "unat nxt = length lg" "length (lg @ map s_data q) < 2 ^ 31" "i < length q"
    and "sent_as k (nxt + of_nat i) (q ! i) t" "seg_wf mss (q ! i)"
  shows "data_seg (lg @ map s_data q) t" "idx t = length lg + i"
proof -
  have "unat (of_nat i :: u32) = i"
    using assms(2,3) by (intro unat_of_nat_u32) simp
  then have "unat (nxt + of_nat i) = length lg + i"
    using assms(1-3) by (simp add: unat_plus_if')
  then show "idx t = length lg + i" "data_seg (lg @ map s_data q) t"
    using assms(3-5) by (auto simp: data_seg_def idx_def sent_as_def seg_wf_def nth_append)
qed

lemma seg_sims_image: "list_all2 seg_sim xs ys \<Longrightarrow> idx ` set ys = idx ` set xs"
  by (induction rule: list_all2_induct) (auto simp: seg_sim_def idx_def)

lemma flushed_run:
  assumes "kcp_inv k" "k_updated k \<noteq> 0"
  defines "k' \<equiv> fst (ikcp_flush k)"
  obtains q rest new where "k_snd_queue k = q @ rest" "k_snd_queue k' = rest"
    "flushed k k' = map s_data q" "length new = length q"
    "k_snd_nxt k' = k_snd_nxt k + of_nat (length q)" "length q < 2 ^ 31"
    "list_all2 seg_sim (k_snd_buf k @ new) (k_snd_buf k')"
    "\<forall>i < length q. sent_as k (k_snd_nxt k + of_nat i) (q ! i) (new ! i)"
    "k_conv k' = k_conv k" "k_rcv_nxt k' = k_rcv_nxt k" "k_rcv_buf k' = k_rcv_buf k"
    "k_rcv_queue k' = k_rcv_queue k" "k_acklist k' = k_acklist k"
  using assms(2)
proof (rule flush_fields)
  fix n new
  assume n: "n \<le> length (k_snd_queue k)" "length new = n"
    "k_snd_queue (fst (ikcp_flush k)) = drop n (k_snd_queue k)"
    "list_all2 seg_sim (k_snd_buf k @ new) (k_snd_buf (fst (ikcp_flush k)))"
    "k_snd_nxt (fst (ikcp_flush k)) = k_snd_nxt k + of_nat n"
    "\<forall>i < n. sent_as k (k_snd_nxt k + of_nat i) (k_snd_queue k ! i) (new ! i)"
    "k_conv (fst (ikcp_flush k)) = k_conv k" "k_rcv_nxt (fst (ikcp_flush k)) = k_rcv_nxt k"
    "k_rcv_buf (fst (ikcp_flush k)) = k_rcv_buf k" "k_rcv_queue (fst (ikcp_flush k)) = k_rcv_queue k"
    "k_acklist (fst (ikcp_flush k)) = k_acklist k"
  have inv': "kcp_inv k'" unfolding k'_def using assms(1) by (rule kcp_inv_flush)
  have "n \<le> length (k_snd_buf k')"
    using list_all2_lengthD [OF n(4)] n(2) by (simp add: k'_def)
  also have "\<dots> \<le> unat (k_snd_wnd k')"
    using serial_length [OF kcp_invD(3) [OF inv']] kcp_invD(4) [OF inv'] by simp
  finally have small: "n < 2 ^ 31" using kcp_invD(5) [OF inv'] by simp
  then have "unat (of_nat n :: u32) = n" by (intro unat_of_nat_u32) simp
  then have "flushed k k' = map s_data (take n (k_snd_queue k))"
    using n(5) by (simp add: flushed_def k'_def)
  with n small show thesis
    by (intro that [of "take n (k_snd_queue k)" "drop n (k_snd_queue k)" new])
      (simp_all add: k'_def min_absorb2)
qed

text \<open>The new segments of a flush, and the whole send buffer after it, against the longer log.\<close>

lemma new_segs:
  assumes "unat nxt = length lg" "length (lg @ map s_data q) < 2 ^ 31" "length new = length q"
    and "\<forall>i < length q. sent_as k (nxt + of_nat i) (q ! i) (new ! i)"
    and "\<forall>s \<in> set q. seg_wf mss s"
  shows "idx ` set new = {length lg..<length lg + length q}"
    "s \<in> set new \<Longrightarrow> push_seg (k_conv k) (lg @ map s_data q) s"
proof -
  have new: "data_seg (lg @ map s_data q) (new ! i)" "idx (new ! i) = length lg + i"
    if "i < length q" for i
    using data_seg_new [OF assms(1,2) that, of k "new ! i" mss] assms(4,5) that by auto
  have "map idx new = [length lg..<length lg + length q]"
    using assms(3) new(2) by (intro nth_equalityI) auto
  from arg_cong [OF this, of set] show "idx ` set new = {length lg..<length lg + length q}"
    by simp
  show "push_seg (k_conv k) (lg @ map s_data q) s" if s: "s \<in> set new"
  proof -
    obtain i where "i < length q" "s = new ! i"
      using s assms(3) by (auto simp: in_set_conv_nth)
    then show ?thesis using new assms(4) by (auto simp: sent_as_def push_seg_def)
  qed
qed

lemma sims_log:
  "list_all2 seg_sim xs ys \<Longrightarrow> list_all (push_seg conv lg) xs \<Longrightarrow> list_all (push_seg conv lg) ys"
  by (induction rule: list_all2_induct) (auto intro: push_seg_sim)

lemma flush_log:
  assumes "kcp_inv k" "snd_log conv lg k sent"
  defines "k' \<equiv> fst (ikcp_flush k)"
  defines "lg' \<equiv> lg @ flushed k k'"
  assumes "length lg' < 2 ^ 31"
  shows "snd_log conv lg' k' sent \<and> recvd k' = recvd k \<and> k_rcv_nxt k' = k_rcv_nxt k \<and>
    (rcv_log lgy k got \<longrightarrow> rcv_log lgy k' got) \<and>
    idx ` set (k_snd_buf k') = idx ` set (k_snd_buf k) \<union> {length lg..<length lg'} \<and>
    (lg_ok lg \<longrightarrow> lg_ok lg')"
proof (cases "k_updated k = 0")
  case True
  then have "k' = k" "lg' = lg" by (simp_all add: k'_def lg'_def ikcp_flush_def flushed_def)
  then show ?thesis using assms(2) by simp
next
  case False
  obtain q rest new where q: "k_snd_queue k = q @ rest" "k_snd_queue k' = rest"
    "flushed k k' = map s_data q" "length new = length q"
    "k_snd_nxt k' = k_snd_nxt k + of_nat (length q)" "length q < 2 ^ 31"
    "list_all2 seg_sim (k_snd_buf k @ new) (k_snd_buf k')"
    "\<forall>i < length q. sent_as k (k_snd_nxt k + of_nat i) (q ! i) (new ! i)"
    "k_conv k' = k_conv k" "k_rcv_nxt k' = k_rcv_nxt k" "k_rcv_buf k' = k_rcv_buf k"
    "k_rcv_queue k' = k_rcv_queue k" "k_acklist k' = k_acklist k"
    unfolding k'_def using assms(1) False by (rule flushed_run)
  have lg': "lg' = lg @ map s_data q" by (simp add: lg'_def q(3))
  have nxt: "unat (k_snd_nxt k) = length lg"
    using assms(2) by (simp add: snd_log_def)
  have wf: "\<forall>s \<in> set q. seg_wf (k_mss k) s"
    using kcp_invD(8) [OF assms(1)] q(1) by (simp add: list_all_iff)
  note new = new_segs [OF nxt assms(5) [unfolded lg'] q(4,8) wf, folded lg']
  have buf: "list_all (push_seg conv lg') (k_snd_buf k')"
    using snd_log_members [OF assms(2)] data_seg_append [of lg _ "map s_data q"] new(2) assms(2)
    by (intro sims_log [OF q(7)]) (auto simp: lg' snd_log_def push_seg_def list_all_iff)
  have "unat (of_nat (length q) :: u32) = length q"
    using q(6) by (intro unat_of_nat_u32) simp
  then have "unat (k_snd_nxt k') = length lg'"
    using nxt assms(5) by (simp add: q(5) lg' unat_plus_if')
  then have "snd_log conv lg' k' sent"
    using assms(2) buf q by (simp add: snd_log_def lg' stream_of_def recvd_def)
  moreover have "lg_ok lg \<longrightarrow> lg_ok lg'"
    using assms(5) wf mss_okD(3) [OF params_ok_mss(1) [OF kcp_invD(1) [OF assms(1)]]]
    by (auto simp: lg_ok_def lg' seg_wf_def dest: le_less_trans)
  ultimately show ?thesis
    using seg_sims_image [OF q(7)] new(1) q
    by (simp add: rcv_log_def recvd_def image_Un lg')
qed


subsection \<open>Receiving packets\<close>

lemma decode_wire:
  assumes "wire_seg conv lg k s"
  obtains t where "ikcp_decode_seg (wire s @ r) = Some (t, s_data s @ r)" "s_conv t = s_conv s"
    "s_len t = s_len s" "wire_seg conv lg k (t\<lparr>s_data := s_data s\<rparr>)"
proof -
  define t where "t = \<lparr>s_conv = s_conv s, s_cmd = ucast (ucast (s_cmd s) :: u8),
    s_frg = ucast (ucast (s_frg s) :: u8), s_wnd = ucast (ucast (s_wnd s) :: u16), s_ts = s_ts s,
    s_sn = s_sn s, s_una = s_una s, s_len = s_len s, s_resendts = 0, s_rto = 0, s_fastack = 0,
    s_xmit = 0, s_data = []\<rparr>"
  have "ikcp_decode_seg (wire s @ r) = Some (t, s_data s @ r)"
    by (simp add: ikcp_decode_seg_def wire_def ikcp_encode_seg_def t_def)
  moreover have "s_cmd t = s_cmd s" "s_frg t = s_frg s"
    using assms by (auto simp: t_def wire_seg_def data_seg_def ikcp_consts)
  ultimately show thesis
    using that [of t] assms by (simp add: t_def wire_seg_def data_seg_def idx_def)
qed

definition ep_ok :: "u32 \<Rightarrow> bytes list \<Rightarrow> bytes list \<Rightarrow> ikcpcb \<Rightarrow> bytes \<Rightarrow> bytes \<Rightarrow> ikcpcb \<Rightarrow> ikcpcb \<Rightarrow> bool" where
  "ep_ok conv lgo lgi ky sent got k0 k \<longleftrightarrow> kcp_inv k \<and> snd_log conv lgo k sent \<and> rcv_log lgi k got \<and>
     recvd k0 \<subseteq> recvd k \<and> unat (k_rcv_nxt k0) \<le> unat (k_rcv_nxt k) \<and> covered lgo k ky"

lemma itimediff_small:
  "unat a < 2 ^ 31 \<Longrightarrow> unat b < 2 ^ 31 \<Longrightarrow> itimediff a b = int (unat a) - int (unat b)"
  using itimediff_offs [of 0 a b] by (simp add: offs_def)

lemma itimediff_small_iff:
  assumes "unat a < 2 ^ 31" "unat b < 2 ^ 31"
  shows "itimediff a b > 0 \<longleftrightarrow> unat b < unat a" "itimediff a b < 0 \<longleftrightarrow> unat a < unat b"
  using itimediff_small [OF assms] by linarith+

text \<open>Dropping segments the peer has received.\<close>

lemma shrink_log:
  assumes "ep_ok conv lgo lgi ky sent got k0 k" "set buf \<subseteq> set (k_snd_buf k)"
    and "idx ` (set (k_snd_buf k) - set buf) \<subseteq> recvd ky"
    and "k' = ikcp_shrink_buf (k\<lparr>k_snd_buf := buf, k_nsnd_buf := c\<rparr>)" "kcp_inv k'"
  shows "ep_ok conv lgo lgi ky sent got k0 k'"
proof -
  have "{..<length lgo} \<subseteq> idx ` set (k_snd_buf k) \<union> recvd ky"
    using assms(1) by (simp add: ep_ok_def covered_def)
  also have "\<dots> \<subseteq> idx ` set buf \<union> recvd ky"
    using assms(3) by blast
  finally have "{..<length lgo} \<subseteq> idx ` set buf \<union> recvd ky" .
  then show ?thesis
    using assms(1,2,5) unfolding assms(4) ikcp_shrink_buf_first
    by (auto simp: ep_ok_def snd_log_def covered_def rcv_log_def list_all_iff)
qed

lemma parse_una_log:
  assumes "ep_ok conv lgo lgi ky sent got k0 k" "unat una \<le> unat (k_rcv_nxt ky)"
    and "unat (k_rcv_nxt ky) \<le> length lgo" "lg_ok lgo"
  shows "ep_ok conv lgo lgi ky sent got k0 (ikcp_shrink_buf (ikcp_parse_una k una))"
proof -
  let ?P = "\<lambda>s. itimediff una (s_sn s) > 0"
  have snd: "snd_log conv lgo k sent" and inv: "kcp_inv k"
    using assms(1) by (auto simp: ep_ok_def)
  have "idx s \<in> recvd ky" if "s \<in> set (takeWhile ?P (k_snd_buf k))" for s
  proof -
    have "?P s" "push_seg conv lgo s"
      using that snd_log_members [OF snd] by (auto dest: set_takeWhileD)
    then show ?thesis
      using assms(2-4) itimediff_small_iff(1) [of una "s_sn s"]
      by (auto simp: recvd_def push_seg_def data_seg_def idx_def lg_ok_def)
  qed
  moreover have "set (k_snd_buf k) - set (dropWhile ?P (k_snd_buf k)) \<subseteq> set (takeWhile ?P (k_snd_buf k))"
    by (metis Diff_subset_conv Un_commute order_refl set_append takeWhile_dropWhile_id)
  ultimately have "idx ` (set (k_snd_buf k) - set (dropWhile ?P (k_snd_buf k))) \<subseteq> recvd ky"
    by blast
  then show ?thesis
    using kcp_inv_parse_una [OF inv, of una] unfolding ikcp_parse_una_eq
    by (intro shrink_log [OF assms(1) _ _ refl]) (auto dest: set_dropWhileD)
qed

lemma parse_ack_log:
  assumes "ep_ok conv lgo lgi ky sent got k0 k" "unat sn \<in> recvd ky"
  shows "ep_ok conv lgo lgi ky sent got k0 (ikcp_shrink_buf (ikcp_parse_ack k sn))"
proof -
  obtain r n where rn: "parse_ack_loop sn (k_snd_buf k) = (r, n)" by fastforce
  have inv: "kcp_inv k" using assms(1) by (simp add: ep_ok_def)
  have r: "set r \<subseteq> set (k_snd_buf k)" "idx ` (set (k_snd_buf k) - set r) \<subseteq> recvd ky"
    using parse_ack_loop_char [OF rn] assms(2) by (auto simp: idx_def)
  show ?thesis
  proof (cases "itimediff sn (k_snd_una k) < 0 \<or> itimediff sn (k_snd_nxt k) \<ge> 0")
    case True
    then show ?thesis
      using kcp_inv_parse_ack [OF inv, of sn]
      by (intro shrink_log [OF assms(1), where buf = "k_snd_buf k" and c = "k_nsnd_buf k"])
        (simp_all add: ikcp_parse_ack_def)
  next
    case False
    then show ?thesis
      using kcp_inv_parse_ack [OF inv, of sn] r
      by (intro shrink_log [OF assms(1) r]) (simp_all add: ikcp_parse_ack_def rn)
  qed
qed

lemma ep_ok_update_ack: "ep_ok conv lgo lgi ky sent got k0 k \<Longrightarrow>
  ep_ok conv lgo lgi ky sent got k0 (ikcp_update_ack k rtt)"
  by (simp add: ep_ok_def snd_log_def rcv_log_def covered_def recvd_def)

lemma ep_ok_other [simp]:
  "ep_ok conv lgo lgi ky sent got k0 (k\<lparr>k_rmt_wnd := c\<rparr>) = ep_ok conv lgo lgi ky sent got k0 k"
  "ep_ok conv lgo lgi ky sent got k0 (k\<lparr>k_probe := c\<rparr>) = ep_ok conv lgo lgi ky sent got k0 k"
  "ep_ok conv lgo lgi ky sent got k0 (k\<lparr>k_cwnd := c\<rparr>) = ep_ok conv lgo lgi ky sent got k0 k"
  "ep_ok conv lgo lgi ky sent got k0 (k\<lparr>k_incr := c\<rparr>) = ep_ok conv lgo lgi ky sent got k0 k"
  by (simp_all add: ep_ok_def snd_log_def rcv_log_def covered_def recvd_def)


text \<open>A data segment of the peer.\<close>

lemma insert_tail_recvd:
  assumes "k1 = (case insert_tail s (rev (k_rcv_buf k)) of None \<Rightarrow> k
      | Some r \<Rightarrow> k\<lparr>k_rcv_buf := rev r, k_nrcv_buf := k_nrcv_buf k + 1\<rparr>)"
  shows "recvd k1 = insert (idx s) (recvd k)"
    "data_seg lg s \<Longrightarrow> rcv_log lg k got \<Longrightarrow> rcv_log lg k1 got"
proof -
  have "recvd k1 = insert (idx s) (recvd k) \<and> (data_seg lg s \<longrightarrow> rcv_log lg k got \<longrightarrow> rcv_log lg k1 got)"
  proof (cases "insert_tail s (rev (k_rcv_buf k))")
    case None
    then show ?thesis
      using insert_tail_None [OF None] assms by (auto simp: recvd_def idx_def)
  next
    case (Some r)
    then show ?thesis
      using insert_tail_set [OF Some] assms by (auto simp: recvd_def rcv_log_def list_all_iff)
  qed
  then show "recvd k1 = insert (idx s) (recvd k)"
    "data_seg lg s \<Longrightarrow> rcv_log lg k got \<Longrightarrow> rcv_log lg k1 got" by auto
qed

lemma parse_data_log:
  assumes "rcv_log lgi k got" "lg_ok lgi" "data_seg lgi s"
    and "itimediff (s_sn s) (k_rcv_nxt k + k_rcv_wnd k) < 0" "itimediff (s_sn s) (k_rcv_nxt k) \<ge> 0"
  defines "k' \<equiv> ikcp_parse_data k s"
  shows "rcv_log lgi k' got \<and> recvd k' = insert (idx s) (recvd k) \<and>
    unat (k_rcv_nxt k) \<le> unat (k_rcv_nxt k') \<and> k_conv k' = k_conv k \<and> k_snd_nxt k' = k_snd_nxt k \<and>
    k_snd_buf k' = k_snd_buf k \<and> k_snd_queue k' = k_snd_queue k \<and> k_acklist k' = k_acklist k"
proof -
  define k1 where "k1 = (case insert_tail s (rev (k_rcv_buf k)) of None \<Rightarrow> k
      | Some r \<Rightarrow> k\<lparr>k_rcv_buf := rev r, k_nrcv_buf := k_nrcv_buf k + 1\<rparr>)"
  have k': "k' = rcv_move (k_rcv_buf k1) k1"
    using assms(4,5) by (simp add: k'_def ikcp_parse_data_def Let_def flip: k1_def)
  have frame: "k_rcv_nxt k1 = k_rcv_nxt k" "k_conv k1 = k_conv k" "k_snd_nxt k1 = k_snd_nxt k"
    "k_snd_buf k1 = k_snd_buf k" "k_snd_queue k1 = k_snd_queue k" "k_acklist k1 = k_acklist k"
    by (simp_all add: k1_def split: option.split)
  note ins = insert_tail_recvd [OF k1_def]
  obtain n where n: "n \<le> length (k_rcv_buf k1)" "k' = rcv_shift n k1"
    "\<forall>i < n. s_sn (k_rcv_buf k1 ! i) = k_rcv_nxt k1 + of_nat i"
    unfolding k' by (rule rcv_move_shift) blast
  have "rcv_log lgi k1 got" using ins(2) assms(1,3) by blast
  note sh = rcv_shift_log [OF this assms(2) n(1,3)]
  show ?thesis
    using sh ins(1) frame unfolding n(2) by (simp add: rcv_shift_def)
qed

lemma push_log:
  assumes "ep_ok conv lgo lgi ky sent got k0 k" "lg_ok lgi" "data_seg lgi s"
    and "itimediff (s_sn s) (k_rcv_nxt k + k_rcv_wnd k) < 0"
    and "ikcp_ack_push mem k (s_sn s) ts = Some k1" "seg_counted s"
    and "k2 = (if itimediff (s_sn s) (k_rcv_nxt k1) \<ge> 0 then ikcp_parse_data k1 s else k1)"
  shows "ep_ok conv lgo lgi ky sent got k0 k2"
proof -
  obtain b where k1: "k1 = k\<lparr>k_ackblock := b,
      k_acklist := take (unat (k_ackcount k)) (k_acklist k) @ [(s_sn s, ts)],
      k_ackcount := k_ackcount k + 1\<rparr>"
    using assms(5) by (rule ikcp_ack_push_Some)
  have ok: "kcp_inv k" "snd_log conv lgo k sent" "rcv_log lgi k got" "covered lgo k ky"
    "recvd k0 \<subseteq> recvd k" "unat (k_rcv_nxt k0) \<le> unat (k_rcv_nxt k)"
    using assms(1) by (auto simp: ep_ok_def)
  have inv1: "kcp_inv k1" using kcp_inv_ack_push [OF ok(1) assms(5)] .
  have rcv1: "rcv_log lgi k1 got" using ok(3) by (simp add: k1 rcv_log_def)
  have acks: "\<forall>a \<in> set (k_acklist k1). unat (fst a) \<in> insert (idx s) (recvd k)"
    using ok(2) by (auto simp: k1 snd_log_def idx_def dest: in_set_takeD)
  show ?thesis
  proof (cases "itimediff (s_sn s) (k_rcv_nxt k1) \<ge> 0")
    case True
    have pd: "rcv_log lgi k2 got \<and> recvd k2 = insert (idx s) (recvd k1) \<and>
      unat (k_rcv_nxt k1) \<le> unat (k_rcv_nxt k2) \<and> k_conv k2 = k_conv k1 \<and> k_snd_nxt k2 = k_snd_nxt k1 \<and>
      k_snd_buf k2 = k_snd_buf k1 \<and> k_snd_queue k2 = k_snd_queue k1 \<and> k_acklist k2 = k_acklist k1"
      using parse_data_log [OF rcv1 assms(2,3)] True assms(4,7) by (simp add: k1)
    have "kcp_inv k2"
      using kcp_inv_parse_data [OF inv1 assms(6)] True assms(7) by simp
    moreover have "snd_log conv lgo k2 sent"
      using ok(2) pd acks by (simp add: snd_log_def k1)
    ultimately show ?thesis
      using pd ok by (auto simp: ep_ok_def covered_def k1)
  next
    case False
    have "unat (s_sn s) < 2 ^ 31" "unat (k_rcv_nxt k) < 2 ^ 31"
      using assms(2,3) ok(3) by (auto simp: lg_ok_def data_seg_def idx_def rcv_log_def)
    with False have "idx s \<in> recvd k"
      using itimediff_small_iff(2) [of "s_sn s" "k_rcv_nxt k"] by (simp add: recvd_def idx_def k1)
    with acks have "snd_log conv lgo k1 sent"
      using ok(2) by (auto simp: snd_log_def k1)
    then show ?thesis
      using False assms(7) ok inv1 rcv1 by (simp add: ep_ok_def covered_def k1)
  qed
qed


lemma input_segment_log:
  assumes "ep_ok conv lgo lgi ky sent got k0 k" "wire_seg conv lgi ky s" "lg_ok lgi" "lg_ok lgo"
    and "unat (k_rcv_nxt ky) \<le> length lgo" "input_segment mem s k seen = Some (k', seen')"
  shows "ep_ok conv lgo lgi ky sent got k0 k'"
proof -
  define k1 where "k1 = ikcp_shrink_buf (ikcp_parse_una (k\<lparr>k_rmt_wnd := s_wnd s\<rparr>) (s_una s))"
  have k1: "ep_ok conv lgo lgi ky sent got k0 k1"
    using assms(1,2,4,5) unfolding k1_def
    by (intro parse_una_log) (auto simp: wire_seg_def)
  note step = assms(6) [unfolded input_segment_def Let_def k1_def [symmetric]]
  consider "s_cmd s = IKCP_CMD_ACK" "unat (s_sn s) \<in> recvd ky"
    | "s_cmd s = IKCP_CMD_PUSH" "data_seg lgi s"
    | "s_cmd s = IKCP_CMD_WASK" | "s_cmd s = IKCP_CMD_WINS"
    using assms(2) by (auto simp: wire_seg_def idx_def)
  then show ?thesis
  proof cases
    case 1
    then show ?thesis
      using step k1 parse_ack_log ep_ok_update_ack by (auto split: if_splits)
  next
    case 2
    then have cnt: "seg_counted s"
      using assms(3) by (auto simp: seg_counted_def data_seg_def lg_ok_def dest!: nth_mem)
    show ?thesis
    proof (cases "itimediff (s_sn s) (k_rcv_nxt k1 + k_rcv_wnd k1) < 0")
      case True
      obtain k2 where "ikcp_ack_push mem k1 (s_sn s) (s_ts s) = Some k2"
        "(if itimediff (s_sn s) (k_rcv_nxt k2) \<ge> 0
          then if mem (unat (s_len s)) then Some (ikcp_parse_data k2 s, seen) else None
          else Some (k2, seen)) = Some (k', seen')"
        using step 2(1) True by (auto simp: ikcp_consts bind_eq_Some_conv)
      then have "ikcp_ack_push mem k1 (s_sn s) (s_ts s) = Some k2"
        "k' = (if itimediff (s_sn s) (k_rcv_nxt k2) \<ge> 0 then ikcp_parse_data k2 s else k2)"
        by (auto split: if_splits)
      with push_log [OF k1 assms(3) 2(2) True] cnt show ?thesis by blast
    qed (use step 2 k1 in \<open>simp add: ikcp_consts\<close>)
  qed (use step k1 in \<open>auto simp: ikcp_consts\<close>)
qed

lemma wire_seg_len:
  assumes "wire_seg conv lg k s" "lg_ok lg"
  shows "unat (s_len s) = length (s_data s)"
proof -
  consider "data_seg lg s" | "s_data s = []" "s_len s = 0"
    using assms(1) unfolding wire_seg_def by blast
  then show ?thesis
  proof cases
    case 1
    then have mem: "s_data s \<in> set lg" and len: "s_len s = of_nat (length (s_data s))"
      by (simp_all add: data_seg_def)
    from mem have "length (s_data s) < 2 ^ 16"
      using assms(2) unfolding lg_ok_def by blast
    then show ?thesis unfolding len by (intro unat_of_nat_u32) simp
  qed simp
qed

text \<open>The first segment of a packet, as the input loop reads it.\<close>

lemma wire_head:
  assumes "wire_pkt conv lg k data" "ikcp_decode_seg data = Some (seg, rest)" "lg_ok lg"
  shows "wire_seg conv lg k (seg\<lparr>s_data := take (unat (s_len seg)) rest\<rparr>)"
    "wire_pkt conv lg k (drop (unat (s_len seg)) rest)"
proof -
  obtain ss where ss: "data = concat (map wire ss)" "list_all (wire_seg conv lg k) ss"
    using assms(1) by (auto simp: wire_pkt_def)
  obtain s ss' where s: "ss = s # ss'"
    using ikcp_decode_seg_Some [OF assms(2)] ss(1) by (cases ss) auto
  have ws: "wire_seg conv lg k s" and ws': "list_all (wire_seg conv lg k) ss'"
    using ss(2) s by simp_all
  obtain t where t: "ikcp_decode_seg (wire s @ concat (map wire ss')) = Some (t, s_data s @ concat (map wire ss'))"
    "s_len t = s_len s" "wire_seg conv lg k (t\<lparr>s_data := s_data s\<rparr>)"
    using decode_wire [OF ws, of "concat (map wire ss')"] by blast
  have eq: "seg = t" "rest = s_data s @ concat (map wire ss')"
    using assms(2) t(1) ss(1) s by simp_all
  have "unat (s_len s) = length (s_data s)"
    using ws assms(3) by (rule wire_seg_len)
  then show "wire_seg conv lg k (seg\<lparr>s_data := take (unat (s_len seg)) rest\<rparr>)"
    "wire_pkt conv lg k (drop (unat (s_len seg)) rest)"
    using t(2,3) ws' unfolding eq wire_pkt_def by auto
qed

lemma input_log:
  assumes "ep_ok conv lgo lgi ky sent got k0 k" "wire_pkt conv lgi ky p" "lg_ok lgi" "lg_ok lgo"
    and "unat (k_rcv_nxt ky) \<le> length lgo" "ikcp_input_loop mem p k seen = Some (r, k', seen')"
  shows "ep_ok conv lgo lgi ky sent got k0 k'"
proof -
  let ?P = "\<lambda>p k. wire_pkt conv lgi ky p \<and> ep_ok conv lgo lgi ky sent got k0 k"
  have "\<exists>p'. ?P p' k'"
    using assms(6)
  proof (rule ikcp_input_loop_invariant [where P = ?P])
    fix data k seen seg rest k1 seen1
    assume P: "?P data k" and dec: "ikcp_decode_seg data = Some (seg, rest)"
      and step: "input_segment mem (seg\<lparr>s_data := take (unat (s_len seg)) rest\<rparr>) k seen = Some (k1, seen1)"
    note head = wire_head [OF conjunct1 [OF P] dec assms(3)]
    show "?P (drop (unat (s_len seg)) rest) k1"
      using head(2) input_segment_log [OF conjunct2 [OF P] head(1) assms(3-5) step] by blast
  qed (use assms(1,2) in blast)
  then show ?thesis by blast
qed

lemma ep_ok_fastack:
  assumes "ep_ok conv lgo lgi ky sent got k0 k"
  shows "ep_ok conv lgo lgi ky sent got k0 (ikcp_parse_fastack k sn ts)"
proof -
  have "kcp_inv (k\<lparr>k_snd_buf := parse_fastack_loop sn ts (k_snd_buf k)\<rparr>)"
    using assms by (intro kcp_inv_sim parse_fastack_loop_sim) (simp add: ep_ok_def)
  moreover have "list_all (push_seg conv lgo) (parse_fastack_loop sn ts (k_snd_buf k))"
    using assms by (intro sims_log [OF parse_fastack_loop_sim]) (simp add: ep_ok_def snd_log_def)
  ultimately show ?thesis
    using assms seg_sims_image [OF parse_fastack_loop_sim [of "k_snd_buf k" sn ts]]
    by (simp add: ikcp_parse_fastack_def ep_ok_def snd_log_def rcv_log_def covered_def)
qed

lemma ep_ok_cwnd: "ep_ok conv lgo lgi ky sent got k0 k \<Longrightarrow> ep_ok conv lgo lgi ky sent got k0 (input_cwnd k)"
  by (simp add: input_cwnd_def Let_def)

lemma ikcp_input_log:
  assumes "ep_ok conv lgo lgi ky sent got k0 k" "wire_pkt conv lgi ky p" "lg_ok lgi" "lg_ok lgo"
    and "unat (k_rcv_nxt ky) \<le> length lgo" "ikcp_input mem k p = Some (r, k')"
  shows "ep_ok conv lgo lgi ky sent got k0 k'"
  using assms(6)
proof (cases rule: ikcp_input_cases)
  case (2 k1 seen)
  then show ?thesis using input_log [OF assms(1-5)] by blast
next
  case (3 k1 seen r1 k2)
  then show ?thesis using input_log [OF assms(1-5) 3(1)] ep_ok_fastack ep_ok_cwnd by metis
qed (use assms in simp)

end
