(* ===== verification/Ikcp_Link.thy ===== *)
theory Ikcp_Link
  imports Ikcp_Wire
begin

text \<open>
  Two KCP ends over a network that loses, duplicates and reorders packets, as a step relation. The
  invariant couples the control blocks, the packets under way and the byte streams of the two
  applications; it gives that what an application receives is a prefix of what the other sent, and
  all of it once the sender has nothing left in its queues.
\<close>

subsection \<open>Two ends and a network\<close>

datatype side = Client | Server

fun peer :: "side \<Rightarrow> side" where
  "peer Client = Server"
| "peer Server = Client"

lemma peer_peer [simp]: "peer (peer x) = x"
  by (cases x) auto

lemma peer_neq [simp]: "peer x \<noteq> x" "x \<noteq> peer x"
  by (cases x; simp)+

lemma side_cases: "y = x \<or> y = peer x"
  by (cases x; cases y) auto

text \<open>
  The two control blocks, every packet each side has put on the network, the bytes each
  application has sent and received, and the history of the segments each side has sent off.
\<close>

record link =
  l_ep :: "side \<Rightarrow> ikcpcb"
  l_net :: "side \<Rightarrow> bytes list"
  l_sent :: "side \<Rightarrow> bytes"
  l_got :: "side \<Rightarrow> bytes"
  l_log :: "side \<Rightarrow> bytes list"

definition kcp_fresh :: "u32 \<Rightarrow> ikcpcb \<Rightarrow> bool" where
  "kcp_fresh conv k \<longleftrightarrow> kcp_inv k \<and> k_conv k = conv \<and> k_snd_nxt k = 0 \<and> k_rcv_nxt k = 0 \<and>
     k_snd_queue k = [] \<and> k_snd_buf k = [] \<and> k_rcv_queue k = [] \<and> k_rcv_buf k = [] \<and> k_acklist k = []"

definition link_start :: "ikcpcb \<Rightarrow> ikcpcb \<Rightarrow> link" where
  "link_start kc ks = \<lparr>l_ep = (\<lambda>x. case x of Client \<Rightarrow> kc | Server \<Rightarrow> ks), l_net = (\<lambda>_. []),
     l_sent = (\<lambda>_. []), l_got = (\<lambda>_. []), l_log = (\<lambda>_. [])\<rparr>"

text \<open>
  One step of one side. A packet that was sent may be delivered at any later time, any number of
  times and in any order, or never: the network loses, duplicates and reorders.
\<close>

inductive link_step :: "link \<Rightarrow> link \<Rightarrow> bool" where
  app_send: "ikcp_send alloc (l_ep S x) b (int (length b)) = (r, k) \<Longrightarrow> r \<ge> 0 \<Longrightarrow>
    int (length b) < 2 ^ 31 \<Longrightarrow>
    link_step S (S\<lparr>l_ep := (l_ep S)(x := k), l_sent := (l_sent S)(x := l_sent S x @ take (nat r) b)\<rparr>)"
| app_recv: "ikcp_recv (l_ep S x) len = (r, d, k) \<Longrightarrow> r \<ge> 0 \<Longrightarrow> len \<ge> 0 \<Longrightarrow>
    link_step S (S\<lparr>l_ep := (l_ep S)(x := k), l_got := (l_got S)(x := l_got S x @ d)\<rparr>)"
| flush: "ikcp_flush (l_ep S x) = (k, pkts) \<Longrightarrow>
    link_step S (S\<lparr>l_ep := (l_ep S)(x := k), l_net := (l_net S)(x := l_net S x @ pkts),
      l_log := (l_log S)(x := l_log S x @ flushed (l_ep S x) k)\<rparr>)"
| update: "ikcp_update (l_ep S x) now = (k, pkts) \<Longrightarrow>
    link_step S (S\<lparr>l_ep := (l_ep S)(x := k), l_net := (l_net S)(x := l_net S x @ pkts),
      l_log := (l_log S)(x := l_log S x @ flushed (l_ep S x) k)\<rparr>)"
| deliver: "p \<in> set (l_net S (peer x)) \<Longrightarrow> ikcp_input mem (l_ep S x) p = Some (r, k) \<Longrightarrow>
    link_step S (S\<lparr>l_ep := (l_ep S)(x := k)\<rparr>)"

inductive link_reach :: "link \<Rightarrow> link \<Rightarrow> bool" for S0 where
  start: "link_reach S0 S0"
| step: "link_reach S0 S \<Longrightarrow> link_step S T \<Longrightarrow> link_reach S0 T"

definition link_inv :: "u32 \<Rightarrow> link \<Rightarrow> bool" where
  "link_inv conv S \<longleftrightarrow> (\<forall>x. kcp_inv (l_ep S x) \<and> snd_log conv (l_log S x) (l_ep S x) (l_sent S x) \<and>
     rcv_log (l_log S (peer x)) (l_ep S x) (l_got S x) \<and>
     covered (l_log S x) (l_ep S x) (l_ep S (peer x)) \<and>
     (\<forall>p \<in> set (l_net S x). wire_pkt conv (l_log S x) (l_ep S x) p) \<and> lg_ok (l_log S x))"

lemma link_inv_start:
  "kcp_fresh conv kc \<Longrightarrow> kcp_fresh conv ks \<Longrightarrow> link_inv conv (link_start kc ks)"
  by (auto simp: link_inv_def link_start_def kcp_fresh_def snd_log_def rcv_log_def covered_def lg_ok_def
      split: side.splits)

lemma rcv_log_append: "rcv_log lg k got \<Longrightarrow> rcv_log (lg @ ds) k got"
  by (auto simp: rcv_log_def list_all_iff data_seg_append)

text \<open>Any step of one side that keeps that side's part of the invariant keeps the whole.\<close>

lemma link_inv_side:
  assumes "link_inv conv S" "kcp_inv k" "snd_log conv lg k sent" "lg = l_log S x @ ds" "lg_ok lg"
    and "rcv_log (l_log S (peer x)) k got" "covered lg k (l_ep S (peer x))"
    and "recvd (l_ep S x) \<subseteq> recvd k" "unat (k_rcv_nxt (l_ep S x)) \<le> unat (k_rcv_nxt k)"
    and "\<forall>p \<in> set pkts. wire_pkt conv lg k p"
  shows "link_inv conv (S\<lparr>l_ep := (l_ep S)(x := k), l_net := (l_net S)(x := l_net S x @ pkts),
    l_sent := (l_sent S)(x := sent), l_got := (l_got S)(x := got), l_log := (l_log S)(x := lg)\<rparr>)"
    (is "link_inv conv ?S")
  unfolding link_inv_def
proof
  fix y
  have inv: "snd_log conv (l_log S (peer x)) (l_ep S (peer x)) (l_sent S (peer x))"
    "rcv_log (l_log S x) (l_ep S (peer x)) (l_got S (peer x))"
    "covered (l_log S (peer x)) (l_ep S (peer x)) (l_ep S x)"
    "\<forall>p \<in> set (l_net S x). wire_pkt conv (l_log S x) (l_ep S x) p"
    "\<forall>p \<in> set (l_net S (peer x)). wire_pkt conv (l_log S (peer x)) (l_ep S (peer x)) p"
    "kcp_inv (l_ep S (peer x))" "lg_ok (l_log S (peer x))"
    using assms(1) unfolding link_inv_def by (metis peer_peer)+
  have old: "\<forall>p \<in> set (l_net S x). wire_pkt conv lg k p"
    using inv(4) wire_pkt_mono [OF _ assms(8,9)] assms(4) by (meson prefixI)
  have rcv: "rcv_log lg (l_ep S (peer x)) (l_got S (peer x))"
    unfolding assms(4) using inv(2) by (rule rcv_log_append)
  have cov: "covered (l_log S (peer x)) (l_ep S (peer x)) k"
    using inv(3) assms(8) unfolding covered_def by blast
  from side_cases [of y x] show "kcp_inv (l_ep ?S y) \<and> snd_log conv (l_log ?S y) (l_ep ?S y) (l_sent ?S y) \<and>
     rcv_log (l_log ?S (peer y)) (l_ep ?S y) (l_got ?S y) \<and>
     covered (l_log ?S y) (l_ep ?S y) (l_ep ?S (peer y)) \<and>
     (\<forall>p \<in> set (l_net ?S y). wire_pkt conv (l_log ?S y) (l_ep ?S y) p) \<and> lg_ok (l_log ?S y)"
  proof
    assume "y = x"
    then show ?thesis using assms(2-7,10) old by auto
  next
    assume "y = peer x"
    then show ?thesis using inv rcv cov by simp
  qed
qed


lemma link_invD:
  assumes "link_inv conv S"
  shows "kcp_inv (l_ep S x)" "snd_log conv (l_log S x) (l_ep S x) (l_sent S x)"
    "rcv_log (l_log S (peer x)) (l_ep S x) (l_got S x)"
    "covered (l_log S x) (l_ep S x) (l_ep S (peer x))"
    "p \<in> set (l_net S x) \<Longrightarrow> wire_pkt conv (l_log S x) (l_ep S x) p" "lg_ok (l_log S x)"
  using assms unfolding link_inv_def by blast+

lemma covered_grow:
  assumes "covered lg kx ky" "idx ` set (k_snd_buf kx') = idx ` set (k_snd_buf kx) \<union> {length lg..<length lg'}"
  shows "covered lg' kx' ky"
proof -
  have "{..<length lg'} \<subseteq> {..<length lg} \<union> {length lg..<length lg'}" by auto
  then show ?thesis using assms unfolding covered_def by blast
qed

text \<open>Steps that do not extend the log.\<close>

lemma link_inv_same_log:
  assumes "link_inv conv S" "kcp_inv k" "snd_log conv (l_log S x) k sent"
    and "rcv_log (l_log S (peer x)) k got" "covered (l_log S x) k (l_ep S (peer x))"
    and "recvd (l_ep S x) \<subseteq> recvd k" "unat (k_rcv_nxt (l_ep S x)) \<le> unat (k_rcv_nxt k)"
  shows "link_inv conv (S\<lparr>l_ep := (l_ep S)(x := k), l_sent := (l_sent S)(x := sent),
    l_got := (l_got S)(x := got)\<rparr>)"
  using link_inv_side [OF assms(1-3) _ link_invD(6) [OF assms(1)] assms(4-7), of "[]" "[]"] by simp

lemma link_inv_send:
  assumes "link_inv conv S" "ikcp_send alloc (l_ep S x) b (int (length b)) = (r, k)" "r \<ge> 0"
    and "int (length b) < 2 ^ 31"
  shows "link_inv conv (S\<lparr>l_ep := (l_ep S)(x := k), l_sent := (l_sent S)(x := l_sent S x @ take (nat r) b)\<rparr>)"
proof -
  note inv = link_invD [OF assms(1), where x = x]
  have "send_post (l_ep S x) b (r, k)"
    using ikcp_send_stream [OF params_ok_mss(1) [OF kcp_invD(1) [OF inv(1)]] kcp_invD(16,8) [OF inv(1)] assms(4), of alloc]
    by (simp add: assms(2))
  then obtain q c j where k: "k = (l_ep S x)\<lparr>k_snd_queue := q, k_nsnd_que := c\<rparr>"
    and q: "stream_of q = stream_of (k_snd_queue (l_ep S x)) @ take j b" and j: "r < 0 \<or> r = int j"
    unfolding send_post_def fst_conv snd_conv by blast
  have r: "nat r = j" using j assms(3) by auto
  have "kcp_inv k"
    using kcp_inv_send [OF inv(1) assms(4), of alloc] by (simp add: assms(2))
  moreover have "snd_log conv (l_log S x) k (l_sent S x @ take (nat r) b)"
    using inv(2) unfolding snd_log_def k by (simp add: q r)
  moreover have "rcv_log (l_log S (peer x)) k (l_got S x)" "covered (l_log S x) k (l_ep S (peer x))"
    "recvd k = recvd (l_ep S x)" "k_rcv_nxt k = k_rcv_nxt (l_ep S x)"
    using inv(3,4) by (simp_all add: k rcv_log_def covered_def)
  ultimately show ?thesis
    using link_inv_same_log [OF assms(1), of k x _ "l_got S x"] by simp
qed

lemma link_inv_recv:
  assumes "link_inv conv S" "ikcp_recv (l_ep S x) len = (r, d, k)" "r \<ge> 0" "len \<ge> 0"
  shows "link_inv conv (S\<lparr>l_ep := (l_ep S)(x := k), l_got := (l_got S)(x := l_got S x @ d)\<rparr>)"
proof -
  note inv = link_invD [OF assms(1), where x = x]
  have r: "fst (ikcp_recv (l_ep S x) len) \<ge> 0" using assms(2,3) by simp
  note log = ikcp_recv_log [OF inv(1,3) link_invD(6) [OF assms(1)] r assms(4), unfolded assms(2), simplified]
  obtain m n p where k: "k = (rcv_shift n ((l_ep S x)\<lparr>k_rcv_queue := drop m (k_rcv_queue (l_ep S x)),
      k_nrcv_que := k_nrcv_que (l_ep S x) - of_nat m\<rparr>))\<lparr>k_probe := p\<rparr>"
    using ikcp_recv_success [OF r assms(4)] unfolding assms(2) snd_conv by blast
  have frame: "k_conv k = k_conv (l_ep S x)" "k_snd_nxt k = k_snd_nxt (l_ep S x)"
    "k_snd_buf k = k_snd_buf (l_ep S x)" "k_snd_queue k = k_snd_queue (l_ep S x)"
    "k_acklist k = k_acklist (l_ep S x)"
    by (simp_all add: k rcv_shift_def)
  have "kcp_inv k" using kcp_inv_recv [OF inv(1), of len] by (simp add: assms(2))
  moreover have "snd_log conv (l_log S x) k (l_sent S x)" "covered (l_log S x) k (l_ep S (peer x))"
    using inv(2,4) log(2) by (simp_all add: snd_log_def covered_def frame)
  ultimately show ?thesis
    using link_inv_same_log [OF assms(1), of k x "l_sent S x" "l_got S x @ d"] log by simp
qed

text \<open>An update is a flush, or nothing, after the timer fields have changed.\<close>

lemma ikcp_update_cases:
  obtains c u t where "ikcp_update k now = ikcp_flush (k\<lparr>k_current := c, k_updated := u, k_ts_flush := t\<rparr>)"
  | c u t where "ikcp_update k now = (k\<lparr>k_current := c, k_updated := u, k_ts_flush := t\<rparr>, [])"
proof -
  define k2 where "k2 = (if k_updated k = 0 then k\<lparr>k_current := now, k_updated := 1, k_ts_flush := now\<rparr>
    else k\<lparr>k_current := now\<rparr>)"
  define u where "u = k_updated k2"
  have k2: "k2\<lparr>k_ts_flush := t\<rparr> = k\<lparr>k_current := now, k_updated := u, k_ts_flush := t\<rparr>" for t
    by (simp add: k2_def u_def)
  have k2': "k2 = k\<lparr>k_current := now, k_updated := u, k_ts_flush := k_ts_flush k2\<rparr>"
    using k2 [of "k_ts_flush k2"] by simp
  define slap where "slap = itimediff now (k_ts_flush k2)"
  define far where "far = (slap \<ge> 10000 \<or> slap < -10000)"
  define next_flush where "next_flush = (if far then now else k_ts_flush k2) + k_interval k2"
  have "ikcp_update k now =
      (if far \<or> slap \<ge> 0
       then ikcp_flush (k2\<lparr>k_ts_flush := (if itimediff now next_flush \<ge> 0 then now + k_interval k2
              else next_flush)\<rparr>)
       else (k2, []))"
    unfolding ikcp_update_def Let_def next_flush_def far_def slap_def k2_def by simp
  then show thesis using that(1) [unfolded k2 [symmetric]] that(2) [OF _] k2' by (metis k2)
qed

lemma link_inv_flush:
  assumes "link_inv conv S" "k0 = (l_ep S x)\<lparr>k_current := c, k_updated := u, k_ts_flush := t\<rparr>"
    and "ikcp_flush k0 = (k, pkts)" "length (l_log S x @ flushed (l_ep S x) k) < 2 ^ 31"
  shows "link_inv conv (S\<lparr>l_ep := (l_ep S)(x := k), l_net := (l_net S)(x := l_net S x @ pkts),
      l_log := (l_log S)(x := l_log S x @ flushed (l_ep S x) k)\<rparr>)"
proof -
  let ?lg = "l_log S x @ flushed (l_ep S x) k"
  note inv = link_invD [OF assms(1), where x = x]
  have i0: "kcp_inv k0" "snd_log conv (l_log S x) k0 (l_sent S x)"
    "rcv_log (l_log S (peer x)) k0 (l_got S x)" "recvd k0 = recvd (l_ep S x)"
    "k_rcv_nxt k0 = k_rcv_nxt (l_ep S x)" "k_snd_buf k0 = k_snd_buf (l_ep S x)"
    using inv by (simp_all add: assms(2) snd_log_def rcv_log_def recvd_def)
  have fl: "flushed k0 k = flushed (l_ep S x) k"
    by (simp add: flushed_def assms(2))
  have log: "snd_log conv ?lg k (l_sent S x)" "recvd k = recvd k0" "k_rcv_nxt k = k_rcv_nxt k0"
    "rcv_log (l_log S (peer x)) k (l_got S x)" "lg_ok ?lg"
    "idx ` set (k_snd_buf k) = idx ` set (k_snd_buf k0) \<union> {length (l_log S x)..<length ?lg}"
    using flush_log [OF i0(1,2), unfolded assms(3) fst_conv fl, OF assms(4)] i0(3) inv(6) by blast+
  have w: "wire_pkt conv ?lg k0 p" if "p \<in> set pkts" for p
  proof (rule flush_wire [OF i0(1)])
    show "snd_log conv ?lg (fst (ikcp_flush k0)) (l_sent S x)" using log(1) by (simp add: assms(3))
    show "k_conv k0 = conv" "\<forall>a \<in> set (k_acklist k0). unat (fst a) \<in> recvd k0"
      using i0(2) unfolding snd_log_def by blast+
    show "p \<in> set (snd (ikcp_flush k0))" using that by (simp add: assms(3))
  qed
  have "\<forall>p \<in> set pkts. wire_pkt conv ?lg k p"
    using wire_pkt_mono [OF w] log(2,3) by simp
  moreover have "covered ?lg k (l_ep S (peer x))"
    using log(6) unfolding i0(6) by (rule covered_grow [OF inv(4)])
  moreover have "kcp_inv k" using kcp_inv_flush [OF i0(1)] by (simp add: assms(3))
  ultimately have "link_inv conv (S\<lparr>l_ep := (l_ep S)(x := k), l_net := (l_net S)(x := l_net S x @ pkts),
     l_sent := (l_sent S)(x := l_sent S x), l_got := (l_got S)(x := l_got S x),
     l_log := (l_log S)(x := ?lg)\<rparr>)"
    using log i0(4,5) by (intro link_inv_side [OF assms(1) _ _ refl]) auto
  then show ?thesis by simp
qed


lemma link_inv_idle:
  assumes "link_inv conv S" "k = (l_ep S x)\<lparr>k_current := c, k_updated := u, k_ts_flush := t\<rparr>"
  shows "link_inv conv (S\<lparr>l_ep := (l_ep S)(x := k)\<rparr>)"
proof -
  note inv = link_invD [OF assms(1), where x = x]
  have "snd_log conv (l_log S x) k (l_sent S x)" "covered (l_log S x) k (l_ep S (peer x))"
    "rcv_log (l_log S (peer x)) k (l_got S x)" "recvd k = recvd (l_ep S x)" "kcp_inv k"
    "k_rcv_nxt k = k_rcv_nxt (l_ep S x)"
    using inv by (simp_all add: assms(2) snd_log_def rcv_log_def covered_def recvd_def)
  then show ?thesis
    using link_inv_same_log [OF assms(1), of k x "l_sent S x" "l_got S x"] by simp
qed

lemma link_inv_update:
  assumes "link_inv conv S" "ikcp_update (l_ep S x) now = (k, pkts)"
    and "length (l_log S x @ flushed (l_ep S x) k) < 2 ^ 31"
  shows "link_inv conv (S\<lparr>l_ep := (l_ep S)(x := k), l_net := (l_net S)(x := l_net S x @ pkts),
      l_log := (l_log S)(x := l_log S x @ flushed (l_ep S x) k)\<rparr>)"
proof (rule ikcp_update_cases [of "l_ep S x" now])
  fix c u t
  assume "ikcp_update (l_ep S x) now = ikcp_flush ((l_ep S x)\<lparr>k_current := c, k_updated := u, k_ts_flush := t\<rparr>)"
  with assms(2) show ?thesis by (intro link_inv_flush [OF assms(1) refl _ assms(3)]) simp
next
  fix c u t
  assume "ikcp_update (l_ep S x) now = ((l_ep S x)\<lparr>k_current := c, k_updated := u, k_ts_flush := t\<rparr>, [])"
  then have k: "k = (l_ep S x)\<lparr>k_current := c, k_updated := u, k_ts_flush := t\<rparr>" "pkts = []"
    using assms(2) by auto
  then have "flushed (l_ep S x) k = []" by (simp add: flushed_def)
  then show ?thesis using link_inv_idle [OF assms(1) k(1)] k(2) by simp
qed

lemma link_inv_deliver:
  assumes "link_inv conv S" "p \<in> set (l_net S (peer x))" "ikcp_input mem (l_ep S x) p = Some (r, k)"
  shows "link_inv conv (S\<lparr>l_ep := (l_ep S)(x := k)\<rparr>)"
proof -
  note inv = link_invD [OF assms(1), where x = x]
  note inv' = link_invD [OF assms(1), where x = "peer x", simplified]
  have "ep_ok conv (l_log S x) (l_log S (peer x)) (l_ep S (peer x)) (l_sent S x) (l_got S x)
      (l_ep S x) (l_ep S x)"
    using inv by (simp add: ep_ok_def)
  from ikcp_input_log [OF this inv'(5) [OF assms(2)] inv'(6) inv(6) _ assms(3)]
  have "ep_ok conv (l_log S x) (l_log S (peer x)) (l_ep S (peer x)) (l_sent S x) (l_got S x) (l_ep S x) k"
    using inv'(3) by (simp add: rcv_log_def)
  then show ?thesis
    using link_inv_same_log [OF assms(1), of k x "l_sent S x" "l_got S x"] by (simp add: ep_ok_def)
qed

text \<open>Logs only grow, so a bound at the end of a run held throughout it.\<close>

lemma link_step_log: "link_step S T \<Longrightarrow> length (l_log S x) \<le> length (l_log T x)"
  by (induction rule: link_step.induct) auto

lemma link_step_inv:
  assumes "link_step S T" "link_inv conv S" "\<forall>x. length (l_log T x) < 2 ^ 31"
  shows "link_inv conv T"
  using assms
proof (induction rule: link_step.induct)
  case (flush S x k pkts)
  have "l_ep S x = (l_ep S x)\<lparr>k_current := k_current (l_ep S x), k_updated := k_updated (l_ep S x),
      k_ts_flush := k_ts_flush (l_ep S x)\<rparr>" by simp
  from link_inv_flush [OF flush(2) this flush(1)] show ?case
    using flush(3) [rule_format, of x] by simp
next
  case (update S x now k pkts)
  then show ?case using update(3) [rule_format, of x] by (intro link_inv_update) auto
qed (auto intro: link_inv_send link_inv_recv link_inv_deliver)

lemma link_reach_inv:
  assumes "link_reach S0 S" "link_inv conv S0" "\<forall>x. length (l_log S x) < 2 ^ 31"
  shows "link_inv conv S"
  using assms
proof (induction rule: link_reach.induct)
  case (step S T)
  then have "\<forall>x. length (l_log S x) < 2 ^ 31"
    using link_step_log by (meson le_less_trans)
  with step show ?case using link_step_inv by blast
qed


subsection \<open>What the receiver has\<close>

lemma link_prefix:
  assumes "link_inv conv S"
  shows "prefix (l_got S (peer x)) (l_sent S x)"
proof -
  have "l_sent S x = concat (l_log S x) @ stream_of (k_snd_queue (l_ep S x))"
    using link_invD(2) [OF assms, of x] by (simp add: snd_log_def)
  moreover have "l_got S (peer x) @ stream_of (k_rcv_queue (l_ep S (peer x))) =
      concat (take (unat (k_rcv_nxt (l_ep S (peer x)))) (l_log S x))"
    using link_invD(3) [OF assms, of "peer x"] by (simp add: rcv_log_def)
  moreover have "prefix (concat (take n lg)) (concat lg)" for n and lg :: "bytes list"
    by (metis append_take_drop_id concat_append prefixI)
  ultimately show ?thesis by (metis append_prefixD prefix_append)
qed

text \<open>With nothing left to send, the receive buffer holds exactly the rest of the log.\<close>

lemma rcv_buf_rest:
  assumes "kcp_inv k" "rcv_log lg k got" "lg_ok lg" "{..<length lg} \<subseteq> recvd k"
  shows "map idx (k_rcv_buf k) = [unat (k_rcv_nxt k)..<length lg]"
proof -
  define n where "n = unat (k_rcv_nxt k)"
  have n: "n \<le> length lg" "length lg < 2 ^ 31"
    using assms(2,3) by (auto simp: rcv_log_def lg_ok_def n_def)
  have buf: "idx s < length lg" if "s \<in> set (k_rcv_buf k)" for s
    using assms(2) that by (auto simp: rcv_log_def list_all_iff data_seg_def)
  have idx: "idx s = n + offs (k_rcv_nxt k) (s_sn s)" if "s \<in> set (k_rcv_buf k)" for s
  proof -
    let ?o = "offs (k_rcv_nxt k) (s_sn s)"
    have "?o < 2 ^ 31"
      using kcp_invD(6,7) [OF assms(1)] that by (fastforce simp: serial_def)
    moreover have "unat (k_rcv_nxt k + (s_sn s - k_rcv_nxt k)) = (n + ?o) mod 2 ^ 32"
      unfolding unat_word_ariths n_def offs_def by simp
    then have "unat (s_sn s) = (n + ?o) mod 2 ^ 32" by simp
    ultimately show ?thesis using n by (simp add: idx_def)
  qed
  have eq: "map idx (k_rcv_buf k) = map ((+) n) (map (offs (k_rcv_nxt k)) (map s_sn (k_rcv_buf k)))"
    using idx by simp
  have "sorted_wrt (<) (map idx (k_rcv_buf k))"
    unfolding eq using kcp_invD(7) [OF assms(1)] by (simp add: serial_def sorted_wrt_map)
  moreover have "set (map idx (k_rcv_buf k)) = set [n..<length lg]"
  proof -
    have "{n..<length lg} \<subseteq> idx ` set (k_rcv_buf k)"
      using assms(4) by (auto simp: recvd_def n_def subset_iff)
    then show ?thesis using buf idx by auto
  qed
  ultimately show ?thesis
    unfolding n_def [symmetric]
    by (intro sorted_distinct_set_unique) (simp_all add: strict_sorted_iff)
qed

lemma link_complete:
  assumes "link_inv conv S" "k_snd_buf (l_ep S x) = []" "k_snd_queue (l_ep S x) = []"
  defines "k \<equiv> l_ep S (peer x)"
  shows "l_got S (peer x) @ stream_of (k_rcv_queue k) @ stream_of (k_rcv_buf k) = l_sent S x"
proof -
  let ?lg = "l_log S x" and ?n = "unat (k_rcv_nxt k)"
  have rcv: "rcv_log ?lg k (l_got S (peer x))"
    using link_invD(3) [OF assms(1), of "peer x"] by (simp add: k_def)
  have "{..<length ?lg} \<subseteq> recvd k"
    using link_invD(4) [OF assms(1), of x] assms(2) by (simp add: covered_def k_def)
  with rcv have run: "map idx (k_rcv_buf k) = [?n..<length ?lg]"
    using link_invD(1,6) [OF assms(1)] unfolding k_def by (intro rcv_buf_rest) auto
  have "map s_data (k_rcv_buf k) = map (\<lambda>s. ?lg ! idx s) (k_rcv_buf k)"
    using rcv by (simp add: rcv_log_def list_all_iff data_seg_def)
  also have "\<dots> = map ((!) ?lg) [?n..<length ?lg]"
    unfolding run [symmetric] by simp
  also have "\<dots> = drop ?n ?lg"
    by (intro nth_equalityI) auto
  finally have "stream_of (k_rcv_buf k) = concat (drop ?n ?lg)"
    by (simp add: stream_of_def)
  moreover have "l_got S (peer x) @ stream_of (k_rcv_queue k) = concat (take ?n ?lg)"
    using rcv by (simp add: rcv_log_def)
  moreover have "l_sent S x = concat ?lg"
    using link_invD(2) [OF assms(1), of x] assms(3) by (simp add: snd_log_def)
  ultimately show ?thesis
    by (metis append.assoc append_take_drop_id concat_append)
qed

subsection \<open>Running the link\<close>

text \<open>Runs as lists of actions, with every allocation succeeding; each is a path of the step relation.\<close>

datatype link_act = DoSend side bytes | DoRecv side int | DoFlush side | DoUpdate side u32 | DoDeliver side nat

fun link_do :: "link_act \<Rightarrow> link \<Rightarrow> link option" where
  "link_do (DoSend x b) S =
     (let (r, k) = ikcp_send (\<lambda>_. True) (l_ep S x) b (int (length b)) in
      if r \<ge> 0 \<and> int (length b) < 2 ^ 31
      then Some (S\<lparr>l_ep := (l_ep S)(x := k), l_sent := (l_sent S)(x := l_sent S x @ take (nat r) b)\<rparr>)
      else None)"
| "link_do (DoRecv x len) S =
     (let (r, d, k) = ikcp_recv (l_ep S x) len in
      if r \<ge> 0 \<and> len \<ge> 0
      then Some (S\<lparr>l_ep := (l_ep S)(x := k), l_got := (l_got S)(x := l_got S x @ d)\<rparr>) else None)"
| "link_do (DoFlush x) S =
     (let (k, pkts) = ikcp_flush (l_ep S x) in
      Some (S\<lparr>l_ep := (l_ep S)(x := k), l_net := (l_net S)(x := l_net S x @ pkts),
        l_log := (l_log S)(x := l_log S x @ flushed (l_ep S x) k)\<rparr>))"
| "link_do (DoUpdate x now) S =
     (let (k, pkts) = ikcp_update (l_ep S x) now in
      Some (S\<lparr>l_ep := (l_ep S)(x := k), l_net := (l_net S)(x := l_net S x @ pkts),
        l_log := (l_log S)(x := l_log S x @ flushed (l_ep S x) k)\<rparr>))"
| "link_do (DoDeliver x i) S =
     (if i < length (l_net S (peer x))
      then map_option (\<lambda>(r, k). S\<lparr>l_ep := (l_ep S)(x := k)\<rparr>)
             (ikcp_input (\<lambda>_. True) (l_ep S x) (l_net S (peer x) ! i))
      else None)"

fun link_run :: "link_act list \<Rightarrow> link \<Rightarrow> link option" where
  "link_run [] S = Some S"
| "link_run (a # as) S = do { T \<leftarrow> link_do a S; link_run as T }"

lemma link_do_step: "link_do a S = Some T \<Longrightarrow> link_step S T"
proof (cases a)
  case (DoRecv x len)
  assume "link_do a S = Some T"
  then show ?thesis
    using link_step.app_recv [of S x len "fst (ikcp_recv (l_ep S x) len)"]
    by (cases "ikcp_recv (l_ep S x) len") (auto simp: DoRecv split: if_splits)
next
  case (DoDeliver x i)
  assume "link_do a S = Some T"
  then show ?thesis
    by (auto simp: DoDeliver split: if_splits intro: link_step.deliver [OF nth_mem])
qed (auto simp: Let_def split: prod.splits if_splits intro: link_step.intros)

lemma link_run_reach: "link_run as S = Some T \<Longrightarrow> link_reach S0 S \<Longrightarrow> link_reach S0 T"
proof (induction as arbitrary: S)
  case (Cons a as)
  then show ?case by (auto simp: bind_eq_Some_conv dest: link_do_step intro: link_reach.step)
qed simp

end
