(* ===== verification/Ikcp_Api.thy ===== *)
theory Ikcp_Api
  imports Ikcp_Link
begin

text \<open>
  The whole of the KCP interface seen from outside: every sequence of calls, with any packet as
  input and any outcome of the allocations, keeps the invariant and so the flow-control bounds;
  \<open>ikcp_input\<close> returns on every packet; trailing padding does not change what a packet does; and
  \<open>ikcp_check\<close> never lets a timer pass unseen.
\<close>

declare ikcp_input_loop.simps [simp del]

subsection \<open>Input returns\<close>

lemma ikcp_parse_data_ackcount [simp]: "k_ackcount (ikcp_parse_data k s) = k_ackcount k"
proof -
  have "k_ackcount (rcv_move (k_rcv_buf k1) k1) = k_ackcount k1" for k1
    by (rule rcv_move_shift [of k1]) (simp add: rcv_shift_def)
  then show ?thesis
    by (auto simp: ikcp_parse_data_def Let_def split: option.splits)
qed

lemma input_segment_returns:
  assumes "\<forall>n. mem n" "unat (k_ackcount k) < 2 ^ 31"
  obtains k' seen' where "input_segment mem s k seen = Some (k', seen')"
    "unat (k_ackcount k') \<le> unat (k_ackcount k) + 1"
proof -
  define k1 where "k1 = ikcp_shrink_buf (ikcp_parse_una (k\<lparr>k_rmt_wnd := s_wnd s\<rparr>) (s_una s))"
  have c1: "k_ackcount k1 = k_ackcount k"
    by (simp add: k1_def ikcp_shrink_buf_def ikcp_parse_una_eq split: list.splits)
  obtain k2 where push: "ikcp_ack_push mem k1 (s_sn s) (s_ts s) = Some k2"
    using ikcp_ack_push_total [of mem k1 "s_sn s" "s_ts s"] assms c1 by auto
  have k2: "k_ackcount k2 = k_ackcount k1 + 1"
    by (rule ikcp_ack_push_Some [OF push]) simp
  have ack: "k_ackcount (ikcp_shrink_buf (ikcp_parse_ack k3 sn)) = k_ackcount k3" for k3 sn
    by (simp add: ikcp_shrink_buf_def ikcp_parse_ack_def split: list.splits prod.splits)
  have le: "unat (k_ackcount k + 1) \<le> unat (k_ackcount k) + 1"
    using assms(2) by (simp add: unat_plus_if')
  consider "s_cmd s = IKCP_CMD_ACK" | "s_cmd s = IKCP_CMD_PUSH" "s_cmd s \<noteq> IKCP_CMD_ACK"
    | "s_cmd s \<noteq> IKCP_CMD_ACK" "s_cmd s \<noteq> IKCP_CMD_PUSH"
    by blast
  then show ?thesis
  proof cases
    case 1
    then show ?thesis
      using that c1 by (simp add: input_segment_def Let_def ack flip: k1_def)
  next
    case 2
    show ?thesis
    proof (cases "itimediff (s_sn s) (k_rcv_nxt k1 + k_rcv_wnd k1) < 0")
      case True
      show ?thesis
        using that 2 True push assms(1) le k2 c1
        by (cases "itimediff (s_sn s) (k_rcv_nxt k2) \<ge> 0")
          (simp_all add: input_segment_def Let_def flip: k1_def)
    next
      case False
      then show ?thesis using that 2 c1 by (simp add: input_segment_def Let_def flip: k1_def)
    qed
  next
    case 3
    then show ?thesis
      using that c1 by (cases "s_cmd s = IKCP_CMD_WASK") (simp_all add: input_segment_def Let_def flip: k1_def)
  qed
qed

lemma ikcp_input_loop_step:
  assumes "ikcp_decode_seg data = Some (seg, rest)" "\<not> length data < unat IKCP_OVERHEAD"
  shows "ikcp_input_loop mem data kcp seen =
     (if s_conv seg \<noteq> k_conv kcp then Some (-1, kcp, seen)
      else if int (length rest) < uint (s_len seg) \<or> sint (s_len seg) < 0 then Some (-2, kcp, seen)
      else if \<not> known_cmd (s_cmd seg) then Some (-3, kcp, seen)
      else case input_segment mem (seg\<lparr>s_data := take (unat (s_len seg)) rest\<rparr>) kcp seen of
        None \<Rightarrow> None
      | Some (kcp', seen') \<Rightarrow> ikcp_input_loop mem (drop (unat (s_len seg)) rest) kcp' seen')"
  by (subst ikcp_input_loop.simps) (simp only: assms if_False option.case prod.case)

lemma ikcp_input_loop_returns:
  assumes "\<forall>n. mem n" "unat (k_ackcount k) + length data < 2 ^ 31"
  shows "\<exists>r k' seen'. ikcp_input_loop mem data k seen = Some (r, k', seen')"
  using assms(2)
proof (induction "length data" arbitrary: data k seen rule: less_induct)
  case less
  show ?case
  proof (cases "length data < unat IKCP_OVERHEAD")
    case False
    then have l: "24 \<le> length data" by (simp add: IKCP_OVERHEAD_def)
    then obtain s where s: "ikcp_decode_seg data = Some (s, drop 24 data)"
      using ikcp_decode_seg_enough by blast
    define t where "t = s\<lparr>s_data := take (unat (s_len s)) (drop 24 data)\<rparr>"
    have "unat (k_ackcount k) < 2 ^ 31" using less.prems by simp
    from input_segment_returns [OF assms(1) this, of t seen]
    obtain k1 seen1 where seg: "input_segment mem t k seen = Some (k1, seen1)"
      "unat (k_ackcount k1) \<le> unat (k_ackcount k) + 1"
      by blast
    have "\<exists>r k' seen'. ikcp_input_loop mem (drop (unat (s_len s)) (drop 24 data)) k1 seen1 =
        Some (r, k', seen')"
      using less.prems seg(2) l by (intro less.hyps) auto
    then show ?thesis
      using ikcp_input_loop_step [OF s] False seg(1) unfolding t_def by auto
  next
    case True
    then show ?thesis by (subst ikcp_input_loop.simps) simp
  qed
qed

lemma ikcp_input_returns:
  assumes "\<forall>n. mem n" "unat (k_ackcount k) + length data < 2 ^ 31"
  shows "\<exists>r k'. ikcp_input mem k data = Some (r, k')"
proof -
  obtain r k1 seen where "ikcp_input_loop mem data k None = Some (r, k1, seen)"
    using ikcp_input_loop_returns [OF assms] by blast
  then show ?thesis by (auto simp: ikcp_input_def Let_def)
qed

subsection \<open>Any sequence of calls\<close>

inductive kcp_call :: "ikcpcb \<Rightarrow> ikcpcb \<Rightarrow> bool" where
  send: "int (length b) < 2 ^ 31 \<Longrightarrow> kcp_call k (snd (ikcp_send alloc k b (int (length b))))"
| recv: "kcp_call k (snd (snd (ikcp_recv k len)))"
| input: "ikcp_input mem k data = Some (r, k') \<Longrightarrow> kcp_call k k'"
| flush: "kcp_call k (fst (ikcp_flush k))"
| update: "kcp_call k (fst (ikcp_update k now))"

lemma kcp_call_inv: "kcp_call k k' \<Longrightarrow> kcp_inv k \<Longrightarrow> kcp_inv k'"
  by (induction rule: kcp_call.induct)
    (auto intro: kcp_inv_send kcp_inv_recv kcp_inv_input kcp_inv_flush kcp_inv_update)

lemma kcp_calls_inv: "kcp_call\<^sup>*\<^sup>* k k' \<Longrightarrow> kcp_inv k \<Longrightarrow> kcp_inv k'"
  by (induction rule: rtranclp_induct) (auto intro: kcp_call_inv)

text \<open>What the invariant says of the windows.\<close>

definition flow_ok :: "ikcpcb \<Rightarrow> bool" where
  "flow_ok k \<longleftrightarrow>
     k_nsnd_buf k = of_nat (length (k_snd_buf k)) \<and> length (k_snd_buf k) \<le> unat (k_snd_wnd k) \<and>
     length (k_rcv_queue k) \<le> unat (k_rcv_wnd k) \<and> length (k_rcv_buf k) \<le> unat (k_rcv_wnd k) \<and>
     distinct (map s_sn (k_snd_buf k)) \<and> distinct (map s_sn (k_rcv_buf k)) \<and>
     (\<forall>s \<in> set (k_snd_buf k). offs (k_snd_una k) (s_sn s) < offs (k_snd_una k) (k_snd_nxt k)) \<and>
     (\<forall>s \<in> set (k_rcv_buf k). offs (k_rcv_nxt k) (s_sn s) < unat (k_rcv_wnd k))"

lemma kcp_inv_flow:
  assumes "kcp_inv k" shows "flow_ok k"
proof -
  note i = kcp_invD [OF assms]
  have d: "distinct (map (offs b) sns) \<Longrightarrow> distinct sns" for b sns
    by (simp add: distinct_map)
  show ?thesis
    unfolding flow_ok_def
    using i(4,12,13) serial_length [OF i(3)] serial_length [OF i(7)] d [OF serial_distinct [OF i(3)]]
      d [OF serial_distinct [OF i(7)]] i(3,7)
    by (auto simp: serial_def)
qed

subsection \<open>Padding\<close>

text \<open>
  The receiver hands KCP what the decryption left, the sender's padding included: fewer bytes than a
  header, which the loop does not look at.
\<close>

definition seg_header :: "ikcpseg \<Rightarrow> ikcpseg" where
  "seg_header s = \<lparr>s_conv = s_conv s, s_cmd = ucast (ucast (s_cmd s) :: u8),
     s_frg = ucast (ucast (s_frg s) :: u8), s_wnd = ucast (ucast (s_wnd s) :: u16), s_ts = s_ts s,
     s_sn = s_sn s, s_una = s_una s, s_len = s_len s, s_resendts = 0, s_rto = 0, s_fastack = 0,
     s_xmit = 0, s_data = []\<rparr>"

lemma decode_encode_seg: "ikcp_decode_seg (ikcp_encode_seg s @ r) = Some (seg_header s, r)"
  by (simp add: ikcp_decode_seg_def ikcp_encode_seg_def seg_header_def)

lemma ikcp_input_loop_pad:
  assumes "list_all (wire_seg conv lg ky) ss" "length pad < 24" "lg_ok lg"
  shows "ikcp_input_loop mem (concat (map wire ss) @ pad) k seen =
    ikcp_input_loop mem (concat (map wire ss)) k seen"
  using assms(1)
proof (induction ss arbitrary: k seen)
  case Nil
  then show ?case
    using assms(2) by (simp add: ikcp_input_loop.simps [of mem "[]"] ikcp_input_loop.simps [of mem pad] IKCP_OVERHEAD_def)
next
  case (Cons s ss)
  then have s: "wire_seg conv lg ky s" by simp
  let ?r = "concat (map wire ss)"
  define t where "t = seg_header s"
  have t: "ikcp_decode_seg (wire s @ r) = Some (t, s_data s @ r)" for r
    by (simp add: wire_def t_def decode_encode_seg)
  have len: "unat (s_len t) = length (s_data s)"
    using wire_seg_len [OF s assms(3)] by (simp add: t_def seg_header_def)
  have l24: "\<not> length (wire s @ r) < unat IKCP_OVERHEAD" for r
    by (simp add: wire_def IKCP_OVERHEAD_def)
  have step: "ikcp_input_loop mem (wire s @ r) k seen =
     (if s_conv t \<noteq> k_conv k then Some (-1, k, seen)
      else if sint (s_len t) < 0 then Some (-2, k, seen)
      else if \<not> known_cmd (s_cmd t) then Some (-3, k, seen)
      else case input_segment mem (t\<lparr>s_data := s_data s\<rparr>) k seen of
        None \<Rightarrow> None
      | Some (kcp', seen') \<Rightarrow> ikcp_input_loop mem r kcp' seen')" for r
  proof -
    have "(int (length (s_data s @ r)) < uint (s_len t)) = False"
      using len by (metis length_append le_add1 not_less of_nat_le_iff uint_nat)
    moreover have "take (unat (s_len t)) (s_data s @ r) = s_data s" "drop (unat (s_len t)) (s_data s @ r) = r"
      by (simp_all add: len)
    ultimately show ?thesis
      using ikcp_input_loop_step [OF t l24, of mem r k seen] by (simp only: simp_thms)
  qed
  show ?case
    using step [of ?r] step [of "?r @ pad"] Cons.IH Cons.prems
    by (cases "input_segment mem (t\<lparr>s_data := s_data s\<rparr>) k seen") auto
qed

lemma ikcp_input_pad:
  assumes "wire_pkt conv lg ky p" "length pad < 24" "lg_ok lg" "length p + length pad < 2 ^ 31"
  shows "ikcp_input mem k (p @ pad) = ikcp_input mem k p"
proof -
  obtain ss where ss: "p = concat (map wire ss)" "list_all (wire_seg conv lg ky) ss"
    using assms(1) by (auto simp: wire_pkt_def)
  have i: "sint (of_nat n :: u32) = int n" if "n < 2 ^ 31" for n
    using that by (simp add: sint_small unat_of_nat_u32)
  show ?thesis
  proof (cases ss)
    case Nil
    then show ?thesis using ss(1) assms(2,4) i by (simp add: ikcp_input_def IKCP_OVERHEAD_def)
  next
    case (Cons s r)
    then have "24 \<le> length p" using ss(1) by (simp add: wire_def)
    then have "\<not> sint (of_nat (length p) :: u32) < sint IKCP_OVERHEAD"
      "\<not> sint (of_nat (length (p @ pad)) :: u32) < sint IKCP_OVERHEAD"
      using assms(4) i [of "length p"] i [of "length (p @ pad)"] by (simp_all add: IKCP_OVERHEAD_def)
    then show ?thesis
      unfolding ikcp_input_def using ikcp_input_loop_pad [OF ss(2) assms(2,3), of mem k None]
      by (simp only: ss(1) if_False)
  qed
qed

subsection \<open>Timers\<close>

lemma check_packets_pos: "check_packets c segs tm = Some m \<Longrightarrow> 0 < tm \<Longrightarrow> 0 < m \<and> m \<le> tm"
proof (induction segs arbitrary: tm)
  case (Cons s segs)
  let ?d = "itimediff (s_resendts s) c"
  have "?d > 0" "check_packets c segs (if ?d < tm then ?d else tm) = Some m"
    using Cons.prems(1) by (auto simp: Let_def split: if_splits)
  with Cons.IH [of "if ?d < tm then ?d else tm"] Cons.prems(2) show ?case
    by (auto split: if_splits)
qed simp

lemma offs_of_neg:
  assumes "itimediff cur ts = d" "- (2 ^ 31) < d" "d \<le> 0"
  shows "int (offs cur ts) = - d"
proof -
  have "ts - cur = - (cur - ts)" by simp
  also have "cur - ts = word_of_int d" using assms(1) by (simp add: itimediff_def flip: assms(1))
  finally have eq: "ts - cur = word_of_int (- d)" by simp
  have "0 \<le> - d" "- d < 2 ^ 32" using assms(2,3) by simp_all
  then have "unat (word_of_int (- d) :: u32) = nat (- d)" by (rule unat_word_of_int)
  with assms(3) show ?thesis unfolding offs_def eq by linarith
qed

lemma itimediff_offs_add:
  assumes "itimediff cur ts = d" "- (2 ^ 31) < d" "d \<le> 0" "int (offs cur now) \<le> - d"
  shows "itimediff now ts = d + int (offs cur now)"
  using itimediff_offs [of cur now ts] offs_of_neg [OF assms(1-3)] assms(2,4) by simp

lemma ikcp_check_bound:
  assumes "0 < offs cur (ikcp_check k cur)"
  obtains "k_updated k \<noteq> 0" "- 10000 \<le> itimediff cur (k_ts_flush k)" "itimediff cur (k_ts_flush k) < 0"
    "int (offs cur (ikcp_check k cur)) \<le> - itimediff cur (k_ts_flush k)"
proof -
  let ?d = "itimediff cur (k_ts_flush k)"
  have zero [simp]: "offs cur cur = 0" "itimediff cur cur = 0" by (simp_all add: offs_def itimediff_def)
  have u: "k_updated k \<noteq> 0" using assms by (auto simp: ikcp_check_def)
  with assms have d: "- 10000 \<le> ?d" "?d < 0"
    by (auto simp: ikcp_check_def Let_def split: if_splits)
  let ?m = "itimediff (k_ts_flush k) cur"
  have m: "?m = - ?d"
    using itimediff_offs [of cur "k_ts_flush k" cur] offs_of_neg [of cur "k_ts_flush k" ?d] d by simp
  obtain tm where tm: "check_packets cur (k_snd_buf k) 0x7fffffff = Some tm"
    using assms u d by (cases "check_packets cur (k_snd_buf k) 0x7fffffff") (auto simp: ikcp_check_def Let_def)
  define minimal :: u32 where "minimal = word_of_int (if tm < ?m then tm else ?m)"
  have check: "ikcp_check k cur = cur + (if minimal \<ge> k_interval k then k_interval k else minimal)"
    using u d by (simp add: ikcp_check_def tm minimal_def)
  have "0 < tm" using check_packets_pos [OF tm] by simp
  then have "int (unat minimal) \<le> - ?d"
    using d m by (simp add: minimal_def unat_word_of_int)
  then have "int (offs cur (ikcp_check k cur)) \<le> - ?d"
    by (auto simp: check offs_def word_le_def)
  with that u d show thesis by blast
qed

lemma ikcp_check_idle_lemma:
  assumes "offs cur now < offs cur (ikcp_check k cur)"
  shows "ikcp_update k now = (k\<lparr>k_current := now\<rparr>, [])"
proof -
  have "0 < offs cur (ikcp_check k cur)" using assms by simp
  then show ?thesis
  proof (rule ikcp_check_bound)
    let ?d = "itimediff cur (k_ts_flush k)"
    assume h: "k_updated k \<noteq> 0" "- 10000 \<le> ?d" "?d < 0" "int (offs cur (ikcp_check k cur)) \<le> - ?d"
    then have "itimediff now (k_ts_flush k) = ?d + int (offs cur now)"
      using assms by (intro itimediff_offs_add) auto
    with h assms have "- 10000 \<le> itimediff now (k_ts_flush k)" "itimediff now (k_ts_flush k) < 0"
      by linarith+
    with h(1) show ?thesis by (simp add: ikcp_update_def Let_def)
  qed
qed

end
