(* ===== verification/Session_Base.thy ===== *)
theory Session_Base
  imports Conf Ikcp_Api
begin

text \<open>
  The constants, message headers and states of the session layer (\<open>src/src/session.h\<close>), and the
  KCP control block a session starts with (\<open>kcp_new\<close> of \<open>src/src/session.c\<close>).
\<close>

subsection \<open>Sizes\<close>

definition MAX_PACKET_SIZE :: nat where "MAX_PACKET_SIZE = 1500"
definition SESSION_BUF_SIZE :: nat where "SESSION_BUF_SIZE = 16384"
definition TLV_HEADER_SIZE :: nat where "TLV_HEADER_SIZE = 4"
definition TLV_MAX_LENGTH :: nat where "TLV_MAX_LENGTH = SESSION_BUF_SIZE - MAX_PACKET_SIZE"

lemmas session_sizes = MAX_PACKET_SIZE_def SESSION_BUF_SIZE_def TLV_HEADER_SIZE_def TLV_MAX_LENGTH_def

subsection \<open>Message headers\<close>

record tlv_header =
  h_msg :: u16
  h_len :: u16

definition tlv_header_read :: "bytes \<Rightarrow> tlv_header option" where
  "tlv_header_read d =
     do { msg \<leftarrow> read_uint16 d; len \<leftarrow> read_uint16 (drop 2 d);
          Some \<lparr>h_msg = msg, h_len = len\<rparr> }"

definition tlv_header_write :: "tlv_header \<Rightarrow> bytes" where
  "tlv_header_write header = write_uint16 (h_msg header) @ write_uint16 (h_len header)"

definition SMSG_DIAL :: u16 where "SMSG_DIAL = 0"
definition SMSG_PUSH :: u16 where "SMSG_PUSH = 1"
definition SMSG_EOF :: u16 where "SMSG_EOF = 2"
definition SMSG_KEEPALIVE :: u16 where "SMSG_KEEPALIVE = 3"

lemmas smsg_defs = SMSG_DIAL_def SMSG_PUSH_def SMSG_EOF_def SMSG_KEEPALIVE_def

datatype session_state = STATE_INIT | STATE_CONNECT | STATE_CONNECTED | STATE_LINGER | STATE_TIME_WAIT

subsection \<open>The control block of a session\<close>

text \<open>
  \<open>mem\<close> says whether \<open>ikcp_setmtu\<close> gets its buffer; \<open>mss\<close> is what the packet queue leaves for a
  KCP packet. The result of \<open>ikcp_setmtu\<close> is not looked at.
\<close>

definition kcp_new :: "bool \<Rightarrow> config \<Rightarrow> u16 \<Rightarrow> u32 \<Rightarrow> ikcpcb" where
  "kcp_new mem conf mss conv =
     (let kcp0 = ikcp_create conv;
          kcp1 = ikcp_wndsize kcp0 (c_kcp_sndwnd conf) (c_kcp_rcvwnd conf);
          kcp2 = snd (ikcp_setmtu mem kcp1 (uint mss))
      in ikcp_nodelay kcp2 (c_kcp_nodelay conf) (c_kcp_interval conf) (c_kcp_resend conf)
           (c_kcp_nc conf))"

lemma kcp_new_fresh:
  assumes "conf_ranges conf"
  shows "kcp_fresh conv (kcp_new mem conf mss conv)"
proof -
  have r: "16 \<le> c_kcp_sndwnd conf" "c_kcp_sndwnd conf \<le> 65536" "16 \<le> c_kcp_rcvwnd conf"
    "c_kcp_rcvwnd conf \<le> 65536"
    using assms by (auto simp: conf_ranges_def range_check_int_def)
  define sw :: u32 where "sw = word_of_int (c_kcp_sndwnd conf)"
  define rw :: u32 where "rw = imax (word_of_int (c_kcp_rcvwnd conf)) IKCP_WND_RCV"
  have sw: "unat sw < 2 ^ 31" using r by (simp add: sw_def unat_word_of_int)
  have n: "unat (word_of_int (c_kcp_rcvwnd conf) :: u32) < 2 ^ 31" using r by (simp add: unat_word_of_int)
  have rw: "0 < unat rw" "unat rw < 2 ^ 31"
    using n by (auto simp: rw_def imax_def IKCP_WND_RCV_def word_le_nat_alt)
  define m :: u32 where "m = (if uint mss < 50 \<or> \<not> mem then 1400 else word_of_int (uint mss))"
  obtain n where n: "uint mss = int n" by (metis nonneg_int_cases uint_ge_0)
  then have "n < 2 ^ 16" using uint_lt2p [of mss] by simp
  then have m: "50 \<le> unat m" "unat m < 2 ^ 16"
    using unat_word_of_int [of "int n"] by (auto simp: m_def n)
  have k1: "ikcp_wndsize (ikcp_create conv) (c_kcp_sndwnd conf) (c_kcp_rcvwnd conf) =
      (ikcp_create conv)\<lparr>k_snd_wnd := sw, k_rcv_wnd := rw\<rparr>"
    using r by (simp add: ikcp_wndsize_def sw_def rw_def)
  have k2: "snd (ikcp_setmtu mem k (uint mss)) = k\<lparr>k_mtu := m, k_mss := m - IKCP_OVERHEAD\<rparr>"
    if "k_mtu k = 1400" "k_mss k = 1400 - IKCP_OVERHEAD" for k
    using that by (cases k) (auto simp: ikcp_setmtu_def m_def IKCP_OVERHEAD_def)
  show ?thesis
    unfolding kcp_new_def Let_def k1
    using sw rw m
    by (subst k2) (auto simp: ikcp_create_def IKCP_MTU_DEF_def ikcp_nodelay_def Let_def kcp_fresh_def
        kcp_inv_defs snd_first_def serial_def offs_def IKCP_RTO_NDL_def IKCP_RTO_MIN_def IKCP_RTO_MAX_def)
qed

lemma tlv_header_size [simp]: "length (tlv_header_write h) = TLV_HEADER_SIZE"
  by (simp add: tlv_header_write_def TLV_HEADER_SIZE_def)

lemma tlv_header_roundtrip: "tlv_header_read (tlv_header_write h @ rest) = Some h"
  by (simp add: tlv_header_read_def tlv_header_write_def)

end
