(* ===== verification/Sockaddr.thy ===== *)
theory Sockaddr
  imports Serialize
begin

text \<open>
  Socket addresses (\<open>src/src/sockutil.c\<close>), their encoding in session 0 messages and the keys of the
  session table (\<open>src/src/session.c\<close>, \<open>src/src/session.h\<close>).
\<close>

subsection \<open>Addresses\<close>

text \<open>
  Addresses and ports are in host order, so that their memory image is what the big-endian writers
  produce; an IPv6 address is its two halves. \<open>SOther\<close> is any other address family, on which the code
  aborts. Padding bytes of the C structures are zero.
\<close>

datatype sockaddr =
    SIn (sin_addr: u32) (sin_port: u16)
  | SIn6 (sin6_addr: "u64 \<times> u64") (sin6_port: u16) (sin6_flowinfo: u32) (sin6_scope_id: u32)
  | SOther nat

fun sa_family :: "sockaddr \<Rightarrow> nat" where
  "sa_family (SIn _ _) = 2"
| "sa_family (SIn6 _ _ _ _) = 10"
| "sa_family (SOther af) = af"

fun getsocklen :: "sockaddr \<Rightarrow> nat option" where
  "getsocklen (SIn _ _) = Some 16"
| "getsocklen (SIn6 _ _ _ _) = Some 28"
| "getsocklen (SOther _) = None"

fun copy_sa :: "sockaddr \<Rightarrow> sockaddr option" where
  "copy_sa (SIn a p) = Some (SIn a p)"
| "copy_sa (SIn6 a p f s) = Some (SIn6 a p f s)"
| "copy_sa (SOther _) = None"

text \<open>The comparison of the memory images.\<close>

fun sa_equals :: "sockaddr \<Rightarrow> sockaddr \<Rightarrow> bool option" where
  "sa_equals (SIn a p) (SIn b q) = Some (a = b \<and> p = q)"
| "sa_equals (SIn6 a p f s) (SIn6 b q g t) = Some (a = b \<and> p = q \<and> f = g \<and> s = t)"
| "sa_equals (SOther x) (SOther y) = (if x \<noteq> y then Some False else None)"
| "sa_equals _ _ = Some False"

definition sa_matches_inet :: "u32 \<Rightarrow> u16 \<Rightarrow> u32 \<Rightarrow> u16 \<Rightarrow> bool" where
  "sa_matches_inet baddr bport daddr dport =
     (if bport \<noteq> dport then False
      else if baddr \<noteq> 0 \<and> baddr \<noteq> daddr then False else True)"

definition sa_matches_inet6 :: "u64 \<times> u64 \<Rightarrow> u16 \<Rightarrow> u64 \<times> u64 \<Rightarrow> u16 \<Rightarrow> bool" where
  "sa_matches_inet6 baddr bport daddr dport =
     (if bport \<noteq> dport then False
      else if baddr \<noteq> (0, 0) \<and> baddr \<noteq> daddr then False else True)"

fun sa_matches :: "sockaddr \<Rightarrow> sockaddr \<Rightarrow> bool option" where
  "sa_matches (SIn a p) (SIn b q) = Some (sa_matches_inet a p b q)"
| "sa_matches (SIn6 a p _ _) (SIn6 b q _ _) = Some (sa_matches_inet6 a p b q)"
| "sa_matches (SOther x) (SOther y) = (if x \<noteq> y then Some False else None)"
| "sa_matches _ _ = Some False"

text \<open>The first usable entry of a list of resolved addresses.\<close>

fun find_addrinfo :: "sockaddr list \<Rightarrow> sockaddr option" where
  "find_addrinfo [] = None"
| "find_addrinfo (a # it) = (case a of SOther _ \<Rightarrow> find_addrinfo it | _ \<Rightarrow> Some a)"

definition addr_set_any :: "nat \<Rightarrow> sockaddr option" where
  "addr_set_any family =
     (if family = 2 then Some (SIn 0 0) else if family = 10 then Some (SIn6 (0, 0) 0 0 0) else None)"

text \<open>Bytes of overhead of a UDP packet in the given domain.\<close>

definition udp_overhead :: "nat \<Rightarrow> nat option" where
  "udp_overhead domain = (if domain = 2 then Some 28 else if domain = 10 then Some 48 else None)"

subsection \<open>Addresses in messages\<close>

definition ATYP_INET :: u8 where "ATYP_INET = 0"
definition ATYP_INET6 :: u8 where "ATYP_INET6 = 1"
definition INETADDR_LENGTH :: nat where "INETADDR_LENGTH = 7"
definition INET6ADDR_LENGTH :: nat where "INET6ADDR_LENGTH = 19"

lemmas inetaddr_consts = ATYP_INET_def ATYP_INET6_def INETADDR_LENGTH_def INET6ADDR_LENGTH_def

text \<open>The address and the number of bytes read; \<open>None\<close> for a result of 0.\<close>

definition inetaddr_read :: "bytes \<Rightarrow> (sockaddr \<times> nat) option" where
  "inetaddr_read b =
     (if length b < 1 then None
      else do {
        addrtype \<leftarrow> read_uint8 b;
        let p = drop 1 b;
        if addrtype = ATYP_INET then
          (if length b < INETADDR_LENGTH then None
           else do { a \<leftarrow> read_uint32 p; port \<leftarrow> read_uint16 (drop 4 p);
                     Some (SIn a port, INETADDR_LENGTH) })
        else if addrtype = ATYP_INET6 then
          (if length b < INET6ADDR_LENGTH then None
           else do { hi \<leftarrow> read_uint64 p; lo \<leftarrow> read_uint64 (drop 8 p);
                     port \<leftarrow> read_uint16 (drop 16 p);
                     Some (SIn6 (hi, lo) port 0 0, INET6ADDR_LENGTH) })
        else None })"

text \<open>The bytes written into a buffer of \<open>n\<close> bytes; \<open>None\<close> for a result of 0.\<close>

fun inetaddr_write :: "nat \<Rightarrow> sockaddr \<Rightarrow> bytes option" where
  "inetaddr_write n (SIn a port) =
     (if n < INETADDR_LENGTH then None
      else Some (write_uint8 ATYP_INET @ write_uint32 a @ write_uint16 port))"
| "inetaddr_write n (SIn6 (hi, lo) port _ _) =
     (if n < INET6ADDR_LENGTH then None
      else Some (write_uint8 ATYP_INET6 @ write_uint64 hi @ write_uint64 lo @ write_uint16 port))"
| "inetaddr_write n (SOther _) = None"

text \<open>What survives the encoding: flow label and scope do not.\<close>

fun sa_plain :: "sockaddr \<Rightarrow> sockaddr" where
  "sa_plain (SIn6 a port _ _) = SIn6 a port 0 0"
| "sa_plain sa = sa"

lemma inetaddr_roundtrip_lemma:
  assumes "inetaddr_write n sa = Some b"
  shows "inetaddr_read (b @ rest) = Some (sa_plain sa, length b)"
  using assms
  by (cases "(n, sa)" rule: inetaddr_write.cases)
    (auto simp: inetaddr_read_def inetaddr_consts write_uint8_def split: if_splits)

lemma inetaddr_write_length:
  "inetaddr_write n sa = Some b \<Longrightarrow> length b \<le> n \<and> (length b = INETADDR_LENGTH \<or> length b = INET6ADDR_LENGTH)"
  by (cases "(n, sa)" rule: inetaddr_write.cases) (auto simp: inetaddr_consts split: if_splits)

lemma inetaddr_read_bound: "inetaddr_read b = Some (sa, k) \<Longrightarrow> 0 < k \<and> k \<le> length b"
  by (auto simp: inetaddr_read_def inetaddr_consts Let_def bind_eq_Some_conv split: if_splits)

subsection \<open>Addresses a punch may go to\<close>

fun is_punch_addr :: "sockaddr \<Rightarrow> bool" where
  "is_punch_addr (SIn addr port) =
     (addr \<noteq> 0 \<and> addr AND 0xff000000 \<noteq> 0xff000000 \<and> addr AND 0xf0000000 \<noteq> 0xe0000000 \<and> port \<noteq> 0)"
| "is_punch_addr (SIn6 (hi, lo) port _ _) =
     ((hi, lo) \<noteq> (0, 0) \<and> (hi, lo) \<noteq> (0, 1) \<and> drop_bit 54 hi \<noteq> 0x3fa \<and> drop_bit 56 hi \<noteq> 0xff \<and>
      port \<noteq> 0)"
| "is_punch_addr (SOther _) = False"

subsection \<open>Session keys\<close>

definition SESSION_KEY_SIZE :: nat where "SESSION_KEY_SIZE = 32"

text \<open>
  The memory image of an address on a little-endian host: family and scope in host order, the rest in
  network order.
\<close>

fun sa_image :: "sockaddr \<Rightarrow> bytes" where
  "sa_image (SIn a port) = write_uint16_le 2 @ write_uint16 port @ write_uint32 a @ replicate 8 0"
| "sa_image (SIn6 (hi, lo) port flow scope) =
     write_uint16_le 10 @ write_uint16 port @ write_uint32 flow @ write_uint64 hi @ write_uint64 lo @
     write_uint32_le scope"
| "sa_image (SOther _) = []"

definition SESSION_MAKEKEY :: "sockaddr \<Rightarrow> u32 \<Rightarrow> bytes option" where
  "SESSION_MAKEKEY sa conv =
     do { n \<leftarrow> getsocklen sa;
          Some (write_uint32 conv @ take n (sa_image sa) @ replicate (SESSION_KEY_SIZE - 4 - n) 0) }"

lemma length_write_le [simp]:
  "length (write_uint16_le v) = 2" "length (write_uint32_le w) = 4"
  by (simp_all add: write_uint16_le_def write_uint32_le_def)

lemma sa_image_length: "getsocklen sa = Some n \<Longrightarrow> length (sa_image sa) = n"
  by (cases sa rule: sa_image.cases) auto

lemma SESSION_MAKEKEY_length: "SESSION_MAKEKEY sa conv = Some key \<Longrightarrow> length key = SESSION_KEY_SIZE"
  by (cases sa rule: sa_image.cases) (auto simp: SESSION_MAKEKEY_def SESSION_KEY_SIZE_def)

text \<open>Writers are injective, also in front of other bytes.\<close>

lemma write_inj:
  "write_uint16 a @ x = write_uint16 b @ y \<longleftrightarrow> a = b \<and> x = y"
  "write_uint32 c @ x = write_uint32 d @ y \<longleftrightarrow> c = d \<and> x = y"
  "write_uint64 e @ x = write_uint64 f @ y \<longleftrightarrow> e = f \<and> x = y"
  "write_uint32_le c @ x = write_uint32_le d @ y \<longleftrightarrow> c = d \<and> x = y"
  "write_uint16_le a @ x = write_uint16_le b @ y \<longleftrightarrow> a = b \<and> x = y"
  by (metis append_eq_append_conv length_write_uint16 read_write_uint16 option.inject)
    (metis append_eq_append_conv length_write_uint32 read_write_uint32 option.inject,
     metis append_eq_append_conv length_write_uint64 read_write_uint64 option.inject,
     metis append_eq_append_conv length_write_le(2) read_write_uint32_le option.inject,
     metis append_eq_append_conv length_write_le(1) read_write_uint16_le option.inject)

lemma sa_image_inj:
  assumes "getsocklen a = Some m" "getsocklen b = Some n"
    and "sa_image a @ replicate (28 - m) 0 = sa_image b @ replicate (28 - n) 0"
  shows "a = b"
  using assms
  by (cases a rule: sa_image.cases; cases b rule: sa_image.cases)
    (auto simp: write_inj write_inj(2,4) [where x = "[]" and y = "[]", simplified])

lemma SESSION_MAKEKEY_inj:
  assumes "SESSION_MAKEKEY a c = Some key" "SESSION_MAKEKEY b d = Some key"
  shows "a = b \<and> c = d"
proof -
  obtain m where m: "getsocklen a = Some m"
    "key = write_uint32 c @ sa_image a @ replicate (28 - m) 0"
    using assms(1) by (auto simp: SESSION_MAKEKEY_def SESSION_KEY_SIZE_def bind_eq_Some_conv sa_image_length)
  obtain n where n: "getsocklen b = Some n"
    "key = write_uint32 d @ sa_image b @ replicate (28 - n) 0"
    using assms(2) by (auto simp: SESSION_MAKEKEY_def SESSION_KEY_SIZE_def bind_eq_Some_conv sa_image_length)
  have "c = d \<and> sa_image a @ replicate (28 - m) 0 = sa_image b @ replicate (28 - n) 0"
    using m(2) n(2) by (metis write_inj(2))
  then show ?thesis using sa_image_inj [OF m(1) n(1)] by blast
qed

subsection \<open>Properties\<close>

text \<open>
  (C14) An address written by \<open>inetaddr_write\<close> is read back by \<open>inetaddr_read\<close>, whatever follows it in
  the message, with the number of bytes it took; it fits the room given.
\<close>

theorem inetaddr_roundtrip:
  assumes "inetaddr_write n sa = Some b"
  shows "inetaddr_read (b @ rest) = Some (sa_plain sa, length b) \<and> length b \<le> n"
  using inetaddr_roundtrip_lemma [OF assms] inetaddr_write_length [OF assms] by blast

theorem inetaddr_roundtrip_witness:
  "inetaddr_read ([0, 192, 0, 2, 1, 31, 144] @ [9]) = Some (SIn 0xc0000201 8080, 7)"
proof -
  have "inetaddr_write 20 (SIn 0xc0000201 8080) = Some [0, 192, 0, 2, 1, 31, 144]" by code_simp
  from inetaddr_roundtrip [OF this, of "[9]"] show ?thesis by simp
qed

text \<open>
  (C13) Two sessions have the same key in the session table only when peer address and conversation are
  the same.
\<close>

theorem session_key_unique:
  assumes "SESSION_MAKEKEY a c = Some key" "SESSION_MAKEKEY b d = Some key"
  shows "a = b \<and> c = d"
  using assms by (rule SESSION_MAKEKEY_inj)

theorem session_key_unique_witness:
  "\<exists>key. SESSION_MAKEKEY (SIn 1 2) 3 = Some key \<and> (SIn 1 2 = SIn 1 2 \<and> (3 :: u32) = 3)"
proof -
  obtain key where k: "SESSION_MAKEKEY (SIn 1 2) 3 = Some key" by (simp add: SESSION_MAKEKEY_def)
  from k session_key_unique [OF k k] show ?thesis by blast
qed


end
