(* ===== verification/Event_Kcp.thy ===== *)
theory Event_Kcp
  imports Session_Base Sockaddr
begin

text \<open>
  The state of a session (\<open>struct session\<close> of \<open>src/src/session.h\<close>), the part of the world its handlers
  see, and the functions between a session and its KCP control block (\<open>src/src/event_kcp.c\<close>).
\<close>

subsection \<open>State\<close>

text \<open>Times are in milliseconds; \<open>TSTAMP_NIL\<close> marks an unset time.\<close>

type_synonym tstamp = int

definition TSTAMP_NIL :: tstamp where "TSTAMP_NIL = -1"

definition TSTAMP2MS :: "tstamp \<Rightarrow> u32" where
  "TSTAMP2MS t = word_of_int t"

record link_stats =
  tcp_rx :: u64
  tcp_tx :: u64
  kcp_rx :: u64
  kcp_tx :: u64
  pkt_rx :: u64
  pkt_tx :: u64

definition no_stats :: link_stats where
  "no_stats = \<lparr>tcp_rx = 0, tcp_tx = 0, kcp_rx = 0, kcp_tx = 0, pkt_rx = 0, pkt_tx = 0\<rparr>"

text \<open>
  Null pointers are \<open>None\<close>. The buffers hold the bytes up to \<open>len\<close>; the four bytes the code reserves
  for the header at the front of \<open>rbuf\<close> are not part of it. The socket watcher is its descriptor
  (\<open>None\<close> for -1), the events asked for and whether it is active.
\<close>

record session =
  ss_kcp :: "ikcpcb option"
  ss_tcp_state :: session_state
  ss_kcp_state :: session_state
  ss_kcp_flush :: int
  ss_conv :: u32
  ss_raddr :: sockaddr
  ss_fd :: "nat option"
  ss_ev_read :: bool
  ss_ev_write :: bool
  ss_io_active :: bool
  ss_flush_active :: bool
  ss_created :: tstamp
  ss_last_reset :: tstamp
  ss_last_send :: tstamp
  ss_last_recv :: tstamp
  ss_is_accepted :: bool
  ss_rbuf :: "bytes option"
  ss_wbuf :: "bytes option"
  ss_wbuf_flush :: nat
  ss_wbuf_next :: nat
  ss_stats :: link_stats

text \<open>
  Results of the system calls: an error is transient (to be retried) or not; \<open>recv\<close> returns bytes, none
  of them at the end of the stream; \<open>send\<close> takes a number of bytes; a connection attempt fails, is
  under way or succeeds.
\<close>

datatype recv_result = RecvBytes bytes | RecvError bool
datatype send_result = SendBytes nat | SendError bool
datatype dial_result = DialFail | DialPending nat | DialDone nat

text \<open>
  The world of a handler: the time, whether an allocation of a size succeeds, the results of the calls
  to come (a call beyond the list fails transiently), and what the handler has done so far: bytes read
  from and written to the TCP socket, bytes that went through KCP, and packets for the network.
\<close>

record world =
  w_now :: tstamp
  w_alloc :: "nat \<Rightarrow> bool"
  w_recv :: "recv_result list"
  w_send :: "send_result list"
  w_dial :: dial_result
  w_sockerr :: bool
  w_tcp_in :: bytes
  w_tcp_out :: bytes
  w_sent :: bytes
  w_got :: bytes
  w_pkts :: "bytes list"

subsection \<open>event\_kcp.c\<close>

definition kcp_cansend :: "session \<Rightarrow> bool" where
  "kcp_cansend ss = (case ss_kcp ss of None \<Rightarrow> False | Some kcp \<Rightarrow> ikcp_waitsnd kcp < k_snd_wnd kcp)"

definition kcp_canrecv :: "session \<Rightarrow> bool" where
  "kcp_canrecv ss = (case ss_kcp ss of None \<Rightarrow> False | Some kcp \<Rightarrow> ikcp_peeksize kcp > 0)"

definition kcp_send :: "session \<Rightarrow> world \<Rightarrow> bytes \<Rightarrow> (bool \<times> session \<times> world) option" where
  "kcp_send ss w buf =
     do { kcp \<leftarrow> ss_kcp ss;
          let (r, kcp') = ikcp_send (w_alloc w) kcp buf (int (length buf));
          let ss' = ss\<lparr>ss_kcp := Some kcp'\<rparr>;
          Some (if r < 0 then (False, ss', w)
                else (True, ss'\<lparr>ss_last_send := w_now w\<rparr>,
                      w\<lparr>w_sent := w_sent w @ take (nat r) buf\<rparr>)) }"

definition kcp_sendmsg :: "session \<Rightarrow> world \<Rightarrow> u16 \<Rightarrow> (bool \<times> session \<times> world) option" where
  "kcp_sendmsg ss w msg =
     kcp_send ss w (tlv_header_write \<lparr>h_msg = msg, h_len = of_nat TLV_HEADER_SIZE\<rparr>)"

definition kcp_push :: "session \<Rightarrow> world \<Rightarrow> (bool \<times> session \<times> world) option" where
  "kcp_push ss w =
     do { rbuf \<leftarrow> ss_rbuf ss;
          let len = TLV_HEADER_SIZE + length rbuf;
          let header = \<lparr>h_msg = SMSG_PUSH, h_len = of_nat len\<rparr>;
          kcp_send (ss\<lparr>ss_rbuf := Some []\<rparr>) w (tlv_header_write header @ rbuf) }"

text \<open>The loop of \<open>kcp_recv\<close>: the bytes received while \<open>cap\<close> lasts.\<close>

function kcp_recv_loop :: "ikcpcb \<Rightarrow> nat \<Rightarrow> bytes \<times> ikcpcb" where
  "kcp_recv_loop kcp cap =
     (if cap = 0 then ([], kcp)
      else let (r, d, kcp') = ikcp_recv kcp (int cap) in
        if r \<le> 0 then ([], kcp')
        else let (ds, kcp'') = kcp_recv_loop kcp' (cap - nat r) in (d @ ds, kcp''))"
  by pat_completeness auto
termination
  by (relation "measure snd") auto

declare kcp_recv_loop.simps [simp del]

definition kcp_recv :: "session \<Rightarrow> world \<Rightarrow> (session \<times> world) option" where
  "kcp_recv ss w =
     do { wbuf \<leftarrow> ss_wbuf ss; kcp \<leftarrow> ss_kcp ss;
          let (d, kcp') = kcp_recv_loop kcp (SESSION_BUF_SIZE - length wbuf);
          let ss' = ss\<lparr>ss_kcp := Some kcp'\<rparr>;
          Some (if d \<noteq> []
                then (ss'\<lparr>ss_wbuf := Some (wbuf @ d), ss_last_recv := w_now w\<rparr>,
                      w\<lparr>w_got := w_got w @ d\<rparr>)
                else (ss', w)) }"

end
