(* ===== verification/Event_Tcp.thy ===== *)
theory Event_Tcp
  imports Event_Kcp
begin

text \<open>
  Opening and closing the two sides of a session (\<open>src/src/session.c\<close>) and the TCP side of it
  (\<open>src/src/event_tcp.c\<close>). A dereference of a null pointer and an access outside a buffer are \<open>None\<close>.
\<close>

subsection \<open>Closing\<close>

definition consume_wbuf :: "session \<Rightarrow> nat \<Rightarrow> session option" where
  "consume_wbuf ss n =
     do { wbuf \<leftarrow> ss_wbuf ss;
          if length wbuf < n then None
          else Some (ss\<lparr>ss_wbuf := Some (drop n wbuf), ss_wbuf_flush := 0, ss_wbuf_next := 0\<rparr>) }"

definition session_kcp_flush :: "session \<Rightarrow> session" where
  "session_kcp_flush ss =
     (if ss_flush_active ss then ss else ss\<lparr>ss_flush_active := True\<rparr>)"

definition session_tcp_stop :: "session \<Rightarrow> session" where
  "session_tcp_stop ss =
     (let ss = ss\<lparr>ss_tcp_state := STATE_TIME_WAIT\<rparr> in
      case ss_fd ss of None \<Rightarrow> ss
      | Some _ \<Rightarrow> ss\<lparr>ss_fd := None, ss_ev_read := False, ss_ev_write := False, ss_io_active := False\<rparr>)"

definition session_kcp_stop :: "session \<Rightarrow> session" where
  "session_kcp_stop ss =
     ss\<lparr>ss_kcp_state := STATE_TIME_WAIT, ss_kcp := None, ss_rbuf := None, ss_wbuf := None\<rparr>"

definition session_kcp_close :: "session \<Rightarrow> world \<Rightarrow> (session \<times> world) option" where
  "session_kcp_close ss w =
     (if ss_kcp_state ss = STATE_CONNECT \<or> ss_kcp_state ss = STATE_CONNECTED then
        do { (ok, ss, w) \<leftarrow> kcp_sendmsg ss w SMSG_EOF;
             if \<not> ok then Some (session_kcp_stop ss, w)
             else
               (let ss = ss\<lparr>ss_kcp_state := STATE_LINGER\<rparr> in
                Some (if ss_kcp_flush ss \<ge> 1 then session_kcp_flush ss else ss, w)) }
      else Some (ss, w))"

definition session_tcp_start :: "session \<Rightarrow> nat \<Rightarrow> session" where
  "session_tcp_start ss fd =
     ss\<lparr>ss_fd := Some fd, ss_ev_read := True, ss_ev_write := True, ss_io_active := True\<rparr>"

definition session_free :: "session \<Rightarrow> session" where
  "session_free ss = (session_kcp_stop (session_tcp_stop ss))\<lparr>ss_flush_active := False\<rparr>"

definition session_kcp_send :: "session \<Rightarrow> world \<Rightarrow> (bool \<times> session \<times> world) option" where
  "session_kcp_send ss w =
     (if ss_kcp_state ss = STATE_CONNECT \<or> ss_kcp_state ss = STATE_CONNECTED then
        do { rbuf \<leftarrow> ss_rbuf ss;
             if length rbuf = 0 then Some (True, ss, w)
             else do { (ok, ss, w) \<leftarrow> kcp_push ss w;
                       Some (if \<not> ok then (False, ss, w)
                             else (True, if ss_kcp_flush ss \<ge> 1 then session_kcp_flush ss else ss, w)) } }
      else Some (False, ss, w))"

subsection \<open>Watching the socket\<close>

definition modify_io_events :: "session \<Rightarrow> bool \<Rightarrow> bool \<Rightarrow> session" where
  "modify_io_events ss rd wr =
     (if \<not> rd \<and> \<not> wr then (if ss_io_active ss then ss\<lparr>ss_io_active := False\<rparr> else ss)
      else
        (let ss = (if rd \<noteq> ss_ev_read ss \<or> wr \<noteq> ss_ev_write ss
                   then ss\<lparr>ss_io_active := False, ss_ev_read := rd, ss_ev_write := wr\<rparr> else ss)
         in if \<not> ss_io_active ss then ss\<lparr>ss_io_active := True\<rparr> else ss))"

definition tcp_notify :: "session \<Rightarrow> session" where
  "tcp_notify ss =
     (if ss_tcp_state ss = STATE_CONNECTED \<or> ss_tcp_state ss = STATE_LINGER then
        (let is_linger = (ss_tcp_state ss = STATE_LINGER);
             has_data = (ss_wbuf_flush ss < ss_wbuf_next ss)
         in if is_linger \<and> \<not> has_data then session_tcp_stop ss
            else modify_io_events ss (kcp_cansend ss) (is_linger \<or> has_data))
      else ss)"

subsection \<open>Receiving\<close>

text \<open>Results are 0 for OK, 1 for wait, -1 for closed, as in the code.\<close>

definition tcp_recv :: "session \<Rightarrow> world \<Rightarrow> (int \<times> session \<times> world) option" where
  "tcp_recv ss w =
     (if \<not> kcp_cansend ss then Some (1, ss, w)
      else do {
        rbuf \<leftarrow> ss_rbuf ss;
        if TLV_MAX_LENGTH - TLV_HEADER_SIZE < length rbuf then None
        else
          (let cap = TLV_MAX_LENGTH - TLV_HEADER_SIZE - length rbuf in
           if cap = 0 then Some (1, ss, w)
           else case w_recv w of
             [] \<Rightarrow> Some (1, ss, w)
           | RecvError transient # rs \<Rightarrow>
               Some (if transient then 1 else -1, ss, w\<lparr>w_recv := rs\<rparr>)
           | RecvBytes data # rs \<Rightarrow>
               (let d = take cap data in
                if d = [] then Some (-1, ss, w\<lparr>w_recv := rs\<rparr>)
                else Some (0, ss\<lparr>ss_rbuf := Some (rbuf @ d),
                               ss_stats := (ss_stats ss)\<lparr>tcp_rx := tcp_rx (ss_stats ss) + of_nat (length d)\<rparr>\<rparr>,
                           w\<lparr>w_recv := rs, w_tcp_in := w_tcp_in w @ d\<rparr>))) })"

lemma tcp_recv_consumes: "tcp_recv ss w = Some (0, ss', w') \<Longrightarrow> length (w_recv w') < length (w_recv w)"
  by (auto simp: tcp_recv_def Let_def bind_eq_Some_conv split: if_splits list.splits recv_result.splits)

lemma session_kcp_send_recv: "session_kcp_send ss w = Some (ok, ss', w') \<Longrightarrow> w_recv w' = w_recv w"
  by (auto simp: session_kcp_send_def kcp_push_def kcp_send_def bind_eq_Some_conv case_prod_beta Let_def
      split: if_splits)

function tcp_recv_loop :: "session \<Rightarrow> world \<Rightarrow> (int \<times> session \<times> world) option" where
  "tcp_recv_loop ss w =
     (case tcp_recv ss w of
        None \<Rightarrow> None
      | Some (ret, ss1, w1) \<Rightarrow>
          (case session_kcp_send ss1 w1 of
             None \<Rightarrow> None
           | Some (ok, ss2, w2) \<Rightarrow>
               if \<not> ok then Some (-1, ss2, w2)
               else if ret = 0 then tcp_recv_loop ss2 w2 else Some (ret, ss2, w2)))"
  by pat_completeness auto
termination
  by (relation "measure (\<lambda>(ss, w). length (w_recv w))")
    (auto dest!: tcp_recv_consumes session_kcp_send_recv)

declare tcp_recv_loop.simps [simp del]

text \<open>Both ways out on failure stop the TCP side and close the KCP side.\<close>

definition tcp_recv_all :: "session \<Rightarrow> world \<Rightarrow> (session \<times> world) option" where
  "tcp_recv_all ss w =
     (if ss_tcp_state ss = STATE_CONNECTED then
        do { (ret, ss, w) \<leftarrow> tcp_recv_loop ss w;
             if ret < 0 then session_kcp_close (session_tcp_stop ss) w else Some (ss, w) }
      else Some (ss, w))"

subsection \<open>Sending\<close>

definition tcp_send :: "session \<Rightarrow> world \<Rightarrow> (int \<times> session \<times> world) option" where
  "tcp_send ss w =
     (if ss_wbuf_next ss < ss_wbuf_flush ss then None
      else
        (let len = ss_wbuf_next ss - ss_wbuf_flush ss in
         if len = 0 then Some (1, ss, w)
         else do {
           wbuf \<leftarrow> ss_wbuf ss;
           if length wbuf < ss_wbuf_next ss then None
           else case w_send w of
             [] \<Rightarrow> Some (1, ss, w)
           | SendError transient # rs \<Rightarrow>
               Some (if transient then 1 else -1, ss, w\<lparr>w_send := rs\<rparr>)
           | SendBytes n # rs \<Rightarrow>
               (let ret = min n len in
                if ret = 0 then Some (1, ss, w\<lparr>w_send := rs\<rparr>)
                else Some (if ret < len then 0 else 1,
                       ss\<lparr>ss_wbuf_flush := ss_wbuf_flush ss + ret,
                          ss_stats := (ss_stats ss)\<lparr>tcp_tx := tcp_tx (ss_stats ss) + of_nat ret\<rparr>\<rparr>,
                       w\<lparr>w_send := rs, w_tcp_out := w_tcp_out w @ take ret (drop (ss_wbuf_flush ss) wbuf)\<rparr>)) }))"

lemma tcp_send_consumes: "tcp_send ss w = Some (0, ss', w') \<Longrightarrow> length (w_send w') < length (w_send w)"
  by (auto simp: tcp_send_def Let_def bind_eq_Some_conv split: if_splits list.splits send_result.splits)

function tcp_send_loop :: "session \<Rightarrow> world \<Rightarrow> (int \<times> session \<times> world) option" where
  "tcp_send_loop ss w =
     (case tcp_send ss w of
        None \<Rightarrow> None
      | Some (ret, ss1, w1) \<Rightarrow> if ret = 0 then tcp_send_loop ss1 w1 else Some (ret, ss1, w1))"
  by pat_completeness auto
termination
  by (relation "measure (\<lambda>(ss, w). length (w_send w))") (auto dest!: tcp_send_consumes)

declare tcp_send_loop.simps [simp del]

definition tcp_flush :: "session \<Rightarrow> world \<Rightarrow> (session \<times> world) option" where
  "tcp_flush ss w =
     (if ss_tcp_state ss = STATE_CONNECTED \<or> ss_tcp_state ss = STATE_LINGER then
        do { (ret, ss, w) \<leftarrow> tcp_send_loop ss w;
             if ret < 0 then session_kcp_close (session_tcp_stop ss) w else Some (ss, w) }
      else Some (ss, w))"

definition connected_cb :: "session \<Rightarrow> world \<Rightarrow> (session \<times> world) option" where
  "connected_cb ss w =
     (if w_sockerr w then session_kcp_close (session_tcp_stop ss) w
      else Some (ss\<lparr>ss_tcp_state := STATE_CONNECTED\<rparr>, w))"

end
