(* ===== verification/Session.thy ===== *)
theory Session
  imports Event_Tcp
begin

text \<open>
  The session state machine (\<open>src/src/session.c\<close>): messages from the peer, the handlers the event loop
  calls, the creation of a session, and the timers (\<open>src/src/event_timer.c\<close>).
\<close>

subsection \<open>Messages from the peer\<close>

text \<open>The socket set up by \<open>forward_dial\<close> is in \<open>w_dial\<close>: the outcome of creating and connecting it.\<close>

definition forward_dial :: "session \<Rightarrow> world \<Rightarrow> bool \<times> session" where
  "forward_dial ss w =
     (case w_dial w of
        DialFail \<Rightarrow> (False, ss)
      | DialPending fd \<Rightarrow> (True, session_tcp_start (ss\<lparr>ss_tcp_state := STATE_CONNECT\<rparr>) fd)
      | DialDone fd \<Rightarrow> (True, session_tcp_start (ss\<lparr>ss_tcp_state := STATE_CONNECTED\<rparr>) fd))"

definition session_on_msg :: "session \<Rightarrow> world \<Rightarrow> tlv_header \<Rightarrow> (bool \<times> session \<times> world) option" where
  "session_on_msg ss w hdr =
     (if h_msg hdr = SMSG_DIAL then
        (if unat (h_len hdr) \<noteq> TLV_HEADER_SIZE then Some (False, ss, w)
         else if ss_tcp_state ss \<noteq> STATE_INIT then Some (False, ss, w)
         else let (ok, ss) = forward_dial ss w in Some (ok, ss, w))
      else if h_msg hdr = SMSG_PUSH then
        Some (True, ss\<lparr>ss_wbuf_flush := TLV_HEADER_SIZE\<rparr>, w)
      else if h_msg hdr = SMSG_EOF then
        (if unat (h_len hdr) \<noteq> TLV_HEADER_SIZE then Some (False, ss, w)
         else Some (True, ss\<lparr>ss_kcp_state := STATE_LINGER, ss_tcp_state := STATE_LINGER,
                            ss_wbuf_flush := ss_wbuf_next ss\<rparr>, w))
      else if h_msg hdr = SMSG_KEEPALIVE then
        (if unat (h_len hdr) \<noteq> TLV_HEADER_SIZE then Some (False, ss, w)
         else if ss_is_accepted ss then kcp_sendmsg ss w SMSG_KEEPALIVE
         else Some (True, ss, w))
      else Some (False, ss, w))"

text \<open>Results: 0 for OK, 1 for wait, -1 for an error.\<close>

definition tlv_length_bad :: "tlv_header \<Rightarrow> bool" where
  "tlv_length_bad hdr \<longleftrightarrow> unat (h_len hdr) < TLV_HEADER_SIZE \<and> unat (h_len hdr) > TLV_MAX_LENGTH"

definition ss_process :: "session \<Rightarrow> world \<Rightarrow> (int \<times> session \<times> world) option" where
  "ss_process ss w =
     (if ss_wbuf_flush ss < ss_wbuf_next ss then Some (1, ss, w)
      else do {
        ss \<leftarrow> (if ss_wbuf_flush ss > 0 then consume_wbuf ss (ss_wbuf_flush ss) else Some ss);
        (ss, w) \<leftarrow> kcp_recv ss w;
        wbuf \<leftarrow> ss_wbuf ss;
        if length wbuf < TLV_HEADER_SIZE then Some (1, ss, w)
        else do {
          hdr \<leftarrow> tlv_header_read wbuf;
          if tlv_length_bad hdr then Some (-1, ss, w)
          else if length wbuf < unat (h_len hdr) then Some (1, ss, w)
          else do {
            (ok, ss, w) \<leftarrow> session_on_msg (ss\<lparr>ss_wbuf_next := unat (h_len hdr)\<rparr>) w hdr;
            if \<not> ok then Some (-1, ss, w)
            else if ss_wbuf_flush ss > 0 then do { (ss, w) \<leftarrow> tcp_flush ss w; Some (0, ss, w) }
            else do { ss \<leftarrow> consume_wbuf ss (ss_wbuf_next ss); Some (0, ss, w) } } } })"

subsection \<open>Event handlers\<close>

partial_function (option) session_read_loop :: "session \<Rightarrow> world \<Rightarrow> (int \<times> session \<times> world) option" where
  "session_read_loop ss w =
     (if ss_kcp_state ss = STATE_CONNECTED then
        do { (ret, ss, w) \<leftarrow> ss_process ss w;
             if ret = 0 then session_read_loop ss w else Some (ret, ss, w) }
      else Some (0, ss, w))"

declare session_read_loop.simps [code]

definition session_read_cb :: "session \<Rightarrow> world \<Rightarrow> (session \<times> world) option" where
  "session_read_cb ss w =
     do { (ret, ss, w) \<leftarrow> session_read_loop ss w;
          if ret < 0 then session_kcp_close (session_tcp_stop ss) w
          else Some (tcp_notify ss, w) }"

definition kcp_alive :: "session \<Rightarrow> bool" where
  "kcp_alive ss \<longleftrightarrow> ss_kcp_state ss = STATE_CONNECT \<or> ss_kcp_state ss = STATE_CONNECTED \<or>
     ss_kcp_state ss = STATE_LINGER"

definition ss_flush_cb :: "session \<Rightarrow> world \<Rightarrow> (session \<times> world) option" where
  "ss_flush_cb ss w =
     (let ss = ss\<lparr>ss_flush_active := False\<rparr> in
      if kcp_alive ss then
        do { kcp \<leftarrow> ss_kcp ss;
             let (kcp', pkts) = ikcp_flush kcp;
             Some (tcp_notify (ss\<lparr>ss_kcp := Some kcp'\<rparr>), w\<lparr>w_pkts := w_pkts w @ pkts\<rparr>) }
      else Some (ss, w))"

definition kcp_update :: "session \<Rightarrow> world \<Rightarrow> (session \<times> world) option" where
  "kcp_update ss w =
     (if kcp_alive ss then
        do { kcp \<leftarrow> ss_kcp ss;
             let (kcp', pkts) = ikcp_update kcp (TSTAMP2MS (w_now w));
             Some (tcp_notify (ss\<lparr>ss_kcp := Some kcp'\<rparr>), w\<lparr>w_pkts := w_pkts w @ pkts\<rparr>) }
      else Some (ss, w))"

definition tcp_socket_cb :: "session \<Rightarrow> world \<Rightarrow> bool \<Rightarrow> bool \<Rightarrow> (session \<times> world) option" where
  "tcp_socket_cb ss w rd wr =
     (if \<not> rd \<and> \<not> wr then Some (ss, w)
      else do {
        (ss, w) \<leftarrow> (if ss_tcp_state ss = STATE_CONNECT then connected_cb ss w else Some (ss, w));
        (ss, w) \<leftarrow> (if rd then tcp_recv_all ss w else Some (ss, w));
        (ss, w) \<leftarrow> (if wr then tcp_flush ss w else Some (ss, w));
        if wr \<and> ss_tcp_state ss = STATE_CONNECTED \<and> ss_wbuf_flush ss = ss_wbuf_next ss
        then session_read_cb ss w
        else Some (tcp_notify ss, w) })"

text \<open>
  The part of \<open>queue_recv\<close> after the session of a packet has been found and its address compared
  (\<open>src/src/pktqueue.c\<close>). The second result says whether a reset is to be sent.
\<close>

definition session_input :: "session \<Rightarrow> world \<Rightarrow> bytes \<Rightarrow> (bool \<times> session \<times> world) option" where
  "session_input ss w packet =
     (if ss_kcp_state ss = STATE_TIME_WAIT then
        (if ss_last_reset ss = TSTAMP_NIL \<or> w_now w - ss_last_reset ss > 1000
         then Some (True, ss\<lparr>ss_last_reset := w_now w\<rparr>, w) else Some (False, ss, w))
      else do {
        let ss = (if ss_kcp_state ss = STATE_CONNECT then ss\<lparr>ss_kcp_state := STATE_CONNECTED\<rparr> else ss);
        kcp \<leftarrow> ss_kcp ss;
        (r, kcp') \<leftarrow> ikcp_input (w_alloc w) kcp packet;
        let ss = ss\<lparr>ss_kcp := Some kcp'\<rparr>;
        if r < 0 then Some (False, ss, w)
        else do {
          let ss = ss\<lparr>ss_stats := (ss_stats ss)\<lparr>kcp_rx := kcp_rx (ss_stats ss) + of_nat (length packet)\<rparr>\<rparr>;
          (ss, w) \<leftarrow> session_read_cb (if ss_kcp_flush ss \<ge> 2 then session_kcp_flush ss else ss) w;
          Some (False, ss, w) } })"

subsection \<open>Creation\<close>

text \<open>
  \<open>mem i\<close> says whether the allocation of the structure, the two buffers, the control block and the
  buffer of \<open>ikcp_setmtu\<close> succeeds, for \<open>i\<close> from 0 to 4.
\<close>

definition session_new ::
  "(nat \<Rightarrow> bool) \<Rightarrow> config \<Rightarrow> u16 \<Rightarrow> tstamp \<Rightarrow> sockaddr \<Rightarrow> u32 \<Rightarrow> session option" where
  "session_new mem conf mss now addr conv =
     (if \<not> mem 0 \<or> \<not> mem 1 \<or> \<not> mem 2 \<or> \<not> mem 3 then None
      else Some \<lparr>ss_kcp = Some (kcp_new (mem 4) conf mss conv), ss_tcp_state = STATE_INIT,
        ss_kcp_state = STATE_INIT, ss_kcp_flush = c_kcp_flush conf, ss_conv = conv, ss_raddr = addr,
        ss_fd = None, ss_ev_read = False, ss_ev_write = False, ss_io_active = False,
        ss_flush_active = False, ss_created = now, ss_last_reset = TSTAMP_NIL,
        ss_last_send = TSTAMP_NIL, ss_last_recv = TSTAMP_NIL, ss_is_accepted = False,
        ss_rbuf = Some [], ss_wbuf = Some [], ss_wbuf_flush = 0, ss_wbuf_next = 0,
        ss_stats = no_stats\<rparr>)"

text \<open>The two ways a session comes up: an accepted TCP connection, and a packet of a new peer.\<close>

definition accept_tcp :: "session \<Rightarrow> world \<Rightarrow> nat \<Rightarrow> (session option \<times> world) option" where
  "accept_tcp ss w fd =
     do { (ok, ss, w) \<leftarrow> kcp_sendmsg (ss\<lparr>ss_kcp_state := STATE_CONNECT, ss_tcp_state := STATE_CONNECTED\<rparr>)
            w SMSG_DIAL;
          Some (if ok then Some (session_tcp_start ss fd) else None, w) }"

definition accept_kcp :: "session \<Rightarrow> session" where
  "accept_kcp ss = ss\<lparr>ss_is_accepted := True, ss_kcp_state := STATE_CONNECT\<rparr>"

subsection \<open>Timers\<close>

record timeouts =
  t_dial_timeout :: tstamp
  t_session_timeout :: tstamp
  t_session_keepalive :: tstamp
  t_linger :: tstamp
  t_time_wait :: tstamp

text \<open>The result is false when the session was freed.\<close>

definition timeout_filt :: "timeouts \<Rightarrow> session \<Rightarrow> world \<Rightarrow> (bool \<times> session \<times> world) option" where
  "timeout_filt t ss w =
     (let now = w_now w; age = now - ss_created ss in
      case ss_kcp_state ss of
        STATE_INIT \<Rightarrow>
          (if age > t_dial_timeout t
           then do { (ss, w) \<leftarrow> session_kcp_close (session_tcp_stop ss) w; Some (True, ss, w) }
           else Some (True, ss, w))
      | STATE_CONNECT \<Rightarrow>
          (if age > t_dial_timeout t
           then do { (ss, w) \<leftarrow> session_kcp_close (session_tcp_stop ss) w; Some (True, ss, w) }
           else Some (True, ss, w))
      | STATE_CONNECTED \<Rightarrow>
          (let not_seen = (if ss_last_recv ss \<noteq> TSTAMP_NIL then now - ss_last_recv ss else age) in
           if not_seen > t_session_timeout t
           then Some (True, session_kcp_stop (session_tcp_stop ss), w)
           else if \<not> ss_is_accepted ss \<and> not_seen > t_session_keepalive t
           then do { (_, ss, w) \<leftarrow> kcp_sendmsg ss w SMSG_KEEPALIVE; Some (True, ss, w) }
           else Some (True, ss, w))
      | STATE_LINGER \<Rightarrow>
          (let not_seen = (if ss_last_send ss \<noteq> TSTAMP_NIL then now - ss_last_send ss else age) in
           if not_seen > t_linger t then Some (True, session_kcp_stop ss, w) else Some (True, ss, w))
      | STATE_TIME_WAIT \<Rightarrow>
          (let not_seen = (if ss_last_reset ss \<noteq> TSTAMP_NIL then now - ss_last_reset ss else age) in
           if not_seen > t_time_wait t then Some (False, session_free ss, w) else Some (True, ss, w)))"

end
