(* ===== verification/Cityhash.thy ===== *)
theory Cityhash
  imports Serialize
begin

text \<open>
  CityHash64 (\<open>src/contrib/csnippets/algo/cityhash.c\<close>), the hash of the session table and of the
  nonce filter. A string is its bytes; a read past its end is \<open>None\<close>, and the theorem of this file is
  that there is none, for strings of every length.
\<close>

subsection \<open>Mixing\<close>

definition city_k0 :: u64 where "city_k0 = 0xc3a5c85c97cb3127"
definition city_k1 :: u64 where "city_k1 = 0xb492b66fbe98f273"
definition city_k2 :: u64 where "city_k2 = 0x9ae16a3b2f90404f"

definition ROTR :: "u64 \<Rightarrow> nat \<Rightarrow> u64" where
  "ROTR x r = drop_bit r x OR push_bit (64 - r) x"

definition BSWAP64 :: "u64 \<Rightarrow> u64" where
  "BSWAP64 x = (case read_uint64 (write_uint64_le x) of Some y \<Rightarrow> y | None \<Rightarrow> 0)"

definition shift_mix :: "u64 \<Rightarrow> u64" where
  "shift_mix v = v XOR drop_bit 47 v"

definition HashLen16mul :: "u64 \<Rightarrow> u64 \<Rightarrow> u64 \<Rightarrow> u64" where
  "HashLen16mul u v mul =
     (let a = (u XOR v) * mul; a = a XOR drop_bit 47 a;
          b = (v XOR a) * mul; b = b XOR drop_bit 47 b
      in b * mul)"

definition Hash128to64 :: "u64 \<Rightarrow> u64 \<Rightarrow> u64" where
  "Hash128to64 x0 x1 =
     (let kMul = 0x9ddfea08eb382d69;
          a = (x0 XOR x1) * kMul; a = a XOR drop_bit 47 a;
          b = (x1 XOR a) * kMul; b = b XOR drop_bit 47 b
      in b * kMul)"

definition HashLen16 :: "u64 \<Rightarrow> u64 \<Rightarrow> u64" where
  "HashLen16 u v = Hash128to64 u v"

subsection \<open>Short strings\<close>

definition HashLen0to16 :: "bytes \<Rightarrow> u64 option" where
  "HashLen0to16 s =
     (let len = length s; l = of_nat len :: u64 in
      if len \<ge> 8 then do {
        let mul = city_k2 + l * 2;
        a0 \<leftarrow> read_uint64 s;
        let a = a0 + city_k2;
        b \<leftarrow> read_uint64 (drop (len - 8) s);
        let c = ROTR b 37 * mul + a;
        let d = (ROTR a 25 + b) * mul;
        Some (HashLen16mul c d mul) }
      else if len \<ge> 4 then do {
        let mul = city_k2 + l * 2;
        a \<leftarrow> read_uint32 s;
        b \<leftarrow> read_uint32 (drop (len - 4) s);
        Some (HashLen16mul (l + push_bit 3 (ucast a)) (ucast b) mul) }
      else if len > 0 then
        (let a = s ! 0; b = s ! (len div 2); c = s ! (len - 1);
             y = (ucast a :: u32) + push_bit 8 (ucast b);
             z = (of_nat len :: u32) + push_bit 2 (ucast c)
         in Some (shift_mix (ucast y * city_k2 XOR ucast z * city_k0) * city_k2))
      else Some city_k2)"

definition HashLen17to32 :: "bytes \<Rightarrow> u64 option" where
  "HashLen17to32 s =
     (let len = length s; mul = city_k2 + of_nat len * 2 in
      do { a0 \<leftarrow> read_uint64 s; let a = a0 * city_k1;
           b \<leftarrow> read_uint64 (drop 8 s);
           c0 \<leftarrow> read_uint64 (drop (len - 8) s); let c = c0 * mul;
           d0 \<leftarrow> read_uint64 (drop (len - 16) s); let d = d0 * city_k2;
           Some (HashLen16mul (ROTR (a + b) 43 + ROTR c 30 + d) (a + ROTR (b + city_k2) 18 + c) mul) })"

definition HashLen33to64 :: "bytes \<Rightarrow> u64 option" where
  "HashLen33to64 s =
     (let len = length s; mul = city_k2 + of_nat len * 2 in
      do { a0 \<leftarrow> read_uint64 s; let a = a0 * city_k2;
           b \<leftarrow> read_uint64 (drop 8 s);
           c \<leftarrow> read_uint64 (drop (len - 24) s);
           d \<leftarrow> read_uint64 (drop (len - 32) s);
           e0 \<leftarrow> read_uint64 (drop 16 s); let e = e0 * city_k2;
           f0 \<leftarrow> read_uint64 (drop 24 s); let f = f0 * 9;
           g \<leftarrow> read_uint64 (drop (len - 8) s);
           h0 \<leftarrow> read_uint64 (drop (len - 16) s); let h = h0 * mul;
           let u = ROTR (a + g) 43 + (ROTR b 30 + c) * 9;
           let v = ((a + g) XOR d) + f + 1;
           let w = BSWAP64 ((u + v) * mul) + h;
           let x = ROTR (e + f) 42 + c;
           let y = (BSWAP64 ((v + w) * mul) + g) * mul;
           let z = e + f + c;
           let a = BSWAP64 ((x + z) * mul + y) + b;
           let b = shift_mix ((z + a) * mul + d + h) * mul;
           Some (b + x) })"

subsection \<open>Long strings\<close>

definition WeakHashLen32WithSeeds :: "u64 \<Rightarrow> u64 \<Rightarrow> u64 \<Rightarrow> u64 \<Rightarrow> u64 \<Rightarrow> u64 \<Rightarrow> u64 \<times> u64" where
  "WeakHashLen32WithSeeds w x y z a b =
     (let a = a + w; b = ROTR (b + a + z) 21; c = a; a = a + x; a = a + y; b = b + ROTR a 44
      in (a + z, b + c))"

definition WeakHashLen32WithSeedsStr :: "bytes \<Rightarrow> u64 \<Rightarrow> u64 \<Rightarrow> (u64 \<times> u64) option" where
  "WeakHashLen32WithSeedsStr s a b =
     do { w \<leftarrow> read_uint64 s; x \<leftarrow> read_uint64 (drop 8 s); y \<leftarrow> read_uint64 (drop 16 s);
          z \<leftarrow> read_uint64 (drop 24 s); Some (WeakHashLen32WithSeeds w x y z a b) }"

record city_state =
  cs_v :: "u64 \<times> u64"
  cs_w :: "u64 \<times> u64"
  cs_x :: u64
  cs_y :: u64
  cs_z :: u64

text \<open>One round on the 64 bytes at \<open>s\<close>.\<close>

definition city_round :: "bytes \<Rightarrow> city_state \<Rightarrow> city_state option" where
  "city_round s c =
     (let v = cs_v c; w = cs_w c in
      do { s8 \<leftarrow> read_uint64 (drop 8 s); s48 \<leftarrow> read_uint64 (drop 48 s);
           s40 \<leftarrow> read_uint64 (drop 40 s); s16 \<leftarrow> read_uint64 (drop 16 s);
           let x = ROTR (cs_x c + cs_y c + fst v + s8) 37 * city_k1;
           let y = ROTR (cs_y c + snd v + s48) 42 * city_k1;
           let x = x XOR snd w;
           let y = y + (fst v + s40);
           let z = ROTR (cs_z c + fst w) 33 * city_k1;
           v' \<leftarrow> WeakHashLen32WithSeedsStr s (snd v * city_k1) (x + fst w);
           w' \<leftarrow> WeakHashLen32WithSeedsStr (drop 32 s) (z + snd w) (y + s16);
           Some \<lparr>cs_v = v', cs_w = w', cs_x = z, cs_y = y, cs_z = x\<rparr> })"

text \<open>The loop over the \<open>n\<close> 64-byte chunks.\<close>

fun city_loop :: "nat \<Rightarrow> bytes \<Rightarrow> city_state \<Rightarrow> city_state option" where
  "city_loop 0 s c = Some c"
| "city_loop (Suc n) s c = do { c \<leftarrow> city_round s c; city_loop n (drop 64 s) c }"

definition CityHash64 :: "bytes \<Rightarrow> u64 option" where
  "CityHash64 s =
     (let len = length s; l = of_nat len :: u64 in
      if len \<le> 32 then (if len \<le> 16 then HashLen0to16 s else HashLen17to32 s)
      else if len \<le> 64 then HashLen33to64 s
      else do {
        x \<leftarrow> read_uint64 (drop (len - 40) s);
        y1 \<leftarrow> read_uint64 (drop (len - 16) s); y2 \<leftarrow> read_uint64 (drop (len - 56) s);
        let y = y1 + y2;
        z1 \<leftarrow> read_uint64 (drop (len - 48) s); z2 \<leftarrow> read_uint64 (drop (len - 24) s);
        let z = HashLen16 (z1 + l) z2;
        v \<leftarrow> WeakHashLen32WithSeedsStr (drop (len - 64) s) l z;
        w \<leftarrow> WeakHashLen32WithSeedsStr (drop (len - 32) s) (y + city_k1) x;
        s0 \<leftarrow> read_uint64 s;
        c \<leftarrow> city_loop ((len - 1) div 64) s
              \<lparr>cs_v = v, cs_w = w, cs_x = x * city_k1 + s0, cs_y = y, cs_z = z\<rparr>;
        Some (HashLen16 (HashLen16 (fst (cs_v c)) (fst (cs_w c)) + shift_mix (cs_y c) * city_k1 + cs_z c)
                        (HashLen16 (snd (cs_v c)) (snd (cs_w c)) + cs_x c)) })"

definition CityHash64WithSeeds :: "bytes \<Rightarrow> u64 \<Rightarrow> u64 \<Rightarrow> u64 option" where
  "CityHash64WithSeeds s seed0 seed1 = do { h \<leftarrow> CityHash64 s; Some (HashLen16 (h - seed0) seed1) }"

definition CityHash64WithSeed :: "bytes \<Rightarrow> u64 \<Rightarrow> u64 option" where
  "CityHash64WithSeed s seed = CityHash64WithSeeds s city_k2 seed"

definition cityhash64_64 :: "bytes \<Rightarrow> u64 \<Rightarrow> u64 option" where
  "cityhash64_64 s seed = CityHash64WithSeed s seed"

definition cityhash64low_32 :: "bytes \<Rightarrow> u32 \<Rightarrow> u32 option" where
  "cityhash64low_32 s seed = do { h \<leftarrow> CityHash64WithSeed s (ucast seed); Some (ucast h) }"

subsection \<open>No read past the end\<close>

lemma read_uint64_enough: "8 \<le> length s \<Longrightarrow> \<exists>v. read_uint64 s = Some v"
  by (cases s rule: read_uint64.cases) auto

lemma read_uint32_enough: "4 \<le> length s \<Longrightarrow> \<exists>v. read_uint32 s = Some v"
  by (cases s rule: read_uint32.cases) auto

lemma read64_at: "i + 8 \<le> length s \<Longrightarrow> \<exists>v. read_uint64 (drop i s) = Some v"
  by (rule read_uint64_enough) simp

lemma HashLen0to16_total: "\<exists>h. HashLen0to16 s = Some h"
  using read_uint64_enough [of s] read64_at [of "length s - 8" s]
    read_uint32_enough [of s] read_uint32_enough [of "drop (length s - 4) s"]
  by (auto simp: HashLen0to16_def Let_def)

lemma HashLen17to32_total: "16 < length s \<Longrightarrow> \<exists>h. HashLen17to32 s = Some h"
  using read_uint64_enough [of s] read64_at [of 8 s] read64_at [of "length s - 8" s]
    read64_at [of "length s - 16" s]
  by (auto simp: HashLen17to32_def Let_def)

lemma HashLen33to64_total: "32 < length s \<Longrightarrow> \<exists>h. HashLen33to64 s = Some h"
  using read_uint64_enough [of s] read64_at [of 8 s] read64_at [of "length s - 24" s]
    read64_at [of "length s - 32" s] read64_at [of 16 s] read64_at [of 24 s]
    read64_at [of "length s - 8" s] read64_at [of "length s - 16" s]
  by (auto simp: HashLen33to64_def Let_def)

lemma WeakHash_total: "32 \<le> length s \<Longrightarrow> \<exists>h. WeakHashLen32WithSeedsStr s a b = Some h"
  using read_uint64_enough [of s] read64_at [of 8 s] read64_at [of 16 s] read64_at [of 24 s]
  by (auto simp: WeakHashLen32WithSeedsStr_def)

lemma city_round_total:
  assumes "64 \<le> length s"
  shows "\<exists>c'. city_round s c = Some c'"
proof -
  obtain s8 s16 s40 s48 where r: "read_uint64 (drop 8 s) = Some s8" "read_uint64 (drop 16 s) = Some s16"
    "read_uint64 (drop 40 s) = Some s40" "read_uint64 (drop 48 s) = Some s48"
    using assms read64_at [of 8 s] read64_at [of 16 s] read64_at [of 40 s] read64_at [of 48 s] by auto
  have v: "\<exists>h. WeakHashLen32WithSeedsStr s a b = Some h"
    "\<exists>h. WeakHashLen32WithSeedsStr (drop 32 s) a b = Some h" for a b
    using assms WeakHash_total [of s] WeakHash_total [of "drop 32 s"] by auto
  show ?thesis
    using v by (fastforce simp: city_round_def Let_def r bind_eq_Some_conv)
qed

lemma city_loop_total: "64 * n \<le> length s \<Longrightarrow> \<exists>c'. city_loop n s c = Some c'"
proof (induction n arbitrary: s c)
  case (Suc n)
  obtain c1 where c1: "city_round s c = Some c1" using city_round_total [of s c] Suc.prems by auto
  have "\<exists>c'. city_loop n (drop 64 s) c1 = Some c'" using Suc.prems by (intro Suc.IH) simp
  with c1 show ?case by simp
qed simp

lemma CityHash64_total: "\<exists>h. CityHash64 s = Some h"
proof (cases "length s \<le> 64")
  case True
  then show ?thesis
    using HashLen0to16_total HashLen17to32_total HashLen33to64_total by (auto simp: CityHash64_def Let_def)
next
  case False
  let ?len = "length s"
  obtain x y1 y2 z1 z2 s0 where r: "read_uint64 (drop (?len - 40) s) = Some x"
    "read_uint64 (drop (?len - 16) s) = Some y1" "read_uint64 (drop (?len - 56) s) = Some y2"
    "read_uint64 (drop (?len - 48) s) = Some z1" "read_uint64 (drop (?len - 24) s) = Some z2"
    "read_uint64 s = Some s0"
    using False read64_at [of "?len - 40" s] read64_at [of "?len - 16" s] read64_at [of "?len - 56" s]
      read64_at [of "?len - 48" s] read64_at [of "?len - 24" s] read_uint64_enough [of s] by auto
  have v: "\<exists>h. WeakHashLen32WithSeedsStr (drop (?len - 64) s) a b = Some h"
    "\<exists>h. WeakHashLen32WithSeedsStr (drop (?len - 32) s) a b = Some h" for a b
    using False WeakHash_total [of "drop (?len - 64) s"] WeakHash_total [of "drop (?len - 32) s"] by auto
  have "64 * ((?len - 1) div 64) \<le> ?len" using False by simp
  then have "\<exists>c'. city_loop ((?len - 1) div 64) s c = Some c'" for c by (rule city_loop_total)
  with v False show ?thesis
    by (fastforce simp: CityHash64_def Let_def r bind_eq_Some_conv)
qed

lemma cityhash64low_32_total: "\<exists>h. cityhash64low_32 s seed = Some h"
  using CityHash64_total [of s]
  by (auto simp: cityhash64low_32_def CityHash64WithSeed_def CityHash64WithSeeds_def)


end
