(* ===== verification/Nonce.thy ===== *)
theory Nonce
  imports Cityhash
begin

text \<open>
  The Bloom filter (\<open>src/contrib/libbloom/bloom.c\<close>) and the nonce filter built from two of them
  (\<open>src/src/nonce.c\<close>), which is what keeps a recorded packet from being accepted again.
\<close>

subsection \<open>Bloom filters\<close>

record bloom =
  bl_entries :: nat
  bl_bits :: u32
  bl_bytes :: nat
  bl_hashes :: u32
  bl_bf :: bytes
  bl_ready :: bool

text \<open>The bit and the buffer afterwards; \<open>None\<close> for an access outside the buffer.\<close>

definition test_bit_set_bit :: "bytes \<Rightarrow> u32 \<Rightarrow> bool \<Rightarrow> (bool \<times> bytes) option" where
  "test_bit_set_bit buf x setb =
     (let byte = unat (drop_bit 3 x) in
      if length buf \<le> byte then None
      else
        (let c = buf ! byte; i = unat (x mod 8) in
         if bit c i then Some (True, buf)
         else Some (False, if setb then buf[byte := c OR push_bit i 1] else buf)))"

text \<open>
  The loop over the hash functions \<open>i\<close>, with \<open>n\<close> of them left: the number of bits found set, or \<open>None\<close>
  inside when the check stops early.
\<close>

fun bloom_loop :: "u32 \<Rightarrow> u32 \<Rightarrow> u32 \<Rightarrow> bool \<Rightarrow> nat \<Rightarrow> u32 \<Rightarrow> nat \<Rightarrow> bytes \<Rightarrow> (nat option \<times> bytes) option" where
  "bloom_loop a b bits add 0 i hits buf = Some (Some hits, buf)"
| "bloom_loop a b bits add (Suc n) i hits buf =
     do { (is_set, buf) \<leftarrow> test_bit_set_bit buf ((a + i * b) mod bits) add;
          if is_set then bloom_loop a b bits add n (i + 1) (Suc hits) buf
          else if \<not> add then Some (None, buf)
          else bloom_loop a b bits add n (i + 1) hits buf }"

definition bloom_check_add :: "bloom \<Rightarrow> bytes \<Rightarrow> bool \<Rightarrow> (int \<times> bloom) option" where
  "bloom_check_add bl buffer add =
     (if \<not> bl_ready bl then Some (-1, bl)
      else do {
        a \<leftarrow> cityhash64low_32 buffer 0x9747b28c;
        b \<leftarrow> cityhash64low_32 buffer a;
        (hits, buf) \<leftarrow> bloom_loop a b (bl_bits bl) add (unat (bl_hashes bl)) 0 0 (bl_bf bl);
        Some (if hits = Some (unat (bl_hashes bl)) then 1 else 0, bl\<lparr>bl_bf := buf\<rparr>) })"

definition bloom_check :: "bloom \<Rightarrow> bytes \<Rightarrow> (int \<times> bloom) option" where
  "bloom_check bl buffer = bloom_check_add bl buffer False"

definition bloom_add :: "bloom \<Rightarrow> bytes \<Rightarrow> (int \<times> bloom) option" where
  "bloom_add bl buffer = bloom_check_add bl buffer True"

definition bloom_reset :: "bloom \<Rightarrow> int \<times> bloom" where
  "bloom_reset bl =
     (if \<not> bl_ready bl then (1, bl) else (0, bl\<lparr>bl_bf := replicate (bl_bytes bl) 0\<rparr>))"

text \<open>
  \<open>bits\<close> and \<open>hashes\<close> are what the floating-point computation of \<open>bloom_init\<close> gives for the number of
  entries and the error rate; \<open>mem\<close> is whether the buffer is allocated.
\<close>

definition bloom_init :: "bool \<Rightarrow> nat \<Rightarrow> bool \<Rightarrow> u32 \<Rightarrow> u32 \<Rightarrow> bloom option" where
  "bloom_init mem entries error_zero bits hashes =
     (if entries < 1000 \<or> error_zero then None
      else
        (let bytes = (if bits mod 8 \<noteq> 0 then unat (bits div 8) + 1 else unat (bits div 8)) in
         if \<not> mem then None
         else Some \<lparr>bl_entries = entries, bl_bits = bits, bl_bytes = bytes, bl_hashes = hashes,
                    bl_bf = replicate bytes 0, bl_ready = True\<rparr>))"

subsection \<open>Nonces\<close>

record ppbloom =
  pp_bloom :: "bool \<Rightarrow> bloom"
  pp_count :: "bool \<Rightarrow> nat"
  pp_entries :: nat
  pp_current :: bool

text \<open>The two filters are indexed by the low bit of \<open>current\<close>.\<close>

definition ppbloom_check_add :: "ppbloom \<Rightarrow> bytes \<Rightarrow> (bool \<times> ppbloom) option" where
  "ppbloom_check_add b buffer =
     (let i = pp_current b; j = (\<not> i) in
      do { (added, bi) \<leftarrow> bloom_add (pp_bloom b i) buffer;
           (ret, bj) \<leftarrow> (if added \<noteq> 0 then Some (True, pp_bloom b j)
                        else do { (r, bj) \<leftarrow> bloom_check (pp_bloom b j) buffer; Some (r \<noteq> 0, bj) });
           let b = b\<lparr>pp_bloom := (pp_bloom b)(i := bi, j := bj),
                     pp_count := (pp_count b)(i := pp_count b i + 1)\<rparr>;
           Some (ret,
             if pp_count b i \<ge> pp_entries b
             then b\<lparr>pp_bloom := (pp_bloom b)(j := snd (bloom_reset (pp_bloom b j))),
                    pp_count := (pp_count b)(j := 0), pp_current := j\<rparr>
             else b) })"

datatype noncegen_method = noncegen_counter | noncegen_random

record noncegen =
  ng_method :: noncegen_method
  ng_ppbloom :: ppbloom
  ng_buf :: bytes

definition NONCE_MAX_LENGTH :: nat where "NONCE_MAX_LENGTH = 32"

text \<open>\<open>rand\<close> is what the random generator of libsodium fills the buffer with.\<close>

definition noncegen_init :: "bytes \<Rightarrow> noncegen \<Rightarrow> noncegen" where
  "noncegen_init rand g = (if ng_method g = noncegen_counter then g\<lparr>ng_buf := rand\<rparr> else g)"

text \<open>\<open>dims\<close> is the floating-point computation of \<open>bloom_init\<close>, from entries and strictness.\<close>

definition noncegen_create :: "(nat \<Rightarrow> bool) \<Rightarrow> (nat \<Rightarrow> bool \<Rightarrow> u32 \<times> u32) \<Rightarrow> bytes \<Rightarrow>
    noncegen_method \<Rightarrow> nat \<Rightarrow> bool \<Rightarrow> noncegen option" where
  "noncegen_create mem dims rand method nonce_len strict =
     (if \<not> mem 0 then None
      else
        (let entries = (if strict then 2 ^ 20 else 2 ^ 14); (bits, hashes) = dims entries strict in
         if NONCE_MAX_LENGTH < nonce_len then None
         else do {
           b0 \<leftarrow> bloom_init (mem 1) entries False bits hashes;
           b1 \<leftarrow> bloom_init (mem 2) entries False bits hashes;
           Some (noncegen_init rand
             \<lparr>ng_method = method,
              ng_ppbloom = \<lparr>pp_bloom = (\<lambda>i. if i then b1 else b0), pp_count = (\<lambda>_. 0),
                            pp_entries = entries, pp_current = False\<rparr>,
              ng_buf = replicate nonce_len 0\<rparr>) }))"

text \<open>\<open>incr\<close> is \<open>sodium_increment\<close>.\<close>

definition noncegen_next :: "(bytes \<Rightarrow> bytes) \<Rightarrow> bytes \<Rightarrow> noncegen \<Rightarrow> bytes \<times> noncegen" where
  "noncegen_next incr rand g =
     (let g = g\<lparr>ng_buf := (case ng_method g of noncegen_counter \<Rightarrow> incr (ng_buf g) | noncegen_random \<Rightarrow> rand)\<rparr>
      in (ng_buf g, g))"

definition noncegen_verify :: "noncegen \<Rightarrow> bytes \<Rightarrow> (bool \<times> noncegen) option" where
  "noncegen_verify g nonce =
     do { (seen, b) \<leftarrow> ppbloom_check_add (ng_ppbloom g) nonce;
          Some (\<not> seen, g\<lparr>ng_ppbloom := b\<rparr>) }"

subsection \<open>No false negatives\<close>

definition bset :: "bytes \<Rightarrow> u32 \<Rightarrow> bool" where
  "bset buf x = bit (buf ! unat (drop_bit 3 x)) (unat (x mod 8))"

text \<open>The buffer covers the bits that are addressed.\<close>

definition bloom_ok :: "bloom \<Rightarrow> bool" where
  "bloom_ok bl \<longleftrightarrow> bl_ready bl \<and> 0 < bl_bits bl \<and> length (bl_bf bl) = bl_bytes bl \<and>
     unat (bl_bits bl) \<le> 8 * bl_bytes bl"

lemma test_bit_set_bit_spec:
  assumes "unat x < 8 * length buf"
  shows "\<exists>buf'. test_bit_set_bit buf x add = Some (bset buf x, buf') \<and> length buf' = length buf \<and>
    (\<forall>y. bset buf y \<longrightarrow> bset buf' y) \<and> (add \<longrightarrow> bset buf' x) \<and> (\<not> add \<longrightarrow> buf' = buf)"
proof -
  have b: "unat (drop_bit 3 x) < length buf"
    using assms by (simp add: drop_bit_eq_div unat_div less_mult_imp_div_less mult.commute)
  have m: "unat (x mod 8) < 8" by (simp add: unat_mod)
  show ?thesis
  proof (cases "bset buf x \<or> \<not> add")
    case True
    with b show ?thesis by (auto simp: test_bit_set_bit_def Let_def bset_def)
  next
    case False
    with b m show ?thesis
      by (auto simp: test_bit_set_bit_def Let_def bset_def bit_or_iff bit_exp_iff nth_list_update)
  qed
qed

text \<open>The bits the hash functions from \<open>i\<close> on address.\<close>

fun bpos :: "u32 \<Rightarrow> u32 \<Rightarrow> u32 \<Rightarrow> u32 \<Rightarrow> nat \<Rightarrow> u32 list" where
  "bpos a b bits i 0 = []"
| "bpos a b bits i (Suc n) = (a + i * b) mod bits # bpos a b bits (i + 1) n"

lemma bloom_loop_spec:
  assumes "0 < bits" "unat bits \<le> 8 * length buf"
  shows "\<exists>r buf'. bloom_loop a b bits add n i hits buf = Some (r, buf') \<and> length buf' = length buf \<and>
    (\<forall>y. bset buf y \<longrightarrow> bset buf' y) \<and> (add \<longrightarrow> (\<forall>x \<in> set (bpos a b bits i n). bset buf' x)) \<and>
    (\<not> add \<longrightarrow> buf' = buf) \<and>
    ((\<forall>x \<in> set (bpos a b bits i n). bset buf x) \<longrightarrow> r = Some (hits + n))"
  using assms(2)
proof (induction n arbitrary: i hits buf)
  case 0
  then show ?case by simp
next
  case (Suc n)
  define x where "x = (a + i * b) mod bits"
  have "unat x < unat bits" using assms(1) by (simp add: x_def unat_mod unat_gt_0)
  with Suc.prems obtain buf1 where t: "test_bit_set_bit buf x add = Some (bset buf x, buf1)"
    "length buf1 = length buf" "\<forall>y. bset buf y \<longrightarrow> bset buf1 y" "add \<longrightarrow> bset buf1 x" "\<not> add \<longrightarrow> buf1 = buf"
    using test_bit_set_bit_spec [of x buf add] by auto
  from Suc.IH [of buf1 "i + 1" "if bset buf x then Suc hits else hits"] Suc.prems t(2)
  obtain r buf' where l: "bloom_loop a b bits add n (i + 1) (if bset buf x then Suc hits else hits) buf1
      = Some (r, buf')"
    "length buf' = length buf1" "\<forall>y. bset buf1 y \<longrightarrow> bset buf' y"
    "add \<longrightarrow> (\<forall>y \<in> set (bpos a b bits (i + 1) n). bset buf' y)" "\<not> add \<longrightarrow> buf' = buf1"
    "(\<forall>y \<in> set (bpos a b bits (i + 1) n). bset buf1 y) \<longrightarrow>
      r = Some ((if bset buf x then Suc hits else hits) + n)"
    by auto
  show ?case
  proof (cases "bset buf x \<or> add")
    case True
    with t l show ?thesis
      by (auto simp flip: x_def split: if_splits)
  next
    case False
    with t show ?thesis by (auto simp flip: x_def)
  qed
qed

definition bloom_pos :: "bloom \<Rightarrow> bytes \<Rightarrow> u32 list" where
  "bloom_pos bl e =
     (let a = the (cityhash64low_32 e 0x9747b28c); b = the (cityhash64low_32 e a)
      in bpos a b (bl_bits bl) 0 (unat (bl_hashes bl)))"

text \<open>The filter holds \<open>e\<close>: all its bits are set.\<close>

definition bloom_has :: "bloom \<Rightarrow> bytes \<Rightarrow> bool" where
  "bloom_has bl e \<longleftrightarrow> (\<forall>x \<in> set (bloom_pos bl e). bset (bl_bf bl) x)"

definition same_dims :: "bloom \<Rightarrow> bloom \<Rightarrow> bool" where
  "same_dims bl bl' \<longleftrightarrow> (\<exists>bf. bl' = bl\<lparr>bl_bf := bf\<rparr>)"

lemma bloom_check_add_spec:
  assumes "bloom_ok bl"
  shows "\<exists>r bl'. bloom_check_add bl e add = Some (r, bl') \<and> bloom_ok bl' \<and> same_dims bl bl' \<and>
    (\<forall>f. bloom_has bl f \<longrightarrow> bloom_has bl' f) \<and> (add \<longrightarrow> bloom_has bl' e) \<and> (\<not> add \<longrightarrow> bl' = bl) \<and>
    (bloom_has bl e \<longrightarrow> r = 1)"
proof -
  obtain a where a: "cityhash64low_32 e 0x9747b28c = Some a" using cityhash64low_32_total by blast
  obtain b where b: "cityhash64low_32 e a = Some b" using cityhash64low_32_total by blast
  have pos: "bloom_pos bl e = bpos a b (bl_bits bl) 0 (unat (bl_hashes bl))"
    by (simp add: bloom_pos_def a b)
  have bits: "0 < bl_bits bl" "unat (bl_bits bl) \<le> 8 * length (bl_bf bl)"
    using assms by (auto simp: bloom_ok_def)
  obtain r buf' where l: "bloom_loop a b (bl_bits bl) add (unat (bl_hashes bl)) 0 0 (bl_bf bl) = Some (r, buf')"
    "length buf' = length (bl_bf bl)" "\<forall>y. bset (bl_bf bl) y \<longrightarrow> bset buf' y"
    "add \<longrightarrow> (\<forall>x \<in> set (bloom_pos bl e). bset buf' x)" "\<not> add \<longrightarrow> buf' = bl_bf bl"
    "(\<forall>x \<in> set (bloom_pos bl e). bset (bl_bf bl) x) \<longrightarrow> r = Some (unat (bl_hashes bl))"
    using bloom_loop_spec [OF bits, of a b add "unat (bl_hashes bl)" 0 0] unfolding pos by auto
  have "bloom_pos (bl\<lparr>bl_bf := buf'\<rparr>) f = bloom_pos bl f" for f by (simp add: bloom_pos_def)
  with assms l a b show ?thesis
    by (auto simp: bloom_check_add_def bloom_ok_def bloom_has_def same_dims_def)
qed

subsection \<open>Replays\<close>

definition ppbloom_ok :: "ppbloom \<Rightarrow> bool" where
  "ppbloom_ok b \<longleftrightarrow> (\<forall>i. bloom_ok (pp_bloom b i)) \<and> 0 < pp_entries b"

text \<open>A nonce that is still refused after \<open>k\<close> further nonces.\<close>

definition remembers :: "bytes \<Rightarrow> ppbloom \<Rightarrow> nat \<Rightarrow> bool" where
  "remembers n b k \<longleftrightarrow>
     (bloom_has (pp_bloom b (pp_current b)) n \<and> k < pp_entries b) \<or>
     (bloom_has (pp_bloom b (\<not> pp_current b)) n \<and> pp_count b (pp_current b) + k < pp_entries b)"

lemma bloom_reset_ok: "bloom_ok bl \<Longrightarrow> bloom_ok (snd (bloom_reset bl))"
  by (simp add: bloom_ok_def bloom_reset_def)

text \<open>Adding to the current filter and checking the other one, then the switch.\<close>

definition pp_switch :: "ppbloom \<Rightarrow> bloom \<Rightarrow> ppbloom" where
  "pp_switch b bi =
     (let i = pp_current b; j = (\<not> i);
          b = b\<lparr>pp_bloom := (pp_bloom b)(i := bi), pp_count := (pp_count b)(i := pp_count b i + 1)\<rparr>
      in if pp_count b i \<ge> pp_entries b
         then b\<lparr>pp_bloom := (pp_bloom b)(j := snd (bloom_reset (pp_bloom b j))),
                pp_count := (pp_count b)(j := 0), pp_current := j\<rparr>
         else b)"

lemma ppbloom_check_add_spec:
  assumes "ppbloom_ok b"
  shows "\<exists>r bi. ppbloom_check_add b e = Some (r, pp_switch b bi) \<and> bloom_ok bi \<and>
    (\<forall>f. bloom_has (pp_bloom b (pp_current b)) f \<longrightarrow> bloom_has bi f) \<and> bloom_has bi e \<and>
    (bloom_has (pp_bloom b (pp_current b)) e \<or> bloom_has (pp_bloom b (\<not> pp_current b)) e \<longrightarrow> r)"
proof -
  define i where "i = pp_current b"
  have ok: "bloom_ok (pp_bloom b i)" "bloom_ok (pp_bloom b (\<not> i))" using assms by (auto simp: ppbloom_ok_def)
  obtain r bi where a: "bloom_add (pp_bloom b i) e = Some (r, bi)" "bloom_ok bi"
    "\<forall>f. bloom_has (pp_bloom b i) f \<longrightarrow> bloom_has bi f" "bloom_has bi e" "bloom_has (pp_bloom b i) e \<longrightarrow> r = 1"
    using bloom_check_add_spec [OF ok(1), of e True] unfolding bloom_add_def by auto
  obtain q where c: "bloom_check (pp_bloom b (\<not> i)) e = Some (q, pp_bloom b (\<not> i))"
    "bloom_has (pp_bloom b (\<not> i)) e \<longrightarrow> q = 1"
    using bloom_check_add_spec [OF ok(2), of e False] unfolding bloom_check_def by auto
  have upd: "(pp_bloom b)(i := bi, (\<not> i) := pp_bloom b (\<not> i)) = (pp_bloom b)(i := bi)" by (rule ext) simp
  show ?thesis
    using a c by (auto simp: ppbloom_check_add_def pp_switch_def Let_def upd simp flip: i_def)
qed

lemma pp_switch_ok: "ppbloom_ok b \<Longrightarrow> bloom_ok bi \<Longrightarrow> ppbloom_ok (pp_switch b bi)"
  by (auto simp: pp_switch_def ppbloom_ok_def Let_def bloom_reset_ok)

lemma pp_switch_entries [simp]: "pp_entries (pp_switch b bi) = pp_entries b"
  by (simp add: pp_switch_def Let_def)

lemma pp_switch_remembers:
  assumes "remembers n b (Suc k)" "\<forall>f. bloom_has (pp_bloom b (pp_current b)) f \<longrightarrow> bloom_has bi f"
  shows "remembers n (pp_switch b bi) k"
  using assms by (auto simp: pp_switch_def remembers_def Let_def)

lemma pp_switch_new:
  "0 < pp_entries b \<Longrightarrow> bloom_has bi n \<Longrightarrow> remembers n (pp_switch b bi) (pp_entries b - 1)"
  by (auto simp: pp_switch_def remembers_def Let_def)

fun noncegen_verify_all :: "noncegen \<Rightarrow> bytes list \<Rightarrow> noncegen option" where
  "noncegen_verify_all g [] = Some g"
| "noncegen_verify_all g (n # ns) =
     do { (_, g) \<leftarrow> noncegen_verify g n; noncegen_verify_all g ns }"

lemma noncegen_verify_spec:
  assumes "ppbloom_ok (ng_ppbloom g)"
  shows "\<exists>r bi. noncegen_verify g n = Some (r, g\<lparr>ng_ppbloom := pp_switch (ng_ppbloom g) bi\<rparr>) \<and>
    bloom_ok bi \<and> bloom_has bi n \<and>
    (\<forall>f. bloom_has (pp_bloom (ng_ppbloom g) (pp_current (ng_ppbloom g))) f \<longrightarrow> bloom_has bi f) \<and>
    (remembers n (ng_ppbloom g) 0 \<longrightarrow> \<not> r)"
proof -
  obtain r bi where p: "ppbloom_check_add (ng_ppbloom g) n = Some (r, pp_switch (ng_ppbloom g) bi)"
    "bloom_ok bi" "\<forall>f. bloom_has (pp_bloom (ng_ppbloom g) (pp_current (ng_ppbloom g))) f \<longrightarrow> bloom_has bi f"
    "bloom_has bi n"
    "bloom_has (pp_bloom (ng_ppbloom g) (pp_current (ng_ppbloom g))) n \<or>
     bloom_has (pp_bloom (ng_ppbloom g) (\<not> pp_current (ng_ppbloom g))) n \<longrightarrow> r"
    using ppbloom_check_add_spec [OF assms, of n] by auto
  from p(5) have "remembers n (ng_ppbloom g) 0 \<longrightarrow> \<not> \<not> r" unfolding remembers_def by blast
  moreover have "noncegen_verify g n = Some (\<not> r, g\<lparr>ng_ppbloom := pp_switch (ng_ppbloom g) bi\<rparr>)"
    using p(1) by (simp add: noncegen_verify_def)
  ultimately show ?thesis using p(2-4) by blast
qed

lemma noncegen_verify_all_remembers:
  assumes "ppbloom_ok (ng_ppbloom g)" "remembers n (ng_ppbloom g) (length ns + k)"
  shows "\<exists>g'. noncegen_verify_all g ns = Some g' \<and> ppbloom_ok (ng_ppbloom g') \<and>
    remembers n (ng_ppbloom g') k"
  using assms
proof (induction ns arbitrary: g)
  case (Cons m ns)
  obtain r bi where v: "noncegen_verify g m = Some (r, g\<lparr>ng_ppbloom := pp_switch (ng_ppbloom g) bi\<rparr>)"
    "bloom_ok bi" "\<forall>f. bloom_has (pp_bloom (ng_ppbloom g) (pp_current (ng_ppbloom g))) f \<longrightarrow> bloom_has bi f"
    using noncegen_verify_spec [OF Cons.prems(1), of m] by auto
  have "remembers n (pp_switch (ng_ppbloom g) bi) (length ns + k)"
    using Cons.prems(2) v(3) by (intro pp_switch_remembers) simp_all
  with Cons.IH [of "g\<lparr>ng_ppbloom := pp_switch (ng_ppbloom g) bi\<rparr>"] v pp_switch_ok [OF Cons.prems(1) v(2)]
  show ?case by simp
qed simp

lemma replay_rejected_lemma:
  assumes "ppbloom_ok (ng_ppbloom g)" "noncegen_verify g n = Some (r, g1)"
    and "length ns < pp_entries (ng_ppbloom g)"
  shows "\<exists>g2 g3. noncegen_verify_all g1 ns = Some g2 \<and> noncegen_verify g2 n = Some (False, g3)"
proof -
  let ?b = "ng_ppbloom g"
  obtain bi where v: "g1 = g\<lparr>ng_ppbloom := pp_switch ?b bi\<rparr>" "bloom_ok bi" "bloom_has bi n"
    using noncegen_verify_spec [OF assms(1), of n] assms(2) by auto
  have ok: "ppbloom_ok (ng_ppbloom g1)" using pp_switch_ok [OF assms(1) v(2)] v(1) by simp
  have "remembers n (pp_switch ?b bi) (pp_entries ?b - 1)"
    using assms(1) v(3) by (intro pp_switch_new) (simp_all add: ppbloom_ok_def)
  then have "remembers n (ng_ppbloom g1) (length ns + (pp_entries ?b - 1 - length ns))"
    using assms(3) v(1) by simp
  from noncegen_verify_all_remembers [OF ok this] obtain g2 where g2: "noncegen_verify_all g1 ns = Some g2"
    "ppbloom_ok (ng_ppbloom g2)" "remembers n (ng_ppbloom g2) (pp_entries ?b - 1 - length ns)" by blast
  from g2(3) have "remembers n (ng_ppbloom g2) 0" by (auto simp: remembers_def)
  with noncegen_verify_spec [OF g2(2), of n] g2(1) show ?thesis by auto
qed

lemma bloom_init_ok: "bloom_init mem entries ez bits hashes = Some bl \<Longrightarrow> 0 < bits \<Longrightarrow> bloom_ok bl"
proof -
  assume a: "bloom_init mem entries ez bits hashes = Some bl" and "0 < bits"
  have d: "unat (bits mod 8) = unat bits mod 8" "unat (bits div 8) = unat bits div 8"
    by (simp_all add: unat_mod unat_div)
  have "bits mod 8 = 0 \<Longrightarrow> unat bits mod 8 = 0" using d(1) by simp
  with a \<open>0 < bits\<close> show ?thesis
    by (auto simp: bloom_init_def Let_def bloom_ok_def d split: if_splits)
qed

lemma noncegen_create_ok:
  assumes "noncegen_create mem dims rand method len strict = Some g"
    and "\<forall>e s. 0 < fst (dims e s)"
  shows "ppbloom_ok (ng_ppbloom g) \<and> pp_entries (ng_ppbloom g) = (if strict then 2 ^ 20 else 2 ^ 14)"
proof -
  define e where "e = (if strict then 2 ^ 20 else 2 ^ 14 :: nat)"
  obtain bits hashes where d: "dims e strict = (bits, hashes)" by fastforce
  with assms(2) have "0 < bits" by (metis fst_conv)
  moreover from assms(1) d obtain b0 b1 where
    "bloom_init (mem 1) e False bits hashes = Some b0" "bloom_init (mem 2) e False bits hashes = Some b1"
    "g = noncegen_init rand \<lparr>ng_method = method,
       ng_ppbloom = \<lparr>pp_bloom = (\<lambda>i. if i then b1 else b0), pp_count = (\<lambda>_. 0), pp_entries = e,
                     pp_current = False\<rparr>, ng_buf = replicate len 0\<rparr>"
    by (auto simp: noncegen_create_def Let_def bind_eq_Some_conv simp flip: e_def split: if_splits)
  ultimately show ?thesis
    by (auto simp: noncegen_init_def ppbloom_ok_def bloom_init_ok e_def)
qed

subsection \<open>Properties\<close>

text \<open>A generator with small filters, for the witness.\<close>

definition demo_noncegen :: noncegen where
  "demo_noncegen =
     \<lparr>ng_method = noncegen_random,
      ng_ppbloom = \<lparr>pp_bloom = (\<lambda>_. \<lparr>bl_entries = 1000, bl_bits = 64, bl_bytes = 8, bl_hashes = 2,
                                    bl_bf = replicate 8 0, bl_ready = True\<rparr>),
                    pp_count = (\<lambda>_. 0), pp_entries = 2, pp_current = False\<rparr>,
      ng_buf = [0, 0]\<rparr>"

lemma demo_noncegen_ok: "ppbloom_ok (ng_ppbloom demo_noncegen)"
  by (simp add: demo_noncegen_def ppbloom_ok_def bloom_ok_def)

lemma demo_noncegen_first: "\<exists>g. noncegen_verify demo_noncegen [5, 6] = Some (True, g)"
proof -
  have "map_option fst (noncegen_verify demo_noncegen [5, 6]) = Some True" by code_simp
  then show ?thesis by (cases "noncegen_verify demo_noncegen [5, 6]") auto
qed

text \<open>
  (C10) Replay protection: once a nonce has been verified, verifying it again is refused, however many
  other nonces (fewer than the capacity of one filter) were verified in between.
\<close>

theorem replay_rejected:
  assumes "ppbloom_ok (ng_ppbloom g)" "noncegen_verify g n = Some (r, g1)"
    and "length ns < pp_entries (ng_ppbloom g)"
  shows "\<exists>g2 g3. noncegen_verify_all g1 ns = Some g2 \<and> noncegen_verify g2 n = Some (False, g3)"
  using assms by (rule replay_rejected_lemma)

theorem replay_rejected_witness:
  "\<exists>g1 g2 g3. noncegen_verify demo_noncegen [5, 6] = Some (True, g1) \<and>
    noncegen_verify_all g1 [[7, 8]] = Some g2 \<and> noncegen_verify g2 [5, 6] = Some (False, g3)"
proof -
  obtain g1 where g1: "noncegen_verify demo_noncegen [5, 6] = Some (True, g1)"
    using demo_noncegen_first by blast
  have "length [[7 :: u8, 8]] < pp_entries (ng_ppbloom demo_noncegen)" by (simp add: demo_noncegen_def)
  from replay_rejected [OF demo_noncegen_ok g1 this] g1 show ?thesis by blast
qed



end
