(* ===== verification/Crypto.thy ===== *)
theory Crypto
  imports Nonce
begin

text \<open>
  Encryption of packets (\<open>src/src/crypto.c\<close>) and its use on whole packets (\<open>crypto_seal_inplace\<close> and
  \<open>crypto_open_inplace\<close> of \<open>src/src/pktqueue.c\<close>). The ciphers are libsodium's and are functions in the
  record \<open>crypto\<close>, with the key already applied.
\<close>

subsection \<open>Ciphers\<close>

text \<open>
  The table of functions a method uses. A detached cipher returns ciphertext and tag; an AEAD cipher
  takes the additional data and returns both in one. The last argument of each is the key. \<open>None\<close> is
  an error of the library, or a forgery when opening; a missing function is a \<open>NULL\<close> in the table.
\<close>

record crypto_impl =
  im_key :: bytes
  im_keygen :: "bytes \<Rightarrow> bytes"
  im_seal :: "(bytes \<Rightarrow> bytes \<Rightarrow> bytes \<Rightarrow> (bytes \<times> bytes) option) option"
  im_open :: "(bytes \<Rightarrow> bytes \<Rightarrow> bytes \<Rightarrow> bytes \<Rightarrow> bytes option) option"
  im_aead_seal :: "(bytes \<Rightarrow> bytes \<Rightarrow> bytes \<Rightarrow> bytes \<Rightarrow> bytes option) option"
  im_aead_open :: "(bytes \<Rightarrow> bytes \<Rightarrow> bytes \<Rightarrow> bytes \<Rightarrow> bytes option) option"

record crypto =
  cr_method :: noncegen_method
  cr_nonce_size :: nat
  cr_overhead :: nat
  cr_key_size :: nat
  cr_impl :: crypto_impl

datatype crypto_methods =
    method_xchacha20poly1305_ietf
  | method_xsalsa20poly1305
  | method_chacha20poly1305_ietf
  | method_aes256gcm

definition method_names :: "crypto_methods \<Rightarrow> string" where
  "method_names m = (case m of
     method_xchacha20poly1305_ietf \<Rightarrow> ''xchacha20poly1305_ietf''
   | method_xsalsa20poly1305 \<Rightarrow> ''xsalsa20poly1305''
   | method_chacha20poly1305_ietf \<Rightarrow> ''chacha20poly1305_ietf''
   | method_aes256gcm \<Rightarrow> ''aes256gcm'')"

text \<open>
  libsodium, as \<open>crypto_new\<close> uses it: per method the sizes and the functions, and whether the hardware
  supports AES.
\<close>

record sodium =
  so_nonce_size :: "crypto_methods \<Rightarrow> nat"
  so_overhead :: "crypto_methods \<Rightarrow> nat"
  so_key_size :: "crypto_methods \<Rightarrow> nat"
  so_aes_available :: bool
  so_keygen :: "crypto_methods \<Rightarrow> bytes \<Rightarrow> bytes"
  so_secretbox :: "bytes \<Rightarrow> bytes \<Rightarrow> bytes \<Rightarrow> (bytes \<times> bytes) option"
  so_secretbox_open :: "bytes \<Rightarrow> bytes \<Rightarrow> bytes \<Rightarrow> bytes \<Rightarrow> bytes option"
  so_encrypt :: "crypto_methods \<Rightarrow> bytes \<Rightarrow> bytes \<Rightarrow> bytes \<Rightarrow> bytes \<Rightarrow> bytes option"
  so_decrypt :: "crypto_methods \<Rightarrow> bytes \<Rightarrow> bytes \<Rightarrow> bytes \<Rightarrow> bytes \<Rightarrow> bytes option"

text \<open>
  \<open>mem\<close> tells which of the allocations succeed, and \<open>key\<close> is what the memory of the key holds before a
  key is set.
\<close>

definition crypto_new :: "sodium \<Rightarrow> (nat \<Rightarrow> bool) \<Rightarrow> bytes \<Rightarrow> string \<Rightarrow> crypto option" where
  "crypto_new so mem key method =
     do { m \<leftarrow> (if method = method_names method_xchacha20poly1305_ietf
                then Some method_xchacha20poly1305_ietf
                else if method = method_names method_xsalsa20poly1305
                then Some method_xsalsa20poly1305
                else if method = method_names method_chacha20poly1305_ietf
                then Some method_chacha20poly1305_ietf
                else if method = method_names method_aes256gcm
                then (if \<not> so_aes_available so then None else Some method_aes256gcm)
                else None);
          if \<not> mem 0 then None
          else if \<not> mem 1 then None
          else if \<not> mem 2 then None
          else
            (let aead = \<lparr>im_key = key, im_keygen = so_keygen so m, im_seal = None, im_open = None,
                         im_aead_seal = Some (so_encrypt so m), im_aead_open = Some (so_decrypt so m)\<rparr>;
                 box = \<lparr>im_key = key, im_keygen = so_keygen so m, im_seal = Some (so_secretbox so),
                        im_open = Some (so_secretbox_open so), im_aead_seal = None, im_aead_open = None\<rparr>;
                 (method, impl) =
                   (case m of
                      method_xchacha20poly1305_ietf \<Rightarrow> (noncegen_random, aead)
                    | method_xsalsa20poly1305 \<Rightarrow> (noncegen_random, box)
                    | method_chacha20poly1305_ietf \<Rightarrow> (noncegen_counter, aead)
                    | method_aes256gcm \<Rightarrow> (noncegen_counter, aead))
             in Some \<lparr>cr_method = method, cr_nonce_size = so_nonce_size so m,
                      cr_overhead = so_overhead so m, cr_key_size = so_key_size so m, cr_impl = impl\<rparr>) }"

text \<open>
  Setting the key from a password, through \<open>kdf\<close>, and from base64, through libsodium's decoder \<open>decode\<close>
  (the bytes written, and how far the text was read; \<open>None\<close> on an error).
\<close>

definition crypto_password :: "(nat \<Rightarrow> string \<Rightarrow> bytes option) \<Rightarrow> crypto \<Rightarrow> string \<Rightarrow> crypto option" where
  "crypto_password kdf crypto password =
     (case kdf (cr_key_size crypto) password of
        None \<Rightarrow> None
      | Some key \<Rightarrow> Some (crypto\<lparr>cr_impl := (cr_impl crypto)\<lparr>im_key := key\<rparr>\<rparr>))"

definition crypto_b64psk ::
  "(nat \<Rightarrow> string \<Rightarrow> (bytes \<times> nat) option) \<Rightarrow> crypto \<Rightarrow> string \<Rightarrow> crypto option" where
  "crypto_b64psk decode crypto psk =
     (case decode (cr_key_size crypto) psk of
        None \<Rightarrow> None
      | Some (key, end_pos) \<Rightarrow>
          if length psk \<noteq> end_pos \<or> length key \<noteq> cr_key_size crypto then None
          else Some (crypto\<lparr>cr_impl := (cr_impl crypto)\<lparr>im_key := key\<rparr>\<rparr>))"

text \<open>The tag, with its terminating zero.\<close>

definition crypto_tag :: bytes where
  "crypto_tag = [0x6b, 0x63, 0x70, 0x74, 0x75, 0x6e, 0x2d, 0x6c, 0x69, 0x62, 0x65, 0x76, 0]"

text \<open>
  The bytes written to \<open>dst\<close>, none for a result of 0. The outer \<open>None\<close> is a call of a missing function.
\<close>

definition crypto_seal :: "crypto \<Rightarrow> nat \<Rightarrow> bytes \<Rightarrow> bytes \<Rightarrow> bytes option" where
  "crypto_seal crypto dst_size nonce plain =
     (let impl = cr_impl crypto in
      if dst_size < length plain + cr_overhead crypto then Some []
      else case im_seal impl of
        Some seal \<Rightarrow>
          Some (case seal plain nonce (im_key impl) of None \<Rightarrow> [] | Some (c, mac) \<Rightarrow> c @ mac)
      | None \<Rightarrow>
          do { seal \<leftarrow> im_aead_seal impl;
               Some (case seal plain crypto_tag nonce (im_key impl) of None \<Rightarrow> [] | Some c \<Rightarrow> c) })"

definition crypto_open :: "crypto \<Rightarrow> nat \<Rightarrow> bytes \<Rightarrow> bytes \<Rightarrow> bytes option" where
  "crypto_open crypto dst_size nonce cipher =
     (let impl = cr_impl crypto in
      if dst_size + cr_overhead crypto < length cipher then Some []
      else case im_open impl of
        Some open_d \<Rightarrow>
          (if length cipher < cr_overhead crypto then Some []
           else
             (let plain_size = length cipher - cr_overhead crypto in
              Some (case open_d (take plain_size cipher) (drop plain_size cipher) nonce (im_key impl) of
                      None \<Rightarrow> [] | Some m \<Rightarrow> m)))
      | None \<Rightarrow>
          do { open_d \<leftarrow> im_aead_open impl;
               Some (case open_d cipher crypto_tag nonce (im_key impl) of None \<Rightarrow> [] | Some m \<Rightarrow> m) })"

subsection \<open>Padding\<close>

definition crypto_pad :: "bytes \<Rightarrow> nat \<Rightarrow> bytes option" where
  "crypto_pad data npad = (if npad > 255 then None else Some (data @ replicate npad (of_nat npad)))"

text \<open>\<open>None\<close> when the loop reads before the start of \<open>data\<close>, which holds \<open>len\<close> bytes.\<close>

fun unpad_loop :: "bytes \<Rightarrow> u8 \<Rightarrow> nat \<Rightarrow> nat \<Rightarrow> bool option" where
  "unpad_loop data v 0 i = Some True"
| "unpad_loop data v (Suc n) i =
     (if length data < i + 1 then None
      else if data ! (length data - 1 - i) \<noteq> v then Some False
      else unpad_loop data v n (Suc i))"

definition crypto_unpad :: "bytes \<Rightarrow> nat \<Rightarrow> bool option" where
  "crypto_unpad data npad =
     (if npad < length data then Some False else unpad_loop data (of_nat npad) npad 0)"

subsection \<open>Whole packets\<close>

text \<open>\<open>cap\<close> is the room for the packet. Opening checks the nonce only when the packet is genuine.\<close>

definition crypto_open_inplace ::
  "crypto \<Rightarrow> noncegen \<Rightarrow> nat \<Rightarrow> bytes \<Rightarrow> (bytes option \<times> noncegen) option" where
  "crypto_open_inplace crypto g cap data =
     (let src_len = length data; nonce_size = cr_nonce_size crypto; overhead = cr_overhead crypto in
      if src_len \<le> nonce_size + overhead then Some (None, g)
      else
        (let nonce = drop (src_len - nonce_size) data in
         do { plain \<leftarrow> crypto_open crypto cap nonce (take (src_len - nonce_size) data);
              if length plain + overhead + nonce_size \<noteq> src_len then Some (None, g)
              else do { (fresh, g) \<leftarrow> noncegen_verify g nonce;
                        Some (if fresh then Some plain else None, g) } }))"

definition crypto_seal_inplace ::
  "crypto \<Rightarrow> (bytes \<Rightarrow> bytes) \<Rightarrow> bytes \<Rightarrow> noncegen \<Rightarrow> nat \<Rightarrow> nat \<Rightarrow> bytes \<Rightarrow>
     (bytes option \<times> noncegen) option" where
  "crypto_seal_inplace crypto incr rand g cap pad data =
     (case crypto_pad data pad of
        None \<Rightarrow> Some (None, g)
      | Some plain \<Rightarrow>
          (let (nonce, g) = noncegen_next incr rand g in
           do { cipher \<leftarrow> crypto_seal crypto (cap - cr_nonce_size crypto) nonce plain;
                if length cipher \<noteq> length plain + cr_overhead crypto then Some (None, g)
                else Some (Some (cipher @ nonce), g) }))"

subsection \<open>What libsodium promises\<close>

text \<open>
  For messages of the size of a packet and nonces of the right length: sealing succeeds, the sizes add
  up, and opening with the same nonce and key gives the message back.
\<close>

definition cipher_ok :: "crypto \<Rightarrow> bool" where
  "cipher_ok crypto \<longleftrightarrow>
     (let impl = cr_impl crypto; k = im_key impl in
      case (im_seal impl, im_open impl, im_aead_seal impl, im_aead_open impl) of
        (Some seal, Some open_d, _, _) \<Rightarrow>
          (\<forall>m n. length m \<le> 0xffff \<and> length n = cr_nonce_size crypto \<longrightarrow>
             (\<exists>c mac. seal m n k = Some (c, mac) \<and> length c = length m \<and>
                length mac = cr_overhead crypto \<and> open_d c mac n k = Some m))
      | (None, None, Some seal, Some open_d) \<Rightarrow>
          (\<forall>m ad n. length m \<le> 0xffff \<and> length n = cr_nonce_size crypto \<longrightarrow>
             (\<exists>c. seal m ad n k = Some c \<and> length c = length m + cr_overhead crypto \<and>
                open_d c ad n k = Some m))
      | _ \<Rightarrow> False)"

lemma crypto_seal_open:
  assumes "cipher_ok crypto" "length plain + cr_overhead crypto \<le> dst_size"
    and "length plain \<le> open_size" "length plain \<le> 0xffff" "length nonce = cr_nonce_size crypto"
  shows "\<exists>c. crypto_seal crypto dst_size nonce plain = Some c \<and>
    length c = length plain + cr_overhead crypto \<and> crypto_open crypto open_size nonce c = Some plain"
proof (cases "im_seal (cr_impl crypto)")
  case None
  with assms(1) obtain seal open_d where o: "im_open (cr_impl crypto) = None"
    "im_aead_seal (cr_impl crypto) = Some seal" "im_aead_open (cr_impl crypto) = Some open_d"
    by (auto simp: cipher_ok_def Let_def split: option.splits)
  then obtain c where "seal plain crypto_tag nonce (im_key (cr_impl crypto)) = Some c"
    "length c = length plain + cr_overhead crypto"
    "open_d c crypto_tag nonce (im_key (cr_impl crypto)) = Some plain"
    using assms(1,4,5) None by (fastforce simp: cipher_ok_def Let_def)
  with None o assms show ?thesis by (simp add: crypto_seal_def crypto_open_def Let_def)
next
  case (Some seal)
  with assms(1) obtain open_d where o: "im_open (cr_impl crypto) = Some open_d"
    by (auto simp: cipher_ok_def Let_def split: option.splits)
  then obtain c mac where "seal plain nonce (im_key (cr_impl crypto)) = Some (c, mac)"
    "length c = length plain" "length mac = cr_overhead crypto"
    "open_d c mac nonce (im_key (cr_impl crypto)) = Some plain"
    using assms(1,4,5) Some by (fastforce simp: cipher_ok_def Let_def)
  with Some o assms show ?thesis by (simp add: crypto_seal_def crypto_open_def Let_def)
qed

lemma crypto_packet_roundtrip_lemma:
  assumes "cipher_ok crypto" "pad \<le> 255" "0 < length data + pad"
    and "noncegen_next incr rand gs = (nonce, gs')" "length nonce = cr_nonce_size crypto"
    and "length data + pad + cr_overhead crypto + cr_nonce_size crypto \<le> cap"
    and "length data + pad \<le> ocap" "length data + pad \<le> 0xffff"
    and "noncegen_verify gr nonce = Some (True, gr')"
  shows "\<exists>pkt. crypto_seal_inplace crypto incr rand gs cap pad data = Some (Some pkt, gs') \<and>
    length pkt = length data + pad + cr_overhead crypto + cr_nonce_size crypto \<and>
    crypto_open_inplace crypto gr ocap pkt = Some (Some (data @ replicate pad (of_nat pad)), gr')"
proof -
  define plain where "plain = data @ replicate pad (of_nat pad :: u8)"
  have len: "length plain = length data + pad" by (simp add: plain_def)
  have "length plain + cr_overhead crypto \<le> cap - cr_nonce_size crypto" using assms(6) len by simp
  then obtain c where c: "crypto_seal crypto (cap - cr_nonce_size crypto) nonce plain = Some c"
    "length c = length plain + cr_overhead crypto" "crypto_open crypto ocap nonce c = Some plain"
    using crypto_seal_open [OF assms(1), of plain "cap - cr_nonce_size crypto" ocap nonce] assms(5,7,8) len
    by auto
  have "crypto_seal_inplace crypto incr rand gs cap pad data = Some (Some (c @ nonce), gs')"
    using assms(2,4) c by (simp add: crypto_seal_inplace_def crypto_pad_def Let_def flip: plain_def)
  moreover have "crypto_open_inplace crypto gr ocap (c @ nonce) = Some (Some plain, gr')"
    using assms(3,5,9) c len by (simp add: crypto_open_inplace_def Let_def)
  ultimately show ?thesis using c len assms(5) unfolding plain_def by auto
qed

subsection \<open>Properties\<close>

text \<open>A cipher that appends 16 bytes, and a method using it, for the witness.\<close>

definition demo_crypto :: crypto where
  "demo_crypto = \<lparr>cr_method = noncegen_random, cr_nonce_size = 2, cr_overhead = 16, cr_key_size = 1,
     cr_impl = \<lparr>im_key = [7], im_keygen = id, im_seal = None, im_open = None,
       im_aead_seal = Some (\<lambda>m ad n k. Some (map ((+) 1) m @ replicate 16 0)),
       im_aead_open = Some (\<lambda>c ad n k. Some (map (\<lambda>x. x - 1) (take (length c - 16) c)))\<rparr>\<rparr>"

lemma demo_cipher_ok: "cipher_ok demo_crypto"
  by (simp add: demo_crypto_def cipher_ok_def o_def)

text \<open>
  (C11) A packet sealed with its padding and sent is opened by the peer to the same bytes and padding,
  when its nonce is fresh there; the sealed packet is longer by padding, tag and nonce exactly.
\<close>

theorem crypto_packet_roundtrip:
  assumes "cipher_ok crypto" "pad \<le> 255" "0 < length data + pad"
    and "noncegen_next incr rand gs = (nonce, gs')" "length nonce = cr_nonce_size crypto"
    and "length data + pad + cr_overhead crypto + cr_nonce_size crypto \<le> cap"
    and "length data + pad \<le> ocap" "length data + pad \<le> 0xffff"
    and "noncegen_verify gr nonce = Some (True, gr')"
  shows "\<exists>pkt. crypto_seal_inplace crypto incr rand gs cap pad data = Some (Some pkt, gs') \<and>
    length pkt = length data + pad + cr_overhead crypto + cr_nonce_size crypto \<and>
    crypto_open_inplace crypto gr ocap pkt = Some (Some (data @ replicate pad (of_nat pad)), gr')"
  using assms by (rule crypto_packet_roundtrip_lemma)

theorem crypto_packet_roundtrip_witness:
  "\<exists>pkt g. crypto_seal_inplace demo_crypto id [5, 6] demo_noncegen 1500 2 [1, 2, 3] =
      Some (Some pkt, demo_noncegen\<lparr>ng_buf := [5, 6]\<rparr>) \<and> length pkt = 23 \<and>
    crypto_open_inplace demo_crypto demo_noncegen 1500 pkt = Some (Some [1, 2, 3, 2, 2], g)"
proof -
  have n: "noncegen_next id [5, 6] demo_noncegen = ([5, 6], demo_noncegen\<lparr>ng_buf := [5, 6]\<rparr>)"
    by (simp add: noncegen_next_def demo_noncegen_def)
  obtain g where v: "noncegen_verify demo_noncegen [5, 6] = Some (True, g)"
    using demo_noncegen_first by blast
  show ?thesis
    using crypto_packet_roundtrip [OF demo_cipher_ok _ _ n _ _ _ _ v, of 2 "[1, 2, 3]" 1500 1500]
    by (auto simp: demo_crypto_def numeral_2_eq_2)
qed

text \<open>
  (C16) \<open>crypto_unpad\<close> refuses every padding that is shorter than the data, so it accepts no padded
  packet that has any payload.
\<close>

theorem crypto_unpad_inverted:
  assumes "crypto_pad data npad = Some padded" "data \<noteq> []"
  shows "crypto_unpad padded npad = Some False"
  using assms by (cases data) (auto simp: crypto_pad_def crypto_unpad_def split: if_splits)

theorem crypto_unpad_inverted_witness:
  "crypto_pad [1] 2 = Some [1, 2, 2] \<and> crypto_unpad [1, 2, 2] 2 = Some False"
proof -
  have p: "crypto_pad [1] 2 = Some [1, 2, 2]" by code_simp
  from p crypto_unpad_inverted [OF p] show ?thesis by simp
qed

end
