(* ===== verification/Rand.thy ===== *)
theory Rand
  imports Prelude
begin

text \<open>
  The random number generator (\<open>src/contrib/csnippets/math/rand.c\<close>): xoshiro256**, seeded by
  splitmix64, and bounded numbers by rejection sampling; and the object cache
  (\<open>src/contrib/csnippets/utils/mcache.h\<close>).
\<close>

unbundle bit_operations_syntax

subsection \<open>The generator\<close>

definition ROTL :: "u64 \<Rightarrow> nat \<Rightarrow> u64" where
  "ROTL x r = push_bit r x OR drop_bit (64 - r) x"

definition splitmix64 :: "u64 \<Rightarrow> u64 \<times> u64" where
  "splitmix64 state =
     (let state = state + 0x9E3779B97f4A7C15;
          result = (state XOR drop_bit 30 state) * 0xBF58476D1CE4E5B9;
          result = (result XOR drop_bit 27 result) * 0x94D049BB133111EB
      in (result XOR drop_bit 31 result, state))"

type_synonym rng = "u64 \<times> u64 \<times> u64 \<times> u64"

definition xoshiro256ss :: rng where
  "xoshiro256ss = (0x910A2DEC89025CC1, 0xBEEB8DA1658EEC67, 0xF893A2EEFB32555E, 0x71C18690EE42C90B)"

definition srand64 :: "u64 \<Rightarrow> rng" where
  "srand64 seed =
     (let (s0, seed) = splitmix64 seed; (s1, seed) = splitmix64 seed;
          (s2, seed) = splitmix64 seed; (s3, seed) = splitmix64 seed
      in (s0, s1, s2, s3))"

definition rand64 :: "rng \<Rightarrow> u64 \<times> rng" where
  "rand64 s =
     (case s of (s0, s1, s2, s3) \<Rightarrow>
        let result = ROTL (s1 * 5) 7 * 9;
            t = push_bit 17 s1;
            s2 = s2 XOR s0;
            s3 = s3 XOR s1;
            s1 = s1 XOR s2;
            s0 = s0 XOR s3;
            s2 = s2 XOR t;
            s3 = ROTL s3 45
        in (result, (s0, s1, s2, s3)))"

text \<open>The rejection loop may go on for as long as the generator gives values above \<open>n\<close>.\<close>

partial_function (option) rand_reject :: "u64 \<Rightarrow> u64 \<Rightarrow> u64 \<Rightarrow> rng \<Rightarrow> (u64 \<times> rng) option" where
  "rand_reject n msk x s =
     (if x > n then (case rand64 s of (y, s') \<Rightarrow> rand_reject n msk (y AND msk) s') else Some (x, s))"

declare rand_reject.simps [code]

definition fill_mask :: "u64 \<Rightarrow> u64" where
  "fill_mask n =
     (let msk = n;
          msk = msk OR drop_bit 1 msk;
          msk = msk OR drop_bit 2 msk;
          msk = msk OR drop_bit 4 msk;
          msk = msk OR drop_bit 8 msk;
          msk = msk OR drop_bit 16 msk
      in msk OR drop_bit 32 msk)"

definition rand64n :: "u64 \<Rightarrow> rng \<Rightarrow> (u64 \<times> rng) option" where
  "rand64n n s =
     (if n AND (n + 1) = 0 then (case rand64 s of (x, s') \<Rightarrow> Some (x AND n, s'))
      else (case rand64 s of (x, s') \<Rightarrow> rand_reject n (fill_mask n) (x AND fill_mask n) s'))"

lemma rand_reject_bound: "rand_reject n msk x s = Some r \<Longrightarrow> fst r \<le> n"
proof (rule rand_reject.raw_induct [where P = "\<lambda>n msk x s r. fst r \<le> n" and xa = "(((n, msk), x), s)" and y = r,
      unfolded prod.case])
  fix f n msk x s and r :: "u64 \<times> rng"
  assume "\<And>msk x s b y. f msk x s b = Some y \<Longrightarrow> fst y \<le> msk"
    "(if n < x then (case rand64 s of (y, s') \<Rightarrow> f n msk (y AND msk) s') else Some (x, s)) = Some r"
  then show "fst r \<le> n" by (cases "rand64 s") (auto split: if_splits)
qed

lemma rand64n_bound:
  assumes "rand64n n s = Some (x, s')"
  shows "x \<le> n"
proof (cases "n AND (n + 1) = 0")
  case True
  with assms show ?thesis by (cases "rand64 s") (auto simp: rand64n_def intro: word_and_le1)
next
  case False
  with assms rand_reject_bound [of n _ _ _ "(x, s')"] show ?thesis by (cases "rand64 s") (auto simp: rand64n_def)
qed

text \<open>The numbers the generator gives from a state on.\<close>

fun rand_nth :: "nat \<Rightarrow> rng \<Rightarrow> u64" where
  "rand_nth 0 s = fst (rand64 s)"
| "rand_nth (Suc i) s = rand_nth i (snd (rand64 s))"

lemma rand_reject_returns:
  assumes "rand_nth i s AND msk \<le> n"
  shows "\<exists>r. rand_reject n msk x s = Some r"
  using assms
proof (induction i arbitrary: x s)
  case 0
  obtain y s' where r: "rand64 s = (y, s')" by (cases "rand64 s")
  with 0 have "\<not> n < y AND msk" by (simp add: not_less)
  then have "rand_reject n msk (y AND msk) s' = Some (y AND msk, s')"
    by (subst rand_reject.simps) simp
  then show ?case by (subst rand_reject.simps) (simp add: r del: split_paired_Ex)
next
  case (Suc i)
  obtain y s' where r: "rand64 s = (y, s')" by (cases "rand64 s")
  with Suc.IH [of s' "y AND msk"] Suc.prems show ?case by (subst rand_reject.simps) (simp del: split_paired_Ex)
qed

lemma rand64n_returns:
  assumes "rand_nth i s AND fill_mask n \<le> n"
  shows "\<exists>r. rand64n n s = Some r"
proof -
  obtain y s1 where r: "rand64 s = (y, s1)" by (cases "rand64 s")
  have "\<exists>r. rand_reject n (fill_mask n) (y AND fill_mask n) s1 = Some r"
  proof (cases i)
    case 0
    with assms r have "\<not> n < y AND fill_mask n" by (simp add: not_less)
    then show ?thesis by (subst rand_reject.simps) (simp del: split_paired_Ex)
  next
    case (Suc j)
    with assms r show ?thesis by (intro rand_reject_returns [of j]) simp
  qed
  then show ?thesis by (simp add: rand64n_def r del: split_paired_Ex)
qed

subsection \<open>The object cache\<close>

text \<open>Objects are addresses; the result of \<open>malloc\<close> is an argument.\<close>

record mcache =
  mc_size :: nat
  mc_p :: "nat list"

definition mcache_new :: "nat \<Rightarrow> mcache" where
  "mcache_new cache_size = \<lparr>mc_size = cache_size, mc_p = []\<rparr>"

text \<open>The array is kept in reverse, so that its last element is at the head.\<close>

definition mcache_get :: "nat option \<Rightarrow> mcache \<Rightarrow> nat option \<times> mcache" where
  "mcache_get malloc cache =
     (case mc_p cache of
        [] \<Rightarrow> (malloc, cache)
      | a # p \<Rightarrow> (Some a, cache\<lparr>mc_p := p\<rparr>))"

text \<open>The second result is what was freed.\<close>

definition mcache_put :: "mcache \<Rightarrow> nat option \<Rightarrow> mcache \<times> nat list" where
  "mcache_put cache elem =
     (case elem of
        None \<Rightarrow> (cache, [])
      | Some a \<Rightarrow>
          if length (mc_p cache) = mc_size cache then (cache, [a])
          else (cache\<lparr>mc_p := a # mc_p cache\<rparr>, []))"

definition mcache_shrink :: "mcache \<Rightarrow> nat \<Rightarrow> mcache \<times> nat list" where
  "mcache_shrink cache count = (cache\<lparr>mc_p := drop count (mc_p cache)\<rparr>, take count (mc_p cache))"

text \<open>
  A client of the cache holds some objects. Operations: ask for an object (with what \<open>malloc\<close> would
  return), give one back, shrink.
\<close>

datatype mcache_op = Get "nat option" | Put nat | Shrink nat

fun mcache_do :: "mcache_op \<Rightarrow> mcache \<times> nat list \<Rightarrow> mcache \<times> nat list" where
  "mcache_do (Get m) (c, held) =
     (case mcache_get m c of (None, c') \<Rightarrow> (c', held) | (Some a, c') \<Rightarrow> (c', a # held))"
| "mcache_do (Put a) (c, held) = (fst (mcache_put c (Some a)), remove1 a held)"
| "mcache_do (Shrink n) (c, held) = (fst (mcache_shrink c n), held)"

text \<open>\<open>malloc\<close> returns an object nobody has, and a client gives back what it holds.\<close>

fun mcache_legal :: "mcache_op \<Rightarrow> mcache \<times> nat list \<Rightarrow> bool" where
  "mcache_legal (Get (Some a)) (c, held) = (a \<notin> set (mc_p c) \<and> a \<notin> set held)"
| "mcache_legal (Get None) (c, held) = True"
| "mcache_legal (Put a) (c, held) = (a \<in> set held)"
| "mcache_legal (Shrink n) (c, held) = True"

definition mcache_inv :: "mcache \<times> nat list \<Rightarrow> bool" where
  "mcache_inv st \<longleftrightarrow> (case st of (c, held) \<Rightarrow>
     length (mc_p c) \<le> mc_size c \<and> distinct (mc_p c @ held))"

lemma mcache_do_inv: "mcache_inv st \<Longrightarrow> mcache_legal a st \<Longrightarrow> mcache_inv (mcache_do a st)"
  by (induction a st rule: mcache_legal.induct)
    (auto simp: mcache_inv_def mcache_get_def mcache_put_def mcache_shrink_def
      distinct_remove1 dest: in_set_dropD set_remove1_subset [THEN subsetD]
      split: list.splits option.splits)

fun mcache_run :: "mcache_op list \<Rightarrow> mcache \<times> nat list \<Rightarrow> (mcache \<times> nat list) option" where
  "mcache_run [] st = Some st"
| "mcache_run (a # as) st = (if mcache_legal a st then mcache_run as (mcache_do a st) else None)"

lemma mcache_run_inv: "mcache_inv st \<Longrightarrow> mcache_run as st = Some st' \<Longrightarrow> mcache_inv st'"
  by (induction as st rule: mcache_run.induct) (auto split: if_splits intro: mcache_do_inv)

subsection \<open>Properties\<close>

text \<open>
  (C23) \<open>rand64n n\<close> returns a number of at most \<open>n\<close>, and it does return once the generator comes up with
  a number whose low bits are at most \<open>n\<close>.
\<close>

theorem rand64n_correct:
  assumes "rand_nth i s AND fill_mask n \<le> n"
  shows "\<exists>x s'. rand64n n s = Some (x, s') \<and> x \<le> n"
  using rand64n_returns [OF assms] rand64n_bound by (metis surj_pair)

theorem rand64n_correct_witness: "\<exists>x s'. rand64n 11 xoshiro256ss = Some (x, s') \<and> x \<le> 11"
proof -
  have "rand_nth 1 xoshiro256ss AND fill_mask 11 \<le> 11" by code_simp
  then show ?thesis by (rule rand64n_correct)
qed



end
