(* ===== verification/Hashtable.thy ===== *)
theory Hashtable
  imports Prelude
begin

text \<open>
  The hash table of \<open>src/contrib/csnippets/algo/hashtable.c\<close>: an array of items that are both the
  buckets (field \<open>bucket\<close>, the head of a chain) and the nodes of the chains and of the list of free
  nodes (field \<open>next\<close>). The hash function is an argument of the operations, as are the outcome of
  \<open>realloc\<close> and the new seed a rehash draws.
\<close>

subsection \<open>Types\<close>

text \<open>Item references are \<open>None\<close> for \<open>HASHITEM_NIL\<close>. Elements are the pointers the client stores.\<close>

type_synonym itemref = "nat option"
type_synonym hashfn = "bytes \<Rightarrow> u32 \<Rightarrow> u32"

record 'e hash_item =
  hi_bucket :: itemref
  hi_next :: itemref
  hi_valid :: bool
  hi_hash :: u32
  hi_key :: bytes
  hi_elem :: "'e option"

record 'e hashtable =
  ht_size :: nat
  ht_capacity :: nat
  ht_max_load :: nat
  ht_freelist :: itemref
  ht_seed :: u32
  ht_fast :: bool
  ht_p :: "'e hash_item list"

definition prime_list :: "nat list" where
  "prime_list =
     [13, 31, 61, 127, 251, 509, 1021, 2039, 4093, 6143, 10223, 16381, 24571, 36857, 55291, 83939,
      114679, 163819, 229373, 311293, 425977, 573437, 770047, 1032191, 1376237, 1835003]"

definition COLLISION_THRESHOLD :: nat where "COLLISION_THRESHOLD = 100"
definition INITIAL_CAPACITY :: nat where "INITIAL_CAPACITY = 13"
definition MAX_CAPACITY :: nat where "MAX_CAPACITY = 2 ^ 64 - 2"

text \<open>The least prime of the list that is large enough.\<close>

fun first_prime :: "nat \<Rightarrow> nat list \<Rightarrow> nat" where
  "first_prime x [] = x"
| "first_prime x (q # qs) = (if x > q then first_prime x qs else q)"

definition ceil_capacity :: "nat \<Rightarrow> nat" where
  "ceil_capacity x =
     (if x > last prime_list then min (x OR 1) MAX_CAPACITY else first_prime x prime_list)"

definition nil_item :: "'e hash_item" where
  "nil_item = \<lparr>hi_bucket = None, hi_next = None, hi_valid = False, hi_hash = 0, hi_key = [], hi_elem = None\<rparr>"

subsection \<open>Reorganisation\<close>

text \<open>The items from \<open>start\<close> on are initialised; those before keep their contents.\<close>

definition init_items :: "'e hashtable \<Rightarrow> nat \<Rightarrow> 'e hashtable" where
  "init_items t start =
     t\<lparr>ht_p := take start (ht_p t) @ replicate (ht_capacity t - start) nil_item\<rparr>"

text \<open>The loop of \<open>table_compact\<close> from reading position \<open>r\<close>, with \<open>n\<close> items to go.\<close>

fun compact_loop :: "nat \<Rightarrow> nat \<Rightarrow> nat \<Rightarrow> 'e hash_item list \<Rightarrow> 'e hash_item list" where
  "compact_loop 0 r w p = p"
| "compact_loop (Suc n) r w p =
     (let p1 = p[r := (p ! r)\<lparr>hi_bucket := None\<rparr>] in
      if \<not> hi_valid (p1 ! r) then compact_loop n (Suc r) w p1
      else if r > w then
        (let p2 = p1[w := (p1 ! w)\<lparr>hi_hash := hi_hash (p1 ! r), hi_key := hi_key (p1 ! r),
                                    hi_elem := hi_elem (p1 ! r)\<rparr>];
             p3 = p2[r := (p2 ! r)\<lparr>hi_valid := False\<rparr>]
         in compact_loop n (Suc r) (Suc w) p3)
      else compact_loop n (Suc r) (Suc w) p1)"

definition table_compact :: "'e hashtable \<Rightarrow> 'e hashtable" where
  "table_compact t = t\<lparr>ht_p := compact_loop (ht_capacity t) 0 0 (ht_p t), ht_freelist := None\<rparr>"

text \<open>Putting item \<open>i\<close> at the head of its chain.\<close>

definition link_item :: "nat \<Rightarrow> nat \<Rightarrow> 'e hash_item list \<Rightarrow> 'e hash_item list" where
  "link_item bucket i p =
     (let p1 = p[i := (p ! i)\<lparr>hi_next := hi_bucket (p ! bucket)\<rparr>]
      in p1[bucket := (p1 ! bucket)\<lparr>hi_bucket := Some i\<rparr>])"

fun rehash_loop :: "hashfn \<Rightarrow> u32 \<Rightarrow> nat \<Rightarrow> nat \<Rightarrow> nat \<Rightarrow> 'e hash_item list \<Rightarrow> 'e hash_item list" where
  "rehash_loop hash seed capacity 0 i p = p"
| "rehash_loop hash seed capacity (Suc n) i p =
     (let h = hash (hi_key (p ! i)) seed;
          p1 = p[i := (p ! i)\<lparr>hi_hash := h\<rparr>]
      in rehash_loop hash seed capacity n (Suc i) (link_item (unat h mod capacity) i p1))"

definition table_rehash :: "hashfn \<Rightarrow> 'e hashtable \<Rightarrow> 'e hashtable" where
  "table_rehash hash t =
     t\<lparr>ht_p := rehash_loop hash (ht_seed t) (ht_capacity t) (ht_size t) 0 (ht_p t)\<rparr>"

definition set_capacity :: "'e hashtable \<Rightarrow> nat \<Rightarrow> 'e hashtable" where
  "set_capacity t new_capacity =
     t\<lparr>ht_capacity := new_capacity,
       ht_max_load := (if ht_fast t then new_capacity div 4 * 3 else new_capacity)\<rparr>"

definition table_realloc :: "bool \<Rightarrow> 'e hashtable \<Rightarrow> nat \<Rightarrow> 'e hashtable" where
  "table_realloc mem t new_capacity =
     (let old_capacity = ht_capacity t in
      if old_capacity = new_capacity then t
      else if \<not> mem then t
      else
        (let m = set_capacity (t\<lparr>ht_p := take new_capacity (ht_p t)\<rparr>) new_capacity
         in if new_capacity > old_capacity then init_items m old_capacity else m))"

definition table_reserve :: "hashfn \<Rightarrow> bool \<Rightarrow> 'e hashtable \<Rightarrow> nat \<Rightarrow> 'e hashtable" where
  "table_reserve hash mem t new_size =
     (let c0 = (if new_size < ht_size t then ht_size t else new_size);
          want = new_size div 3 + 1;
          c1 = (if ht_fast t then (if c0 < MAX_CAPACITY - want then c0 + want else MAX_CAPACITY)
                else c0);
          c2 = ceil_capacity c1
      in if ht_capacity t = c2 then t
         else table_rehash hash (table_realloc mem (table_compact t) c2))"

definition table_grow :: "hashfn \<Rightarrow> bool \<Rightarrow> 'e hashtable \<Rightarrow> 'e hashtable" where
  "table_grow hash mem t =
     (let want = ht_size t div 3 + 1;
          estimated = (if ht_size t < MAX_CAPACITY - want then ht_size t + want else MAX_CAPACITY)
      in table_reserve hash mem t estimated)"

definition table_reseed :: "hashfn \<Rightarrow> u32 \<Rightarrow> 'e hashtable \<Rightarrow> 'e hashtable" where
  "table_reseed hash seed t = table_rehash hash (table_compact (t\<lparr>ht_seed := seed\<rparr>))"

definition table_new :: "bool \<Rightarrow> u32 \<Rightarrow> 'e hashtable" where
  "table_new fast seed =
     init_items
       (set_capacity \<lparr>ht_size = 0, ht_capacity = 0, ht_max_load = 0, ht_freelist = None, ht_seed = seed,
                      ht_fast = fast, ht_p = []\<rparr> INITIAL_CAPACITY) 0"

subsection \<open>Lookup, insertion and deletion\<close>

text \<open>
  The walk along a chain: the position found, its predecessor in the chain (\<open>None\<close> for the bucket) and
  the number of items passed. A chain with a cycle would be walked forever, hence a partial function;
  an item reference outside the array would be read out of bounds and gives \<open>None\<close> as well.
\<close>

partial_function (option) chain_find ::
  "'e hash_item list \<Rightarrow> u32 \<Rightarrow> bytes \<Rightarrow> itemref \<Rightarrow> itemref \<Rightarrow> nat \<Rightarrow> ((itemref \<times> itemref) \<times> nat) option" where
  "chain_find p h key prev i n =
     (case i of None \<Rightarrow> Some ((prev, None), n)
      | Some j \<Rightarrow>
          if length p \<le> j then None
          else if hi_hash (p ! j) = h \<and> hi_key (p ! j) = key then Some ((prev, Some j), n)
          else chain_find p h key (Some j) (hi_next (p ! j)) (Suc n))"

declare chain_find.simps [code]

definition table_find :: "hashfn \<Rightarrow> 'e hashtable \<Rightarrow> bytes \<Rightarrow> 'e option option" where
  "table_find hash t key =
     (let h = hash key (ht_seed t); bucket = unat h mod ht_capacity t in
      do { ((_, i), _) \<leftarrow> chain_find (ht_p t) h key None (hi_bucket (ht_p t ! bucket)) 0;
           Some (case i of None \<Rightarrow> None | Some j \<Rightarrow> hi_elem (ht_p t ! j)) })"

text \<open>
  The index of the item for a new element and its bucket, from the free list or from the end; none
  when the table is full and could not grow.
\<close>

definition table_alloc :: "hashfn \<Rightarrow> bool \<Rightarrow> u32 \<Rightarrow> nat \<Rightarrow> 'e hashtable \<Rightarrow> 'e hashtable \<times> (nat \<times> nat) option" where
  "table_alloc hash mem h bucket t =
     (case ht_freelist t of
        Some index \<Rightarrow>
          (t\<lparr>ht_freelist := hi_next (ht_p t ! index), ht_size := ht_size t + 1\<rparr>, Some (index, bucket))
      | None \<Rightarrow>
          if ht_size t \<ge> ht_max_load t then
            (let t = table_grow hash mem t in
             if ht_size t = ht_capacity t then (t, None)
             else (t\<lparr>ht_size := ht_size t + 1\<rparr>, Some (ht_size t, unat h mod ht_capacity t)))
          else (t\<lparr>ht_size := ht_size t + 1\<rparr>, Some (ht_size t, bucket)))"

text \<open>
  The result is the table and what is left in \<open>*element\<close>: the element replaced, null after an
  insertion, or the new element itself when the table could not grow.
\<close>

definition table_set :: "hashfn \<Rightarrow> bool \<Rightarrow> u32 \<Rightarrow> 'e hashtable \<Rightarrow> bytes \<Rightarrow> 'e \<Rightarrow>
    ('e hashtable \<times> 'e option) option" where
  "table_set hash mem seed t key element =
     (let h = hash key (ht_seed t); bucket = unat h mod ht_capacity t in
      do { ((_, i), collision) \<leftarrow> chain_find (ht_p t) h key None (hi_bucket (ht_p t ! bucket)) 0;
           let reseed = (\<lambda>t. if collision > COLLISION_THRESHOLD then table_reseed hash seed t else t);
           case i of
             Some j \<Rightarrow>
               Some (reseed (t\<lparr>ht_p := (ht_p t)[j := (ht_p t ! j)\<lparr>hi_key := key, hi_elem := Some element\<rparr>]\<rparr>),
                     hi_elem (ht_p t ! j))
           | None \<Rightarrow>
               (case table_alloc hash mem h bucket t of
                  (t, None) \<Rightarrow> Some (t, Some element)
                | (t, Some (index, bucket)) \<Rightarrow>
                    Some (reseed (t\<lparr>ht_p := link_item bucket index
                            ((ht_p t)[index := (ht_p t ! index)\<lparr>hi_valid := True, hi_hash := h,
                                        hi_key := key, hi_elem := Some element\<rparr>])\<rparr>), None)) })"

text \<open>Taking item \<open>i\<close>, found after \<open>prev\<close>, out of its chain and into the free list.\<close>

definition unlink_item :: "'e hashtable \<Rightarrow> nat \<Rightarrow> itemref \<Rightarrow> nat \<Rightarrow> 'e hashtable" where
  "unlink_item t bucket prev i =
     (let nxt = hi_next (ht_p t ! i);
          p1 = (case prev of
                  None \<Rightarrow> (ht_p t)[bucket := (ht_p t ! bucket)\<lparr>hi_bucket := nxt\<rparr>]
                | Some j \<Rightarrow> (ht_p t)[j := (ht_p t ! j)\<lparr>hi_next := nxt\<rparr>]);
          p2 = p1[i := (p1 ! i)\<lparr>hi_valid := False, hi_next := ht_freelist t\<rparr>]
      in t\<lparr>ht_p := p2, ht_freelist := Some i, ht_size := ht_size t - 1\<rparr>)"

definition table_del :: "hashfn \<Rightarrow> 'e hashtable \<Rightarrow> bytes \<Rightarrow> ('e hashtable \<times> 'e option) option" where
  "table_del hash t key =
     (let h = hash key (ht_seed t); bucket = unat h mod ht_capacity t in
      do { ((prev, i), _) \<leftarrow> chain_find (ht_p t) h key None (hi_bucket (ht_p t ! bucket)) 0;
           Some (case i of None \<Rightarrow> (t, None)
                 | Some j \<Rightarrow> (unlink_item t bucket prev j, hi_elem (ht_p t ! j))) })"

subsection \<open>Iteration\<close>

text \<open>A callback gets key, element and user data; it returns whether to keep the element or go on.\<close>

partial_function (option) filter_chain ::
  "(bytes \<Rightarrow> 'e option \<Rightarrow> 'u \<Rightarrow> bool \<times> 'u) \<Rightarrow> nat \<Rightarrow> 'e hashtable \<Rightarrow> itemref \<Rightarrow> itemref \<Rightarrow> 'u \<Rightarrow>
    ('e hashtable \<times> 'u) option" where
  "filter_chain f bucket t prev i u =
     (case i of None \<Rightarrow> Some (t, u)
      | Some j \<Rightarrow>
          if length (ht_p t) \<le> j then None
          else
            (let nxt = hi_next (ht_p t ! j) in
             case f (hi_key (ht_p t ! j)) (hi_elem (ht_p t ! j)) u of (ok, u') \<Rightarrow>
               if ok then filter_chain f bucket t (Some j) nxt u'
               else filter_chain f bucket (unlink_item t bucket prev j) prev nxt u'))"

declare filter_chain.simps [code]

fun filter_buckets ::
  "(bytes \<Rightarrow> 'e option \<Rightarrow> 'u \<Rightarrow> bool \<times> 'u) \<Rightarrow> nat \<Rightarrow> nat \<Rightarrow> 'e hashtable \<Rightarrow> 'u \<Rightarrow> ('e hashtable \<times> 'u) option" where
  "filter_buckets f 0 bucket t u = Some (t, u)"
| "filter_buckets f (Suc n) bucket t u =
     do { (t, u) \<leftarrow> filter_chain f bucket t None (hi_bucket (ht_p t ! bucket)) u;
          filter_buckets f n (Suc bucket) t u }"

definition table_filter ::
  "(bytes \<Rightarrow> 'e option \<Rightarrow> 'u \<Rightarrow> bool \<times> 'u) \<Rightarrow> 'e hashtable \<Rightarrow> 'u \<Rightarrow> ('e hashtable \<times> 'u) option" where
  "table_filter f t u = filter_buckets f (ht_capacity t) 0 t u"

fun iterate_items :: "(bytes \<Rightarrow> 'e option \<Rightarrow> 'u \<Rightarrow> bool \<times> 'u) \<Rightarrow> 'e hash_item list \<Rightarrow> 'u \<Rightarrow> 'u" where
  "iterate_items f [] u = u"
| "iterate_items f (it # its) u =
     (if \<not> hi_valid it then iterate_items f its u
      else case f (hi_key it) (hi_elem it) u of (ok, u') \<Rightarrow>
        if ok then iterate_items f its u' else u')"

definition table_iterate :: "(bytes \<Rightarrow> 'e option \<Rightarrow> 'u \<Rightarrow> bool \<times> 'u) \<Rightarrow> 'e hashtable \<Rightarrow> 'u \<Rightarrow> 'u" where
  "table_iterate f t u = iterate_items f (ht_p t) u"

definition table_size :: "'e hashtable \<Rightarrow> nat" where
  "table_size t = ht_size t"

end
