(* ===== verification/Pktqueue.thy ===== *)
theory Pktqueue
  imports Session Crypto Rand Hashtable
begin

text \<open>
  The server's state and its packet path: the packet queue (\<open>src/src/pktqueue.c\<close>) and the batched
  socket reads and writes (\<open>src/src/event_pkt.c\<close>, with \<open>recvmmsg\<close> and \<open>sendmmsg\<close>). The model is of a
  build without packet obfuscation, so frames carry their data at offset 0.
\<close>

subsection \<open>State\<close>

definition MMSG_BATCH_SIZE :: nat where "MMSG_BATCH_SIZE = 128"
definition MAX_SESSIONS :: nat where "MAX_SESSIONS = 65535"

text \<open>The buffer is the array, of which an outgoing frame keeps only the packet: its first \<open>m_len\<close> bytes.\<close>

record msgframe =
  m_addr :: sockaddr
  m_len :: nat
  m_ts :: tstamp
  m_buf :: bytes

definition m_data :: "msgframe \<Rightarrow> bytes" where
  "m_data msg = take (m_len msg) (m_buf msg)"

record pktqueue =
  q_send :: "msgframe list"
  q_send_cap :: nat
  q_recv :: "msgframe list"
  q_recv_cap :: nat
  q_mss :: u16
  q_crypto :: "crypto option"
  q_noncegen :: "noncegen option"

text \<open>Results of \<open>sendmmsg\<close> and \<open>recvmmsg\<close>; an error when sending is transient or not.\<close>

datatype mmsg_sent = MmsgSent nat | MmsgError bool
datatype mmsg_recvd = MmsgRecvd "(sockaddr \<times> bytes) list" | MmsgRecvError

text \<open>
  The packet connection, with whether its socket is open and its write watcher active, and the TCP
  listener: its descriptors (-1 for none), which watchers are active, and the descriptors closed.
\<close>

record pktconn =
  pc_open :: bool
  pc_w_write :: bool
  pc_domain :: nat
  pc_kcp_connect :: sockaddr
  pc_last_send_time :: tstamp
  pc_last_recv_time :: tstamp
  pc_inflight_ping :: tstamp
  pc_listened :: bool
  pc_connected :: bool
  pc_server_addr0 :: sockaddr
  pc_server_addr1 :: sockaddr
  pc_rendezvous_server :: sockaddr
  pc_rendezvous_local :: sockaddr

record listener =
  l_fd :: int
  l_fd_http :: int
  l_accept :: bool
  l_accept_http :: bool
  l_timer :: bool
  l_closed :: "int list"

text \<open>
  The server. Sessions are in \<open>sv_heap\<close> by address, each with its world, and \<open>sv_sessions\<close> has their
  addresses by key; addresses from \<open>sv_next\<close> on have not been allocated. \<open>sv_free\<close> counts the message
  frames that can be allocated. The repeat times of the two timers that set their own are there too.
  Of the outside world there are the time, the results of \<open>sendmmsg\<close> to come, which allocations of a new
  session succeed and the world it starts in, the increment and the random bytes of libsodium, and the
  packets sent so far.
\<close>

record server =
  sv_conf :: config
  sv_m_conv :: u32
  sv_sessions :: "nat hashtable"
  sv_heap :: "nat \<Rightarrow> (session \<times> world) option"
  sv_next :: nat
  sv_listener :: listener
  sv_connect :: "sockaddr option"
  sv_pkt :: pktconn
  sv_q :: pktqueue
  sv_free :: nat
  sv_rng :: rng
  sv_timeouts :: timeouts
  sv_keepalive :: tstamp
  sv_timeout :: tstamp
  sv_ping_timeout :: tstamp
  sv_stats :: link_stats
  sv_last_resolve_time :: tstamp
  sv_keepalive_repeat :: tstamp
  sv_resolve_repeat :: tstamp
  sv_now :: tstamp
  sv_sendmmsg :: "mmsg_sent list"
  sv_mem :: "nat \<Rightarrow> bool"
  sv_seed :: u32
  sv_world :: world
  sv_incr :: "bytes \<Rightarrow> bytes"
  sv_random :: bytes
  sv_wire :: "(sockaddr \<times> bytes) list"

subsection \<open>Frames\<close>

definition msgframe_new :: "server \<Rightarrow> server option" where
  "msgframe_new s = (if sv_free s = 0 then None else Some (s\<lparr>sv_free := sv_free s - 1\<rparr>))"

definition msgframe_delete :: "server \<Rightarrow> server" where
  "msgframe_delete s = s\<lparr>sv_free := sv_free s + 1\<rparr>"

subsection \<open>Sending\<close>

text \<open>
  The loop of \<open>pkt_send\<close> over the frames not sent yet: those sent, those left, whether the error is
  persistent, and the results of \<open>sendmmsg\<close> left.
\<close>

function pkt_send_loop ::
  "msgframe list \<Rightarrow> mmsg_sent list \<Rightarrow> msgframe list \<times> msgframe list \<times> bool \<times> mmsg_sent list" where
  "pkt_send_loop frames rs =
     (if frames = [] then ([], [], False, rs)
      else case rs of
        [] \<Rightarrow> ([], frames, False, [])
      | MmsgError transient # rs' \<Rightarrow> ([], frames, \<not> transient, rs')
      | MmsgSent n # rs' \<Rightarrow>
          (let n = min n (min (length frames) MMSG_BATCH_SIZE) in
           if n = 0 then ([], frames, False, rs')
           else let (sent, left, drp, rs'') = pkt_send_loop (drop n frames) rs'
                in (take n frames @ sent, left, drp, rs'')))"
  by pat_completeness auto
termination
  by (relation "measure (\<lambda>(frames, rs). length frames)") (auto simp: MMSG_BATCH_SIZE_def)

declare pkt_send_loop.simps [simp del]

definition pkt_send_drop :: "server \<Rightarrow> nat \<times> server" where
  "pkt_send_drop s =
     (let count = length (q_send (sv_q s)) in
      (count, s\<lparr>sv_free := sv_free s + count, sv_q := (sv_q s)\<lparr>q_send := []\<rparr>\<rparr>))"

definition pkt_send :: "server \<Rightarrow> nat \<times> server" where
  "pkt_send s =
     (if q_send (sv_q s) = [] then (0, s)
      else
        (let (sent, left, drp, rs) = pkt_send_loop (q_send (sv_q s)) (sv_sendmmsg s);
             s = s\<lparr>sv_q := (sv_q s)\<lparr>q_send := left\<rparr>, sv_sendmmsg := rs,
                   sv_free := sv_free s + length sent,
                   sv_wire := sv_wire s @ map (\<lambda>m. (m_addr m, m_data m)) sent,
                   sv_stats := (sv_stats s)\<lparr>pkt_tx := pkt_tx (sv_stats s) + of_nat (sum_list (map m_len sent))\<rparr>,
                   sv_pkt := (sv_pkt s)\<lparr>pc_last_send_time := sv_now s\<rparr>\<rparr>
         in if drp then (case pkt_send_drop s of (n, s) \<Rightarrow> (length sent + n, s))
            else (length sent, s)))"

lemma pkt_send_loop_parts:
  "pkt_send_loop frames rs = (sent, left, drp, rs') \<Longrightarrow> frames = sent @ left"
proof (induction frames rs arbitrary: sent left drp rs' rule: pkt_send_loop.induct)
  case (1 frames rs)
  show ?case
  proof (cases "\<exists>n rs1. frames \<noteq> [] \<and> rs = MmsgSent n # rs1 \<and> n \<noteq> 0")
    case True
    then obtain n rs1 where r: "frames \<noteq> []" "rs = MmsgSent n # rs1" "n \<noteq> 0" by blast
    define m where "m = min n (min (length frames) MMSG_BATCH_SIZE)"
    have m: "m \<noteq> 0" using r(1,3) by (simp add: m_def MMSG_BATCH_SIZE_def)
    obtain sent1 left1 drp1 rs2 where l: "pkt_send_loop (drop m frames) rs1 = (sent1, left1, drp1, rs2)"
      by (metis prod_cases4)
    have "drop m frames = sent1 @ left1" using 1(1) [OF r(1,2) refl m_def m l] .
    moreover have "sent = take m frames @ sent1" "left = left1"
      using 1(2) r m l by (subst (asm) pkt_send_loop.simps, simp add: Let_def flip: m_def)+
    ultimately show ?thesis by (metis append.assoc append_take_drop_id)
  next
    case False
    then show ?thesis
      using 1(2) by (subst (asm) pkt_send_loop.simps)
        (auto simp: Let_def split: if_splits list.splits mmsg_sent.splits)
  qed
qed

lemma pkt_send_shrinks: "pkt_send s = (n, s') \<Longrightarrow> n > 0 \<Longrightarrow> length (q_send (sv_q s')) < length (q_send (sv_q s))"
  by (auto simp: pkt_send_def pkt_send_drop_def Let_def split: if_splits prod.splits dest!: pkt_send_loop_parts)

function pkt_flush :: "server \<Rightarrow> server" where
  "pkt_flush s = (case pkt_send s of (n, s') \<Rightarrow> if n > 0 then pkt_flush s' else s')"
  by pat_completeness auto
termination
  by (relation "measure (\<lambda>s. length (q_send (sv_q s)))") (auto dest: pkt_send_shrinks [OF sym])

declare pkt_flush.simps [simp del]

definition pkt_notify_send :: "server \<Rightarrow> server" where
  "pkt_notify_send s =
     (let s = pkt_flush s in if q_send (sv_q s) \<noteq> [] \<and> \<not> pc_w_write (sv_pkt s) then s\<lparr>sv_pkt := (sv_pkt s)\<lparr>pc_w_write := True\<rparr>\<rparr> else s)"

definition pkt_write_cb :: "server \<Rightarrow> server" where
  "pkt_write_cb s = (if q_send (sv_q s) = [] then s\<lparr>sv_pkt := (sv_pkt s)\<lparr>pc_w_write := False\<rparr>\<rparr> else pkt_flush s)"

text \<open>
  \<open>queue_send\<close> of a frame with the given data. The outer \<open>None\<close> is a null dereference or a random
  padding that never comes; when sealing fails the frame is not given back.
\<close>

definition queue_send :: "server \<Rightarrow> sockaddr \<Rightarrow> bytes \<Rightarrow> (bool \<times> server) option" where
  "queue_send s addr data =
     (let q = sv_q s in
      do { (sealed, s) \<leftarrow>
             (case q_crypto q of
                None \<Rightarrow> Some (Some data, s)
              | Some crypto \<Rightarrow>
                  do { (pad, rng) \<leftarrow> rand64n (min (ucast (q_mss q) - of_nat (length data)) 15) (sv_rng s);
                       g \<leftarrow> q_noncegen q;
                       (r, g) \<leftarrow> crypto_seal_inplace crypto (sv_incr s) (sv_random s) g MAX_PACKET_SIZE
                                  (unat pad) data;
                       Some (r, s\<lparr>sv_rng := rng, sv_q := q\<lparr>q_noncegen := Some g\<rparr>\<rparr>) });
           case sealed of
             None \<Rightarrow> Some (False, s)
           | Some data \<Rightarrow>
               if q_send_cap q \<le> length (q_send q) then Some (False, msgframe_delete s)
               else
                 (let msg = \<lparr>m_addr = addr, m_len = length data, m_ts = sv_now s, m_buf = data\<rparr> in
                  Some (True, pkt_notify_send (s\<lparr>sv_q := (sv_q s)\<lparr>q_send := q_send q @ [msg]\<rparr>\<rparr>))) })"

text \<open>A packet of a session, from the output callback of KCP (\<open>src/src/event_kcp.c\<close>).\<close>

definition kcp_output :: "session \<Rightarrow> bytes \<Rightarrow> server \<Rightarrow> (session \<times> server) option" where
  "kcp_output ss buf s =
     (case msgframe_new s of
        None \<Rightarrow> Some (ss, s)
      | Some s \<Rightarrow>
          (let n = of_nat (length buf);
               s = s\<lparr>sv_stats := (sv_stats s)\<lparr>kcp_tx := kcp_tx (sv_stats s) + n\<rparr>\<rparr>;
               ss = ss\<lparr>ss_stats := (ss_stats ss)\<lparr>kcp_tx := kcp_tx (ss_stats ss) + n\<rparr>\<rparr>
           in do { (_, s) \<leftarrow> queue_send s (ss_raddr ss) buf; Some (ss, s) }))"

fun kcp_outputs :: "session \<Rightarrow> bytes list \<Rightarrow> server \<Rightarrow> (session \<times> server) option" where
  "kcp_outputs ss [] s = Some (ss, s)"
| "kcp_outputs ss (p # ps) s = do { (ss, s) \<leftarrow> kcp_output ss p s; kcp_outputs ss ps s }"

text \<open>What a handler added to the counters of its session is added to those of the server.\<close>

definition add_stats :: "link_stats \<Rightarrow> link_stats \<Rightarrow> server \<Rightarrow> server" where
  "add_stats old new s =
     s\<lparr>sv_stats := (sv_stats s)\<lparr>tcp_rx := tcp_rx (sv_stats s) + (tcp_rx new - tcp_rx old),
                              tcp_tx := tcp_tx (sv_stats s) + (tcp_tx new - tcp_tx old),
                              kcp_rx := kcp_rx (sv_stats s) + (kcp_rx new - kcp_rx old)\<rparr>\<rparr>"

text \<open>
  A handler run on the session at an address; a freed address gives \<open>None\<close>. The packets it produced
  are handed to the queue.
\<close>

definition with_session :: "nat \<Rightarrow> (session \<Rightarrow> world \<Rightarrow> ('r \<times> session \<times> world) option) \<Rightarrow> server \<Rightarrow>
    ('r \<times> server) option" where
  "with_session a f s =
     do { (ss, w) \<leftarrow> sv_heap s a;
          (r, ss1, w1) \<leftarrow> f ss (w\<lparr>w_now := sv_now s\<rparr>);
          (ss2, s) \<leftarrow> kcp_outputs ss1 (drop (length (w_pkts w)) (w_pkts w1))
                       (add_stats (ss_stats ss) (ss_stats ss1) s);
          Some (r, s\<lparr>sv_heap := (sv_heap s)(a \<mapsto> (ss2, w1))\<rparr>) }"

definition no_result :: "(session \<Rightarrow> world \<Rightarrow> (session \<times> world) option) \<Rightarrow> session \<Rightarrow> world \<Rightarrow>
    (unit \<times> session \<times> world) option" where
  "no_result f ss w = do { (ss, w) \<leftarrow> f ss w; Some ((), ss, w) }"

subsection \<open>Receiving\<close>

text \<open>
  A received frame: a datagram longer than the array is cut, and what the array holds after a shorter
  one is zero in the model.
\<close>

definition recv_frame :: "tstamp \<Rightarrow> sockaddr \<times> bytes \<Rightarrow> msgframe" where
  "recv_frame now = (\<lambda>(addr, data). \<lparr>m_addr = addr, m_len = min (length data) MAX_PACKET_SIZE, m_ts = now,
     m_buf = take MAX_PACKET_SIZE (data @ replicate MAX_PACKET_SIZE 0)\<rparr>)"

definition recv_frames :: "(sockaddr \<times> bytes) list \<Rightarrow> server \<Rightarrow> server" where
  "recv_frames ms s =
     s\<lparr>sv_q := (sv_q s)\<lparr>q_recv := q_recv (sv_q s) @ map (recv_frame (sv_now s)) ms\<rparr>,
       sv_free := sv_free s - length ms\<rparr>"

definition recv_count :: "nat \<Rightarrow> server \<Rightarrow> server" where
  "recv_count nbrecv s = s\<lparr>sv_stats := (sv_stats s)\<lparr>pkt_rx := pkt_rx (sv_stats s) + of_nat nbrecv\<rparr>\<rparr>"

fun mmsg_packets :: "mmsg_recvd \<Rightarrow> (sockaddr \<times> bytes) list" where
  "mmsg_packets (MmsgRecvd ms) = ms"
| "mmsg_packets MmsgRecvError = []"

text \<open>
  The loop of \<open>pkt_recv\<close>: the number of packets received, the server, and the results of \<open>recvmmsg\<close>
  left. A batch has as many frames as can be allocated; when there are none, the count returns
  without the statistics. An error and an empty batch end the loop alike.
\<close>

primrec pkt_recv_loop :: "mmsg_recvd list \<Rightarrow> nat \<Rightarrow> nat \<Rightarrow> nat \<Rightarrow> server \<Rightarrow> nat \<times> server \<times> mmsg_recvd list" where
  "pkt_recv_loop [] navail nrecv nbrecv s =
     (nrecv, if sv_free s = 0 then s else recv_count nbrecv s, [])"
| "pkt_recv_loop (r # rs) navail nrecv nbrecv s =
     (if sv_free s = 0 then (nrecv, s, r # rs)
      else
        (let ms = take (min (min navail MMSG_BATCH_SIZE) (sv_free s)) (mmsg_packets r);
             n = length ms;
             nb = nbrecv + sum_list (map (\<lambda>(_, data). min (length data) MAX_PACKET_SIZE) ms)
         in if n = 0 then (nrecv, recv_count nbrecv s, rs)
            else if n < navail then pkt_recv_loop rs (navail - n) (nrecv + n) nb (recv_frames ms s)
            else (nrecv + n, recv_count nb (recv_frames ms s), rs)))"

definition pkt_recv :: "mmsg_recvd list \<Rightarrow> server \<Rightarrow> nat \<times> server \<times> mmsg_recvd list" where
  "pkt_recv rs s =
     (let navail = q_recv_cap (sv_q s) - length (q_recv (sv_q s)) in
      if navail = 0 then (0, s, rs) else pkt_recv_loop rs navail 0 0 s)"

lemma pkt_recv_loop_consumes:
  "pkt_recv_loop rs navail nrecv nbrecv s = (n, s', rs') \<Longrightarrow>
     length rs' \<le> length rs \<and> (n > nrecv \<longrightarrow> length rs' < length rs)"
  by (induction rs arbitrary: navail nrecv nbrecv s)
    (fastforce simp: Let_def split: if_splits)+

lemma pkt_recv_consumes: "pkt_recv rs s = (n, s', rs') \<Longrightarrow> n > 0 \<Longrightarrow> length rs' < length rs"
  by (auto simp: pkt_recv_def Let_def split: if_splits dest: pkt_recv_loop_consumes)

end
