(* ===== verification/Session0.thy ===== *)
theory Session0
  imports Pktqueue
begin

text \<open>
  The messages of session 0 (\<open>src/src/session.c\<close>): pings, resets, and the messages by which two peers
  behind a NAT find each other through a rendezvous server.
\<close>

unbundle bit_operations_syntax

subsection \<open>Session 0\<close>

record session0_header =
  s0_zero :: u32
  s0_what :: u16

definition SESSION0_HEADER_SIZE :: nat where "SESSION0_HEADER_SIZE = 6"

definition ss0_header_read :: "bytes \<Rightarrow> session0_header option" where
  "ss0_header_read d =
     do { zero \<leftarrow> read_uint32 d; what \<leftarrow> read_uint16 (drop 4 d); Some \<lparr>s0_zero = zero, s0_what = what\<rparr> }"

definition ss0_header_write :: "session0_header \<Rightarrow> bytes" where
  "ss0_header_write header = write_uint32 (s0_zero header) @ write_uint16 (s0_what header)"

definition S0MSG_PING :: u16 where "S0MSG_PING = 0"
definition S0MSG_PONG :: u16 where "S0MSG_PONG = 1"
definition S0MSG_RESET :: u16 where "S0MSG_RESET = 2"
definition S0MSG_LISTEN :: u16 where "S0MSG_LISTEN = 3"
definition S0MSG_CONNECT :: u16 where "S0MSG_CONNECT = 4"
definition S0MSG_PUNCH :: u16 where "S0MSG_PUNCH = 5"

definition ss0_send :: "server \<Rightarrow> sockaddr \<Rightarrow> u16 \<Rightarrow> bytes \<Rightarrow> (bool \<times> server) option" where
  "ss0_send s sa what b =
     (case msgframe_new s of
        None \<Rightarrow> Some (False, s)
      | Some s \<Rightarrow>
          do { addr \<leftarrow> copy_sa sa;
               queue_send s addr (ss0_header_write \<lparr>s0_zero = 0, s0_what = what\<rparr> @ b) })"

definition ss0_reset :: "server \<Rightarrow> sockaddr \<Rightarrow> u32 \<Rightarrow> server option" where
  "ss0_reset s sa conv = do { (_, s) \<leftarrow> ss0_send s sa S0MSG_RESET (write_uint32 conv); Some s }"

text \<open>The handlers: whether the message was valid, and the server.\<close>

definition ss0_on_ping :: "server \<Rightarrow> msgframe \<Rightarrow> (bool \<times> server) option" where
  "ss0_on_ping s msg =
     (if m_len msg < SESSION0_HEADER_SIZE + 4 then Some (False, s)
      else do { tstamp \<leftarrow> read_uint32 (drop SESSION0_HEADER_SIZE (m_buf msg));
                (_, s) \<leftarrow> ss0_send s (m_addr msg) S0MSG_PONG (write_uint32 tstamp);
                Some (True, s) })"

definition ss0_on_pong :: "server \<Rightarrow> msgframe \<Rightarrow> (bool \<times> server) option" where
  "ss0_on_pong s msg =
     (if m_len msg < SESSION0_HEADER_SIZE + 4 then Some (False, s)
      else
        (let m = MODE_RENDEZVOUS OR MODE_CLIENT;
             s = (if c_mode (sv_conf s) AND m = m \<and> \<not> pc_connected (sv_pkt s)
                  then s\<lparr>sv_pkt := (sv_pkt s)\<lparr>pc_kcp_connect := m_addr msg, pc_connected := True\<rparr>\<rparr> else s)
         in Some (True, s\<lparr>sv_pkt := (sv_pkt s)\<lparr>pc_inflight_ping := TSTAMP_NIL\<rparr>\<rparr>)))"

text \<open>The hash of the session table.\<close>

definition GET_HASH :: hashfn where
  "GET_HASH key seed = (case cityhash64low_32 key seed of None \<Rightarrow> 0 | Some h \<Rightarrow> h)"

definition ss0_on_reset :: "server \<Rightarrow> msgframe \<Rightarrow> (bool \<times> server) option" where
  "ss0_on_reset s msg =
     (if m_len msg < SESSION0_HEADER_SIZE + 4 then Some (False, s)
      else do {
        conv \<leftarrow> read_uint32 (drop SESSION0_HEADER_SIZE (m_buf msg));
        sskey \<leftarrow> SESSION_MAKEKEY (m_addr msg) conv;
        found \<leftarrow> table_find GET_HASH (sv_sessions s) sskey;
        case found of
          None \<Rightarrow> Some (True, s)
        | Some a \<Rightarrow>
            with_session a (\<lambda>ss w. Some (True,
              if ss_kcp_state ss = STATE_TIME_WAIT then ss else session_kcp_stop (session_tcp_stop ss), w)) s })"

definition ss0_on_listen :: "server \<Rightarrow> msgframe \<Rightarrow> (bool \<times> server) option" where
  "ss0_on_listen s msg =
     (case inetaddr_read (drop SESSION0_HEADER_SIZE (m_data msg)) of
        None \<Rightarrow> Some (False, s)
      | Some (addr, _) \<Rightarrow>
          Some (True, s\<lparr>sv_pkt := (sv_pkt s)\<lparr>pc_server_addr0 := addr, pc_server_addr1 := m_addr msg,
                                            pc_listened := True\<rparr>\<rparr>))"

text \<open>Two addresses, as a punch message carries them; \<open>None\<close> when one has no such form.\<close>

definition two_addrs :: "sockaddr \<Rightarrow> sockaddr \<Rightarrow> bytes option" where
  "two_addrs a b =
     (let len = INET6ADDR_LENGTH + INET6ADDR_LENGTH in
      do { p \<leftarrow> inetaddr_write len a; q \<leftarrow> inetaddr_write (len - length p) b; Some (p @ q) })"

definition ss0_on_connect :: "server \<Rightarrow> msgframe \<Rightarrow> (bool \<times> server) option" where
  "ss0_on_connect s msg =
     (case inetaddr_read (drop SESSION0_HEADER_SIZE (m_data msg)) of
        None \<Rightarrow> Some (False, s)
      | Some (addr, _) \<Rightarrow>
          if \<not> pc_listened (sv_pkt s) then Some (True, s)
          else case two_addrs addr (m_addr msg) of
            None \<Rightarrow> Some (False, s)
          | Some b \<Rightarrow>
              do { (_, s) \<leftarrow> ss0_send s (pc_server_addr1 (sv_pkt s)) S0MSG_PUNCH b;
                   case two_addrs (pc_server_addr0 (sv_pkt s)) (pc_server_addr1 (sv_pkt s)) of
                     None \<Rightarrow> Some (False, s)
                   | Some b \<Rightarrow>
                       do { (_, s) \<leftarrow> ss0_send s (m_addr msg) S0MSG_PUNCH b; Some (True, s) } })"

definition ss0_on_punch :: "server \<Rightarrow> msgframe \<Rightarrow> (bool \<times> server) option" where
  "ss0_on_punch s msg =
     (let b = drop SESSION0_HEADER_SIZE (m_data msg) in
      case inetaddr_read b of
        None \<Rightarrow> Some (False, s)
      | Some (addr0, n) \<Rightarrow>
          (case inetaddr_read (drop n b) of
             None \<Rightarrow> Some (False, s)
           | Some (addr1, _) \<Rightarrow>
               (let p = write_uint32 (TSTAMP2MS (sv_now s)) in
                do { s \<leftarrow> (if is_punch_addr addr0
                           then do { (_, s) \<leftarrow> ss0_send s addr0 S0MSG_PING p; Some s } else Some s);
                     s \<leftarrow> (if is_punch_addr addr1
                           then do { (_, s) \<leftarrow> ss0_send s addr1 S0MSG_PING p; Some s } else Some s);
                     Some (True, s) })))"

text \<open>The handler of a message, by its number.\<close>

definition ss0_handler :: "u16 \<Rightarrow> (server \<Rightarrow> msgframe \<Rightarrow> (bool \<times> server) option) option" where
  "ss0_handler what =
     (if what = S0MSG_PING then Some ss0_on_ping
      else if what = S0MSG_PONG then Some ss0_on_pong
      else if what = S0MSG_RESET then Some ss0_on_reset
      else if what = S0MSG_LISTEN then Some ss0_on_listen
      else if what = S0MSG_CONNECT then Some ss0_on_connect
      else if what = S0MSG_PUNCH then Some ss0_on_punch
      else None)"

definition session0 :: "server \<Rightarrow> msgframe \<Rightarrow> server option" where
  "session0 s msg =
     (if m_len msg < SESSION0_HEADER_SIZE then Some s
      else do { header \<leftarrow> ss0_header_read (m_buf msg);
                case ss0_handler (s0_what header) of
                  None \<Rightarrow> Some s
                | Some handler \<Rightarrow> do { (_, s) \<leftarrow> handler s msg; Some s } })"

end
