(* ===== verification/Dispatch.thy ===== *)
theory Dispatch
  imports Session0
begin

text \<open>
  The way of a packet from the socket to its session (\<open>src/src/pktqueue.c\<close>, \<open>src/src/event_pkt.c\<close>):
  opening, lookup of the session, acceptance of new ones, and the handlers of the session.
\<close>

unbundle bit_operations_syntax

subsection \<open>New sessions\<close>

text \<open>The address of a new session in the heap, when there was memory for it.\<close>

definition new_session :: "server \<Rightarrow> sockaddr \<Rightarrow> u32 \<Rightarrow> nat option \<times> server" where
  "new_session s addr conv =
     (case session_new (sv_mem s) (sv_conf s) (q_mss (sv_q s)) (sv_now s) addr conv of
        None \<Rightarrow> (None, s)
      | Some ss \<Rightarrow>
          (Some (sv_next s),
           s\<lparr>sv_heap := (sv_heap s)(sv_next s \<mapsto> (ss, sv_world s)), sv_next := Suc (sv_next s)\<rparr>))"

text \<open>\<open>table_set\<close> of the session table; an element that was not inserted is not looked at.\<close>

definition put_session :: "server \<Rightarrow> bytes \<Rightarrow> nat \<Rightarrow> server option" where
  "put_session s key a =
     do { (t, _) \<leftarrow> table_set GET_HASH (sv_mem s 5) (sv_seed s) (sv_sessions s) key a;
          Some (s\<lparr>sv_sessions := t\<rparr>) }"

definition set_session :: "nat \<Rightarrow> (session \<Rightarrow> session) \<Rightarrow> server \<Rightarrow> server option" where
  "set_session a f s =
     do { (ss, w) \<leftarrow> sv_heap s a; Some (s\<lparr>sv_heap := (sv_heap s)(a \<mapsto> (f ss, w))\<rparr>) }"

subsection \<open>One packet\<close>

text \<open>The second half of \<open>queue_recv\<close>, with the session found or created.\<close>

definition session_packet :: "server \<Rightarrow> msgframe \<Rightarrow> u32 \<Rightarrow> nat \<Rightarrow> server option" where
  "session_packet s msg conv a =
     do { (ss, _) \<leftarrow> sv_heap s a;
          same \<leftarrow> sa_equals (m_addr msg) (ss_raddr ss);
          if \<not> same then
            (if ss_last_reset ss = TSTAMP_NIL \<or> sv_now s - ss_last_reset ss > 1000
             then do { s \<leftarrow> ss0_reset s (m_addr msg) conv;
                       set_session a (\<lambda>ss. ss\<lparr>ss_last_reset := sv_now s\<rparr>) s }
             else Some s)
          else do {
            (reset, s) \<leftarrow> with_session a (\<lambda>ss w. session_input ss w (m_data msg)) s;
            if reset then ss0_reset s (m_addr msg) conv else Some s } }"

definition queue_recv :: "server \<Rightarrow> msgframe \<Rightarrow> server option" where
  "queue_recv s msg =
     do { conv \<leftarrow> ikcp_getconv (m_buf msg);
          if conv = 0 then session0 s msg
          else do {
            sskey \<leftarrow> SESSION_MAKEKEY (m_addr msg) conv;
            found \<leftarrow> table_find GET_HASH (sv_sessions s) sskey;
            case found of
              Some a \<Rightarrow> session_packet s msg conv a
            | None \<Rightarrow>
                if c_mode (sv_conf s) AND MODE_SERVER = 0 then ss0_reset s (m_addr msg) conv
                else
                  (case new_session s (m_addr msg) conv of
                     (None, s) \<Rightarrow> Some s
                   | (Some a, s) \<Rightarrow>
                       do { s \<leftarrow> put_session s sskey a;
                            s \<leftarrow> set_session a accept_kcp s;
                            session_packet s msg conv a }) } }"

subsection \<open>The receive queue\<close>

text \<open>The decryption of a frame in place; \<open>None\<close> as its first result when the packet is refused.\<close>

definition open_frame :: "server \<Rightarrow> msgframe \<Rightarrow> (msgframe option \<times> server) option" where
  "open_frame s msg =
     (case q_crypto (sv_q s) of
        None \<Rightarrow> Some (Some msg, s)
      | Some crypto \<Rightarrow>
          do { g \<leftarrow> q_noncegen (sv_q s);
               (r, g) \<leftarrow> crypto_open_inplace crypto g MAX_PACKET_SIZE (m_data msg);
               Some (map_option (\<lambda>plain. msg\<lparr>m_len := length plain,
                       m_buf := plain @ drop (length plain) (m_buf msg)\<rparr>) r,
                     s\<lparr>sv_q := (sv_q s)\<lparr>q_noncegen := Some g\<rparr>\<rparr>) })"

fun dispatch_loop :: "msgframe list \<Rightarrow> nat \<Rightarrow> server \<Rightarrow> (nat \<times> server) option" where
  "dispatch_loop [] nbrecv s = Some (nbrecv, s)"
| "dispatch_loop (msg # msgs) nbrecv s =
     do { (r, s) \<leftarrow> open_frame s msg;
          case r of
            None \<Rightarrow> dispatch_loop msgs nbrecv (msgframe_delete s)
          | Some msg \<Rightarrow>
              do { s \<leftarrow> queue_recv s msg;
                   dispatch_loop msgs (nbrecv + m_len msg) (msgframe_delete s) } }"

definition queue_dispatch :: "server \<Rightarrow> (nat \<times> server) option" where
  "queue_dispatch s =
     (if q_recv (sv_q s) = [] then Some (0, s)
      else do {
        (nbrecv, s) \<leftarrow> dispatch_loop (q_recv (sv_q s)) 0
                         (s\<lparr>sv_pkt := (sv_pkt s)\<lparr>pc_last_recv_time := sv_now s\<rparr>\<rparr>);
        Some (nbrecv, s\<lparr>sv_q := (sv_q s)\<lparr>q_recv := []\<rparr>\<rparr>) })"

text \<open>The read callback, on the results \<open>recvmmsg\<close> gives until it would block.\<close>

function pkt_read_cb :: "mmsg_recvd list \<Rightarrow> server \<Rightarrow> server option" where
  "pkt_read_cb rs s =
     (case pkt_recv rs s of
        (n, s1, rs1) \<Rightarrow>
          if n > 0 then
            (case queue_dispatch s1 of None \<Rightarrow> None | Some (_, s2) \<Rightarrow> pkt_read_cb rs1 s2)
          else Some s1)"
  by pat_completeness auto
termination
  by (relation "measure (\<lambda>(rs, s). length rs)") (auto dest: pkt_recv_consumes [OF sym])

declare pkt_read_cb.simps [simp del]

end
