(* ===== verification/Hashtable_Inv.thy ===== *)
theory Hashtable_Inv
  imports Hashtable
begin

text \<open>
  The hash table refines a finite map: invariant of the item array, and lookup, insertion, deletion,
  growth and filtering against the map of its valid items.
\<close>

subsection \<open>Contents\<close>

lemma nth_upd: "xs[i := v] ! j = (if j = i \<and> i < length xs then v else xs ! j)"
  by (cases "i < length xs") (auto simp: nth_list_update list_update_beyond)

definition content :: "'e hash_item \<Rightarrow> (bytes \<times> 'e option) option" where
  "content it = (if hi_valid it then Some (hi_key it, hi_elem it) else None)"

definition contents :: "'e hash_item list \<Rightarrow> (bytes \<times> 'e option) option list" where
  "contents p = map content p"

definition look :: "('k \<times> 'v option) option list \<Rightarrow> 'k \<Rightarrow> 'v option" where
  "look cs k =
     (case find (\<lambda>c. case c of None \<Rightarrow> False | Some (k', _) \<Rightarrow> k' = k) cs of
        Some (Some (_, e)) \<Rightarrow> e | _ \<Rightarrow> None)"

definition uniq :: "('k \<times> 'v option) option list \<Rightarrow> bool" where
  "uniq cs \<longleftrightarrow> (\<forall>i < length cs. \<forall>j < length cs. \<forall>k e e'.
     cs ! i = Some (k, e) \<longrightarrow> cs ! j = Some (k, e') \<longrightarrow> i = j)"

lemma uniqD:
  "uniq cs \<Longrightarrow> i < length cs \<Longrightarrow> j < length cs \<Longrightarrow> cs ! i = Some (k, e) \<Longrightarrow> cs ! j = Some (k, e') \<Longrightarrow> i = j"
  unfolding uniq_def by blast

lemma look_at:
  assumes "uniq cs" "i < length cs" "cs ! i = Some (k, e)"
  shows "look cs k = e"
proof -
  let ?P = "\<lambda>c. case c of None \<Rightarrow> False | Some (k', _) \<Rightarrow> k' = k"
  have "find ?P cs = Some (cs ! i)"
    unfolding find_Some_iff
  proof (intro exI [of _ i] conjI allI impI notI)
    fix j assume j: "j < i" "?P (cs ! j)"
    then obtain e' where "cs ! j = Some (k, e')" by (auto split: option.splits)
    from uniqD [OF assms(1) _ assms(2) this assms(3)] assms(2) j(1) show False by simp
  qed (use assms in auto)
  with assms(3) show ?thesis by (simp add: look_def)
qed

lemma look_none: "\<forall>i < length cs. \<forall>e. cs ! i \<noteq> Some (k, e) \<Longrightarrow> look cs k = None"
proof -
  assume a: "\<forall>i < length cs. \<forall>e. cs ! i \<noteq> Some (k, e)"
  have "find (\<lambda>c. case c of None \<Rightarrow> False | Some (k', _) \<Rightarrow> k' = k) cs = None"
    using a by (auto simp: find_None_iff in_set_conv_nth split: option.splits)
  then show ?thesis by (simp add: look_def)
qed

lemma look_cases:
  assumes "uniq cs"
  obtains i e where "i < length cs" "cs ! i = Some (k, e)" "look cs k = e"
  | "\<forall>i < length cs. \<forall>e. cs ! i \<noteq> Some (k, e)" "look cs k = None"
proof (cases "\<exists>i < length cs. \<exists>e. cs ! i = Some (k, e)")
  case True
  then obtain i e where "i < length cs" "cs ! i = Some (k, e)" by blast
  with look_at [OF assms this] that(1) show thesis by blast
next
  case False
  with look_none [of cs k] that(2) show thesis by blast
qed

lemma uniq_upd:
  assumes "uniq cs" "case c of None \<Rightarrow> True | Some (k, _) \<Rightarrow> \<forall>j < length cs. \<forall>e. cs ! j = Some (k, e) \<longrightarrow> j = i"
  shows "uniq (cs[i := c])"
  using assms unfolding uniq_def by (fastforce simp: nth_upd split: option.splits if_splits)

lemma look_upd_some:
  assumes "uniq cs" "i < length cs" "\<forall>j < length cs. \<forall>e. cs ! j = Some (k, e) \<longrightarrow> j = i"
    and "case cs ! i of None \<Rightarrow> True | Some (k', _) \<Rightarrow> k' = k"
  shows "look (cs[i := Some (k, e)]) = (look cs)(k := e)"
proof
  fix q
  have u: "uniq (cs[i := Some (k, e)])" using assms(1,3) by (intro uniq_upd) auto
  show "look (cs[i := Some (k, e)]) q = ((look cs)(k := e)) q"
  proof (cases "q = k")
    case True
    then show ?thesis using look_at [OF u, of i k e] assms(2) by simp
  next
    case False
    show ?thesis
    proof (cases rule: look_cases [OF assms(1), of q])
      case (1 j f)
      with False assms(4) have "j \<noteq> i" by (auto split: option.splits)
      with 1 False look_at [OF u, of j q f] show ?thesis by simp
    next
      case 2
      with False have "look (cs[i := Some (k, e)]) q = None"
        by (intro look_none) (auto simp: nth_upd)
      with 2 False show ?thesis by simp
    qed
  qed
qed

lemma look_upd_none:
  assumes "uniq cs" "i < length cs" "cs ! i = Some (k, e)"
  shows "look (cs[i := None]) = (look cs)(k := None)"
proof
  fix q
  have u: "uniq (cs[i := None])" using assms(1) by (intro uniq_upd) auto
  show "look (cs[i := None]) q = ((look cs)(k := None)) q"
  proof (cases "\<exists>j < length cs. \<exists>f. j \<noteq> i \<and> cs ! j = Some (q, f)")
    case True
    then obtain j f where j: "j < length cs" "j \<noteq> i" "cs ! j = Some (q, f)" by blast
    with assms have "q \<noteq> k" unfolding uniq_def by metis
    moreover have "look (cs[i := None]) q = f" using look_at [OF u, of j q f] j by simp
    ultimately show ?thesis using look_at [OF assms(1) j(1,3)] by simp
  next
    case False
    then have "look (cs[i := None]) q = None" by (intro look_none) (auto simp: nth_upd)
    moreover have "q \<noteq> k \<Longrightarrow> look cs q = None" using False assms(3) by (intro look_none) force
    ultimately show ?thesis by simp
  qed
qed

lemma nonnull_upd:
  "\<forall>k. Some (k, None) \<notin> set cs \<Longrightarrow> \<forall>k. c \<noteq> Some (k, None) \<Longrightarrow> \<forall>k. Some (k, None) \<notin> set (cs[i := c])"
  using set_update_subset_insert [of cs i c] by auto

lemma contents_length [simp]: "length (contents p) = length p"
  by (simp add: contents_def)

lemma contents_upd: "contents (p[i := v]) = (contents p)[i := content v]"
  by (simp add: contents_def map_update)

lemma contents_nth [simp]: "i < length p \<Longrightarrow> contents p ! i = content (p ! i)"
  by (simp add: contents_def)

lemma contents_upd_same: "content v = content (p ! i) \<Longrightarrow> contents (p[i := v]) = contents p"
  by (cases "i < length p") (auto simp: contents_upd list_update_same_conv list_update_beyond)

subsection \<open>Chains\<close>

fun is_chain :: "'e hash_item list \<Rightarrow> itemref \<Rightarrow> nat list \<Rightarrow> bool" where
  "is_chain p i [] = (i = None)"
| "is_chain p i (j # js) = (i = Some j \<and> j < length p \<and> is_chain p (hi_next (p ! j)) js)"

lemma is_chain_cong:
  assumes "length p' = length p" "\<forall>j \<in> set js. hi_next (p' ! j) = hi_next (p ! j)"
  shows "is_chain p' i js = is_chain p i js"
  using assms(2) by (induction js arbitrary: i) (auto simp: assms(1))

lemma is_chain_upd: "j \<notin> set js \<Longrightarrow> is_chain (p[j := v]) i js = is_chain p i js"
  by (intro is_chain_cong) (auto simp: nth_upd)

lemma is_chain_upd_next: "hi_next v = hi_next (p ! j) \<Longrightarrow> is_chain (p[j := v]) i js = is_chain p i js"
  by (intro is_chain_cong) (auto simp: nth_upd)

lemma is_chain_bound: "is_chain p i js \<Longrightarrow> j \<in> set js \<Longrightarrow> j < length p"
  by (induction js arbitrary: i) auto

text \<open>The items of a chain that a walk passes before it finds the key.\<close>

definition passed :: "'e hash_item list \<Rightarrow> u32 \<Rightarrow> bytes \<Rightarrow> nat list \<Rightarrow> nat list" where
  "passed p h key js = takeWhile (\<lambda>j. \<not> (hi_hash (p ! j) = h \<and> hi_key (p ! j) = key)) js"

definition last_opt :: "itemref \<Rightarrow> nat list \<Rightarrow> itemref" where
  "last_opt prev js = (if js = [] then prev else Some (last js))"

lemma chain_find_spec:
  assumes "is_chain p i js"
  shows "chain_find p h key prev i n =
    Some ((last_opt prev (passed p h key js),
           case drop (length (passed p h key js)) js of [] \<Rightarrow> None | j # _ \<Rightarrow> Some j),
          n + length (passed p h key js))"
  using assms
proof (induction js arbitrary: i prev n)
  case Nil
  then show ?case by (simp add: chain_find.simps passed_def last_opt_def)
next
  case (Cons j js)
  then show ?case by (simp add: chain_find.simps passed_def last_opt_def)
qed

definition chains_ok :: "hashfn \<Rightarrow> u32 \<Rightarrow> nat \<Rightarrow> 'e hash_item list \<Rightarrow> (nat \<Rightarrow> nat list) \<Rightarrow> nat set \<Rightarrow> bool" where
  "chains_ok hash seed cap p cs L \<longleftrightarrow>
     cap \<le> length p \<and>
     (\<forall>b < cap. is_chain p (hi_bucket (p ! b)) (cs b) \<and> distinct (cs b)) \<and>
     (\<forall>b < cap. \<forall>j \<in> set (cs b). hi_hash (p ! j) = hash (hi_key (p ! j)) seed \<and>
        unat (hi_hash (p ! j)) mod cap = b) \<and>
     (\<Union>b \<in> {..<cap}. set (cs b)) = L"

lemma chains_okD:
  assumes "chains_ok hash seed cap p cs L"
  shows "cap \<le> length p" "b < cap \<Longrightarrow> is_chain p (hi_bucket (p ! b)) (cs b)" "b < cap \<Longrightarrow> distinct (cs b)"
    "b < cap \<Longrightarrow> j \<in> set (cs b) \<Longrightarrow> hi_hash (p ! j) = hash (hi_key (p ! j)) seed"
    "b < cap \<Longrightarrow> j \<in> set (cs b) \<Longrightarrow> unat (hi_hash (p ! j)) mod cap = b"
    "b < cap \<Longrightarrow> j \<in> set (cs b) \<Longrightarrow> j \<in> L" "L = (\<Union>b \<in> {..<cap}. set (cs b))"
  using assms unfolding chains_ok_def by (blast, blast, blast, blast, blast, blast, blast)

lemma chains_ok_upd:
  assumes "chains_ok hash seed cap p cs L" "hi_bucket v = hi_bucket (p ! i)"
    and "i \<in> L \<Longrightarrow> hi_next v = hi_next (p ! i) \<and> hi_hash v = hi_hash (p ! i) \<and> hi_key v = hi_key (p ! i)"
  shows "chains_ok hash seed cap (p[i := v]) cs L"
proof -
  note c = chains_okD [OF assms(1)]
  have b: "hi_bucket (p[i := v] ! b) = hi_bucket (p ! b)" for b
    using assms(2) by (simp add: nth_upd)
  have n: "is_chain (p[i := v]) r (cs b) = is_chain p r (cs b)" if "b < cap" for b r
  proof (cases "i \<in> L")
    case True
    with assms(3) show ?thesis by (intro is_chain_upd_next) simp
  next
    case False
    with c(6) [OF that] show ?thesis by (intro is_chain_upd) blast
  qed
  have h: "hi_hash (p[i := v] ! j) = hi_hash (p ! j)" "hi_key (p[i := v] ! j) = hi_key (p ! j)"
    if "b < cap" "j \<in> set (cs b)" for b j
    using assms(3) c(6) [OF that] by (auto simp: nth_upd)
  show ?thesis
    unfolding chains_ok_def using c(1-5) by (simp add: b n h flip: c(7))
qed

lemma link_item_length [simp]: "length (link_item b i p) = length p"
  by (simp add: link_item_def Let_def)

lemma link_item_contents [simp]: "contents (link_item b i p) = contents p"
  by (simp add: link_item_def Let_def contents_upd_same content_def)

lemma link_item_chains:
  assumes "chains_ok hash seed cap p cs L" "i \<notin> L" "i < length p" "b < cap"
    and "hi_hash (p ! i) = hash (hi_key (p ! i)) seed" "unat (hi_hash (p ! i)) mod cap = b"
  shows "chains_ok hash seed cap (link_item b i p) (cs(b := i # cs b)) (insert i L)"
proof -
  note c = chains_okD [OF assms(1)]
  let ?p = "link_item b i p"
  have b: "b < length p" using assms(4) c(1) by simp
  have bk: "hi_bucket (?p ! b') = (if b' = b then Some i else hi_bucket (p ! b'))" for b'
    using b assms(3) by (simp add: link_item_def Let_def nth_upd)
  have nx: "hi_next (?p ! j) = (if j = i then hi_bucket (p ! b) else hi_next (p ! j))" for j
    using b assms(3) by (simp add: link_item_def Let_def nth_upd)
  have hk: "hi_hash (?p ! j) = hi_hash (p ! j)" "hi_key (?p ! j) = hi_key (p ! j)" for j
    using b assms(3) by (simp_all add: link_item_def Let_def nth_upd)
  have n: "is_chain ?p r (cs b') = is_chain p r (cs b')" if "b' < cap" for b' r
    using c(6) [OF that] assms(2) nx by (intro is_chain_cong) auto
  have i: "i \<notin> set (cs b')" if "b' < cap" for b' using c(6) [OF that] assms(2) by blast
  have L: "(\<Union>b' \<in> {..<cap}. set ((cs(b := i # cs b)) b')) = insert i L"
    using assms(4) unfolding c(7) by (auto split: if_splits)
  show ?thesis
    unfolding chains_ok_def L using c(1-5) assms(3-6) b i by (auto simp: bk nx hk n)
qed

subsection \<open>Invariant\<close>

definition ht_ok :: "hashfn \<Rightarrow> 'e hashtable \<Rightarrow> (nat \<Rightarrow> nat list) \<Rightarrow> nat list \<Rightarrow> bool" where
  "ht_ok hash t cs fl \<longleftrightarrow>
     length (ht_p t) = ht_capacity t \<and> 0 < ht_capacity t \<and> ht_capacity t \<le> MAX_CAPACITY \<and>
     ht_max_load t \<le> ht_capacity t \<and>
     chains_ok hash (ht_seed t) (ht_capacity t) (ht_p t) cs {j. j < length (ht_p t) \<and> hi_valid (ht_p t ! j)} \<and>
     is_chain (ht_p t) (ht_freelist t) fl \<and> distinct fl \<and>
     (\<forall>j < length (ht_p t). hi_valid (ht_p t ! j) \<or> j \<in> set fl \<longleftrightarrow> j < ht_size t + length fl) \<and>
     (\<forall>j \<in> set fl. \<not> hi_valid (ht_p t ! j)) \<and> ht_size t + length fl \<le> ht_capacity t \<and>
     uniq (contents (ht_p t)) \<and> (\<forall>k. Some (k, None) \<notin> set (contents (ht_p t)))"

definition ht_inv :: "hashfn \<Rightarrow> 'e hashtable \<Rightarrow> bool" where
  "ht_inv hash t \<longleftrightarrow> (\<exists>cs fl. ht_ok hash t cs fl)"

definition ht_map :: "'e hashtable \<Rightarrow> bytes \<Rightarrow> 'e option" where
  "ht_map t = look (contents (ht_p t))"

lemma content_Some: "(content it = Some (k, e)) = (hi_valid it \<and> hi_key it = k \<and> hi_elem it = e)"
  by (auto simp: content_def)

lemma content_None: "(content it = None) = (\<not> hi_valid it)"
  by (auto simp: content_def)

lemma ht_okD:
  assumes "ht_ok hash t cs fl"
  shows "length (ht_p t) = ht_capacity t" "0 < ht_capacity t" "ht_capacity t \<le> MAX_CAPACITY"
    "ht_max_load t \<le> ht_capacity t"
    "chains_ok hash (ht_seed t) (ht_capacity t) (ht_p t) cs {j. j < length (ht_p t) \<and> hi_valid (ht_p t ! j)}"
    "is_chain (ht_p t) (ht_freelist t) fl" "distinct fl"
    "j < length (ht_p t) \<Longrightarrow> hi_valid (ht_p t ! j) \<or> j \<in> set fl \<longleftrightarrow> j < ht_size t + length fl"
    "j \<in> set fl \<Longrightarrow> \<not> hi_valid (ht_p t ! j)" "ht_size t + length fl \<le> ht_capacity t"
    "uniq (contents (ht_p t))" "\<forall>k. Some (k, None) \<notin> set (contents (ht_p t))"
  using assms unfolding ht_ok_def by blast+

lemma look_None_iff:
  assumes "ht_ok hash t cs fl"
  shows "ht_map t k = None \<longleftrightarrow> (\<forall>j < length (contents (ht_p t)). \<forall>e. contents (ht_p t) ! j \<noteq> Some (k, e))"
proof
  assume n: "ht_map t k = None"
  show "\<forall>j < length (contents (ht_p t)). \<forall>e. contents (ht_p t) ! j \<noteq> Some (k, e)"
  proof (intro allI impI notI)
    fix j f assume j: "j < length (contents (ht_p t))" "contents (ht_p t) ! j = Some (k, f)"
    from look_at [OF ht_okD(11) [OF assms] this] n have "f = None" by (simp add: ht_map_def)
    with ht_okD(12) [OF assms] nth_mem [OF j(1)] j(2) show False by simp
  qed
qed (simp add: ht_map_def look_none)

lemma ht_okI:
  assumes "length p = cap" "0 < cap" "cap \<le> MAX_CAPACITY" "ht_max_load t \<le> cap"
    and "chains_ok hash (ht_seed t) cap p cs {j. j < length p \<and> hi_valid (p ! j)}"
    and "is_chain p (ht_freelist t) fl" "distinct fl"
    and "\<forall>j < length p. hi_valid (p ! j) \<or> j \<in> set fl \<longleftrightarrow> j < ht_size t + length fl"
    and "\<forall>j \<in> set fl. \<not> hi_valid (p ! j)" "ht_size t + length fl \<le> cap"
    and "uniq (contents p)" "\<forall>k. Some (k, None) \<notin> set (contents p)"
    and "ht_p t = p" "ht_capacity t = cap"
  shows "ht_ok hash t cs fl"
  unfolding ht_ok_def assms(13,14) using assms(1-12) by (intro conjI) assumption+

text \<open>The walk along the chain of a key finds the key's item, or the key is in no item.\<close>

lemma ht_lookup:
  assumes ok: "ht_ok hash t cs fl" and b: "b = unat (hash k (ht_seed t)) mod ht_capacity t"
  obtains ys j zs where "cs b = ys @ j # zs" "j < length (ht_p t)" "hi_valid (ht_p t ! j)" "hi_key (ht_p t ! j) = k"
    "chain_find (ht_p t) (hash k (ht_seed t)) k None (hi_bucket (ht_p t ! b)) 0 =
       Some ((last_opt None ys, Some j), length ys)"
  | "\<forall>j < length (contents (ht_p t)). \<forall>e. contents (ht_p t) ! j \<noteq> Some (k, e)"
    "chain_find (ht_p t) (hash k (ht_seed t)) k None (hi_bucket (ht_p t ! b)) 0 =
       Some ((last_opt None (cs b), None), length (cs b))"
proof -
  let ?p = "ht_p t" and ?h = "hash k (ht_seed t)"
  note i = ht_okD [OF ok]
  note c = chains_okD [OF i(5)]
  have bc: "b < ht_capacity t" using i(2) b by simp
  define ys where "ys = passed ?p ?h k (cs b)"
  have f: "chain_find ?p ?h k None (hi_bucket (?p ! b)) 0 =
      Some ((last_opt None ys, case drop (length ys) (cs b) of [] \<Rightarrow> None | j # _ \<Rightarrow> Some j), length ys)"
    using chain_find_spec [OF c(2) [OF bc], of ?h k None 0] by (simp add: ys_def)
  let ?Q = "\<lambda>j. \<not> (hi_hash (?p ! j) = ?h \<and> hi_key (?p ! j) = k)"
  have d: "drop (length ys) (cs b) = dropWhile ?Q (cs b)"
    unfolding ys_def passed_def by (rule dropWhile_eq_drop [symmetric])
  have e: "cs b = ys @ drop (length ys) (cs b)"
    unfolding d unfolding ys_def passed_def by (rule takeWhile_dropWhile_id [symmetric])
  show thesis
  proof (cases "drop (length ys) (cs b)")
    case Nil
    have q: "\<forall>j \<in> set (cs b). ?Q j" using d Nil unfolding dropWhile_eq_Nil_conv [symmetric] by (rule trans [OF sym])
    have "contents ?p ! j \<noteq> Some (k, e)" if "j < length ?p" for j e
    proof
      assume j: "contents ?p ! j = Some (k, e)"
      with that have v: "hi_valid (?p ! j)" "hi_key (?p ! j) = k" by (simp_all add: content_Some)
      with that c(7) obtain b' where b': "b' < ht_capacity t" "j \<in> set (cs b')" by auto
      with c(4,5) [OF this] v b have "b' = b" "hi_hash (?p ! j) = ?h" by simp_all
      with b'(2) v(2) q show False by blast
    qed
    moreover from Nil e have "ys = cs b" by simp
    ultimately show thesis using that(2) f Nil by simp
  next
    case (Cons j zs)
    have js: "j \<in> set (cs b)" using e Cons by (metis in_set_conv_decomp)
    have "dropWhile ?Q (cs b) = j # zs" using d Cons by (rule trans [OF sym])
    then have "hi_hash (?p ! j) = ?h \<and> hi_key (?p ! j) = k" unfolding dropWhile_eq_Cons_conv by blast
    with that(1) [of ys j zs] e Cons f c(6) [OF bc js] show thesis by simp
  qed
qed

lemma table_find_refines_lemma:
  assumes "ht_inv hash t"
  shows "table_find hash t k = Some (ht_map t k)"
proof -
  from assms obtain cs fl where ok: "ht_ok hash t cs fl" by (auto simp: ht_inv_def)
  note i = ht_okD [OF ok]
  show ?thesis
  proof (cases rule: ht_lookup [OF ok refl, of k])
    case (1 ys j zs)
    with look_at [OF i(11), of j k "hi_elem (ht_p t ! j)"] show ?thesis
      by (simp add: table_find_def Let_def ht_map_def content_Some)
  next
    case 2
    with look_none [OF 2(1)] show ?thesis by (simp add: table_find_def Let_def ht_map_def)
  qed
qed

lemma link_item_nth:
  assumes "b < length p" "i < length p"
  shows "hi_next (link_item b i p ! j) = (if j = i then hi_bucket (p ! b) else hi_next (p ! j))"
    "hi_valid (link_item b i p ! j) = hi_valid (p ! j)"
  using assms by (simp_all add: link_item_def Let_def nth_upd)

text \<open>A new value for an item that keeps its key.\<close>

lemma ht_replace:
  assumes ok: "ht_ok hash t cs fl" and j: "j < length (ht_p t)" "hi_valid (ht_p t ! j)" "hi_key (ht_p t ! j) = k"
    and t': "t' = t\<lparr>ht_p := (ht_p t)[j := (ht_p t ! j)\<lparr>hi_key := k, hi_elem := Some e\<rparr>]\<rparr>"
  shows "ht_ok hash t' cs fl \<and> ht_map t' = (ht_map t)(k \<mapsto> e)"
proof -
  note i = ht_okD [OF ok]
  define p where "p = (ht_p t)[j := (ht_p t ! j)\<lparr>hi_key := k, hi_elem := Some e\<rparr>]"
  have val: "hi_valid (p ! m) = hi_valid (ht_p t ! m)" for m using j by (simp add: p_def nth_upd)
  have len: "length p = length (ht_p t)" by (simp add: p_def)
  have ch: "chains_ok hash (ht_seed t) (ht_capacity t) p cs {j. j < length (ht_p t) \<and> hi_valid (ht_p t ! j)}"
    unfolding p_def using j by (intro chains_ok_upd [OF i(5)]) simp_all
  have only: "\<forall>m < length (contents (ht_p t)). \<forall>e. contents (ht_p t) ! m = Some (k, e) \<longrightarrow> m = j"
    using uniqD [OF i(11), of _ j k] j by (auto simp: content_Some)
  have C: "contents p = (contents (ht_p t))[j := Some (k, Some e)]"
    using j by (simp add: p_def contents_upd content_def)
  have l: "look (contents p) = (look (contents (ht_p t)))(k := Some e)"
    unfolding C using j by (intro look_upd_some [OF i(11) _ only]) (simp_all add: content_def)
  have u: "uniq (contents p)" unfolding C by (rule uniq_upd [OF i(11)]) (use only in simp)
  have f: "is_chain p (ht_freelist t) fl" unfolding p_def using i(6) by (subst is_chain_upd_next) simp_all
  have nn: "\<forall>k. Some (k, None) \<notin> set (contents p)" unfolding C by (rule nonnull_upd [OF i(12)]) simp
  have "ht_ok hash t' cs fl"
    by (rule ht_okI [of p "ht_capacity t"]) (use i ch f u nn in \<open>simp_all add: len val t' p_def [symmetric]\<close>)
  with l show ?thesis by (simp add: ht_map_def t' flip: p_def)
qed

text \<open>A new element in the free item \<open>i\<close>.\<close>

lemma ht_place:
  assumes ok: "ht_ok hash t cs fl" and i: "i < length (ht_p t)" "\<not> hi_valid (ht_p t ! i)" "i \<notin> set fl'"
    and f: "is_chain (ht_p t) f' fl'" "distinct fl'" "set fl' \<subseteq> set fl"
    and w: "\<forall>j < length (ht_p t). hi_valid (ht_p t ! j) \<or> j = i \<or> j \<in> set fl' \<longleftrightarrow> j < ht_size t + 1 + length fl'"
      "ht_size t + 1 + length fl' \<le> ht_capacity t"
    and k: "\<forall>j < length (contents (ht_p t)). \<forall>e. contents (ht_p t) ! j \<noteq> Some (k, e)"
    and h: "h = hash k (ht_seed t)" "b = unat h mod ht_capacity t"
    and v: "v = (ht_p t ! i)\<lparr>hi_valid := True, hi_hash := h, hi_key := k, hi_elem := Some e\<rparr>"
    and t': "t' = t\<lparr>ht_freelist := f', ht_size := ht_size t + 1, ht_p := link_item b i ((ht_p t)[i := v])\<rparr>"
  shows "ht_ok hash t' (cs(b := i # cs b)) fl' \<and> ht_map t' = (ht_map t)(k \<mapsto> e)"
proof -
  note q = ht_okD [OF ok]
  let ?L = "{j. j < length (ht_p t) \<and> hi_valid (ht_p t ! j)}"
  define p where "p = link_item b i ((ht_p t)[i := v])"
  have b: "b < ht_capacity t" "b < length (ht_p t)" using q(1,2) h(2) by simp_all
  have len: "length p = length (ht_p t)" by (simp add: p_def)
  have val: "hi_valid (p ! j) = (j = i \<or> hi_valid (ht_p t ! j))" for j
    using b i by (simp add: p_def link_item_nth nth_upd v)
  have "chains_ok hash (ht_seed t) (ht_capacity t) ((ht_p t)[i := v]) cs ?L"
    using i by (intro chains_ok_upd [OF q(5)]) (simp_all add: v)
  then have "chains_ok hash (ht_seed t) (ht_capacity t) p (cs(b := i # cs b)) (insert i ?L)"
    unfolding p_def using i b h by (intro link_item_chains) (simp_all add: v)
  moreover have "insert i ?L = {j. j < length p \<and> hi_valid (p ! j)}" using i by (auto simp: val len)
  ultimately have ch: "chains_ok hash (ht_seed t) (ht_capacity t) p (cs(b := i # cs b))
      {j. j < length p \<and> hi_valid (p ! j)}" by simp
  have fr: "is_chain p f' fl'"
    unfolding p_def using f(1) b i by (subst is_chain_cong [of _ "ht_p t"]) (auto simp: link_item_nth nth_upd)
  have C: "contents p = (contents (ht_p t))[i := Some (k, Some e)]"
    by (simp add: p_def contents_upd v content_def)
  have u: "uniq (contents p)" unfolding C by (rule uniq_upd [OF q(11)]) (use k in auto)
  have l: "look (contents p) = (look (contents (ht_p t)))(k := Some e)"
    unfolding C using i k by (intro look_upd_some [OF q(11)]) (auto simp: content_def)
  have nv: "\<forall>j \<in> set fl'. \<not> hi_valid (p ! j)" using f(3) i(3) q(9) val by auto
  have wm: "\<forall>j < length p. hi_valid (p ! j) \<or> j \<in> set fl' \<longleftrightarrow> j < ht_size t + 1 + length fl'"
    using w(1) val len by auto
  have nn: "\<forall>k. Some (k, None) \<notin> set (contents p)" unfolding C by (rule nonnull_upd [OF q(12)]) simp
  have "ht_ok hash t' (cs(b := i # cs b)) fl'"
    by (rule ht_okI [of p "ht_capacity t"])
      (use q(1-4) ch fr u f(2) w(2) nv wm nn in \<open>simp_all add: len t' p_def [symmetric]\<close>)
  with l show ?thesis by (simp add: ht_map_def t' flip: p_def)
qed

text \<open>Taking an item out of its chain.\<close>

lemma chain_remove:
  assumes "is_chain p i (ys @ j # zs)" "distinct (ys @ j # zs)" "ys \<noteq> []"
  shows "is_chain (p[last ys := (p ! last ys)\<lparr>hi_next := hi_next (p ! j)\<rparr>]) i (ys @ zs)"
  using assms
proof (induction ys arbitrary: i)
  case (Cons a ys)
  show ?case
  proof (cases "ys = []")
    case True
    with Cons.prems show ?thesis by (auto simp: is_chain_upd)
  next
    case False
    with Cons.prems(2) have "a \<noteq> last ys" by auto
    with Cons.IH [of "hi_next (p ! a)"] Cons.prems False show ?thesis by (simp add: nth_upd)
  qed
qed simp

lemma chain_suffix: "is_chain p i (ys @ j # zs) \<Longrightarrow> is_chain p (hi_next (p ! j)) zs"
  by (induction ys arbitrary: i) auto

lemma ht_live_size:
  assumes ok: "ht_ok hash t cs fl" and j: "j < length (ht_p t)" "hi_valid (ht_p t ! j)"
  shows "0 < ht_size t"
proof -
  note q = ht_okD [OF ok]
  have "set fl \<subseteq> {..<ht_size t + length fl} - {j}"
    using q(8,9) is_chain_bound [OF q(6)] j by blast
  then have "card (set fl) \<le> card ({..<ht_size t + length fl} - {j})" by (intro card_mono) auto
  moreover have "j \<in> {..<ht_size t + length fl}" using q(8) [OF j(1)] j(2) by simp
  ultimately show ?thesis using distinct_card [OF q(7)] by simp
qed

lemma unlink_item_nth:
  assumes "b < length (ht_p t)" "j < length (ht_p t)" "\<forall>m \<in> set ys. m < length (ht_p t)" "j \<notin> set ys"
    and "p = ht_p (unlink_item t b (last_opt None ys) j)"
  shows "hi_bucket (p ! m) = (if m = b \<and> ys = [] then hi_next (ht_p t ! j) else hi_bucket (ht_p t ! m))"
    "hi_next (p ! m) = (if m = j then ht_freelist t else if ys \<noteq> [] \<and> m = last ys
       then hi_next (ht_p t ! j) else hi_next (ht_p t ! m))"
    "hi_hash (p ! m) = hi_hash (ht_p t ! m)" "hi_key (p ! m) = hi_key (ht_p t ! m)"
    "hi_valid (p ! m) = (m \<noteq> j \<and> hi_valid (ht_p t ! m))" "length p = length (ht_p t)"
proof -
  have "ys \<noteq> [] \<Longrightarrow> last ys < length (ht_p t) \<and> last ys \<noteq> j" using assms(3,4) last_in_set [of ys] by metis
  with assms(1,2,5) show "hi_bucket (p ! m) = (if m = b \<and> ys = [] then hi_next (ht_p t ! j) else hi_bucket (ht_p t ! m))"
    "hi_next (p ! m) = (if m = j then ht_freelist t else if ys \<noteq> [] \<and> m = last ys
       then hi_next (ht_p t ! j) else hi_next (ht_p t ! m))"
    "hi_hash (p ! m) = hi_hash (ht_p t ! m)" "hi_key (p ! m) = hi_key (ht_p t ! m)"
    "hi_valid (p ! m) = (m \<noteq> j \<and> hi_valid (ht_p t ! m))" "length p = length (ht_p t)"
    by (auto simp: unlink_item_def last_opt_def Let_def nth_upd)
qed

lemma unlink_item_contents:
  assumes "j < length (ht_p t)"
  shows "contents (ht_p (unlink_item t b prev j)) = (contents (ht_p t))[j := None]"
proof -
  let ?n = "hi_next (ht_p t ! j)"
  define p1 where "p1 = (case prev of None \<Rightarrow> (ht_p t)[b := (ht_p t ! b)\<lparr>hi_bucket := ?n\<rparr>]
    | Some i \<Rightarrow> (ht_p t)[i := (ht_p t ! i)\<lparr>hi_next := ?n\<rparr>])"
  have "contents p1 = contents (ht_p t)"
    by (cases prev) (simp_all add: p1_def contents_upd_same content_def)
  then show ?thesis by (simp add: unlink_item_def Let_def contents_upd content_def flip: p1_def)
qed

lemma unlink_setup:
  assumes ok: "ht_ok hash t cs fl" and b: "b < ht_capacity t" "cs b = ys @ j # zs"
  shows "b < length (ht_p t)" "is_chain (ht_p t) (hi_bucket (ht_p t ! b)) (ys @ j # zs)" "distinct (ys @ j # zs)"
    "m \<in> set (ys @ j # zs) \<Longrightarrow> m < length (ht_p t) \<and> hi_valid (ht_p t ! m)"
    "j < length (ht_p t)" "hi_valid (ht_p t ! j)" "\<forall>m \<in> set ys. m < length (ht_p t)" "j \<notin> set ys"
    "b' < ht_capacity t \<Longrightarrow> b' \<noteq> b \<Longrightarrow> m \<in> set (cs b') \<Longrightarrow> m \<notin> set (ys @ j # zs)"
    "ys \<noteq> [] \<Longrightarrow> last ys \<in> set (ys @ j # zs)"
proof -
  note q = ht_okD [OF ok]
  note c = chains_okD [OF q(5)]
  have live: "m < length (ht_p t) \<and> hi_valid (ht_p t ! m)" if "m \<in> set (ys @ j # zs)" for m
    using c(6) [OF b(1)] b(2) that by simp
  then show "m \<in> set (ys @ j # zs) \<Longrightarrow> m < length (ht_p t) \<and> hi_valid (ht_p t ! m)" .
  show "b < length (ht_p t)" "is_chain (ht_p t) (hi_bucket (ht_p t ! b)) (ys @ j # zs)" "distinct (ys @ j # zs)"
    using b q(1) c(2,3) [OF b(1)] by simp_all
  then show "j < length (ht_p t)" "hi_valid (ht_p t ! j)" "\<forall>m \<in> set ys. m < length (ht_p t)" "j \<notin> set ys"
    using live by auto
  show "b' < ht_capacity t \<Longrightarrow> b' \<noteq> b \<Longrightarrow> m \<in> set (cs b') \<Longrightarrow> m \<notin> set (ys @ j # zs)"
    using c(5) [of b' m] c(5) [OF b(1), of m] b(2) by auto
  show "ys \<noteq> [] \<Longrightarrow> last ys \<in> set (ys @ j # zs)" by simp
qed

lemma unlink_this_chain:
  assumes ok: "ht_ok hash t cs fl" and b: "b < ht_capacity t" "cs b = ys @ j # zs"
    and p_def: "p = ht_p (unlink_item t b (last_opt None ys) j)"
  shows "is_chain p (hi_bucket (p ! b)) (ys @ zs)"
proof -
  note u = unlink_setup [OF ok b]
  note n = unlink_item_nth [OF u(1,5,7,8) p_def]
  show ?thesis
  proof (cases "ys = []")
    case True
    with chain_suffix [OF u(2)] u(3) show ?thesis
      by (simp add: n(1)) (subst is_chain_cong [OF n(6)], auto simp: n(2))
  next
    case False
    let ?r = "(ht_p t)[last ys := (ht_p t ! last ys)\<lparr>hi_next := hi_next (ht_p t ! j)\<rparr>]"
    have "is_chain p (hi_bucket (ht_p t ! b)) (ys @ zs) = is_chain ?r (hi_bucket (ht_p t ! b)) (ys @ zs)"
      using u(3,4,10) False by (intro is_chain_cong) (auto simp: n(2,6) nth_upd)
    with chain_remove [OF u(2,3) False] False show ?thesis by (simp add: n(1))
  qed
qed

lemma unlink_chains:
  assumes ok: "ht_ok hash t cs fl" and b: "b < ht_capacity t" "cs b = ys @ j # zs"
    and p_def: "p = ht_p (unlink_item t b (last_opt None ys) j)"
  shows "chains_ok hash (ht_seed t) (ht_capacity t) p (cs(b := ys @ zs)) {m. m < length p \<and> hi_valid (p ! m)}"
  unfolding chains_ok_def
proof (intro conjI allI impI ballI)
  note q = ht_okD [OF ok]
  note c = chains_okD [OF q(5)]
  note u = unlink_setup [OF ok b]
  note n = unlink_item_nth [OF u(1,5,7,8) p_def]
  show "ht_capacity t \<le> length p" using q(1) n(6) by simp
  show "distinct ((cs(b := ys @ zs)) b')" if "b' < ht_capacity t" for b' using u(3) c(3) [OF that] by simp
  show "hi_hash (p ! m) = hash (hi_key (p ! m)) (ht_seed t)" "unat (hi_hash (p ! m)) mod ht_capacity t = b'"
    if "b' < ht_capacity t" "m \<in> set ((cs(b := ys @ zs)) b')" for b' m
    using c(4,5) [OF that(1), of m] that(2) b(2) by (auto simp: n(3,4) split: if_splits)
  show "is_chain p (hi_bucket (p ! b')) ((cs(b := ys @ zs)) b')" if "b' < ht_capacity t" for b'
  proof (cases "b' = b")
    case True
    with unlink_this_chain [OF ok b p_def] show ?thesis by simp
  next
    case False
    have "is_chain p r (cs b') = is_chain (ht_p t) r (cs b')" for r
      using u(9) [OF that False, of j] u(9) [OF that False, of "last ys"] by (intro is_chain_cong [OF n(6)]) (auto simp: n(2))
    with c(2) [OF that] False show ?thesis by (simp add: n(1))
  qed
  have "set ((cs(b := ys @ zs)) b') = set (cs b') - {j}" if "b' < ht_capacity t" for b'
    using u(3) b(2) u(9) [OF that, of j] by (cases "b' = b") auto
  then have "(\<Union>b' \<in> {..<ht_capacity t}. set ((cs(b := ys @ zs)) b')) = (\<Union>b' \<in> {..<ht_capacity t}. set (cs b')) - {j}"
    by auto
  moreover have "{m. m < length p \<and> hi_valid (p ! m)} = {m. m < length (ht_p t) \<and> hi_valid (ht_p t ! m)} - {j}"
    by (auto simp: n(5,6))
  ultimately show "(\<Union>b' \<in> {..<ht_capacity t}. set ((cs(b := ys @ zs)) b')) = {m. m < length p \<and> hi_valid (p ! m)}"
    using c(7) by simp
qed

lemma unlink_item_sel [simp]:
  "ht_capacity (unlink_item t b prev j) = ht_capacity t" "ht_max_load (unlink_item t b prev j) = ht_max_load t"
  "ht_seed (unlink_item t b prev j) = ht_seed t" "ht_freelist (unlink_item t b prev j) = Some j"
  "ht_size (unlink_item t b prev j) = ht_size t - 1"
  by (simp_all add: unlink_item_def Let_def)

lemma ht_unlink:
  assumes ok: "ht_ok hash t cs fl" and b: "b < ht_capacity t" "cs b = ys @ j # zs"
    and t': "t' = unlink_item t b (last_opt None ys) j"
  shows "ht_ok hash t' (cs(b := ys @ zs)) (j # fl) \<and> ht_map t' = (ht_map t)(hi_key (ht_p t ! j) := None)"
proof -
  note q = ht_okD [OF ok]
  note u = unlink_setup [OF ok b]
  define p where "p = ht_p t'"
  note n = unlink_item_nth [OF u(1,5,7,8) p_def [unfolded t']]
  have sz: "0 < ht_size t" using ht_live_size [OF ok u(5,6)] .
  have nf: "j \<notin> set fl" using q(9) u(6) by blast
  have "is_chain p (ht_freelist t) fl"
    using q(6) q(9) [of "last ys"] u(4) [of "last ys"] nf by (subst is_chain_cong [OF n(6)]) (auto simp: n(2))
  then have fr: "is_chain p (Some j) (j # fl)" using u(5) by (simp add: n(2,6))
  have C: "contents p = (contents (ht_p t))[j := None]"
    using unlink_item_contents [OF u(5)] by (simp add: p_def t')
  have uq: "uniq (contents p)" unfolding C by (rule uniq_upd [OF q(11)]) simp
  have nn: "\<forall>k. Some (k, None) \<notin> set (contents p)" unfolding C by (rule nonnull_upd [OF q(12)]) simp
  have wm: "\<forall>m < length p. hi_valid (p ! m) \<or> m \<in> set (j # fl) \<longleftrightarrow> m < ht_size t - 1 + length (j # fl)"
    using q(8) sz u(6) by (auto simp: n(5,6))
  have nv: "\<forall>m \<in> set (j # fl). \<not> hi_valid (p ! m)" using q(9) by (auto simp: n(5))
  have P: "ht_p (unlink_item t b (last_opt None ys) j) = p" by (simp add: p_def t')
  have "ht_ok hash t' (cs(b := ys @ zs)) (j # fl)"
    using unlink_chains [OF ok b p_def [unfolded t']] q(1-4,7,10) fr wm nv uq nn nf sz
    by (intro ht_okI [of p "ht_capacity t"]) (simp_all add: t' n(6) P)
  moreover have "contents (ht_p t) ! j = Some (hi_key (ht_p t ! j), hi_elem (ht_p t ! j))"
    using u(5,6) by (simp add: content_def)
  ultimately show ?thesis
    using look_upd_none [OF q(11), of j] u(5) C by (simp add: ht_map_def p_def)
qed

subsection \<open>Reorganisation\<close>

text \<open>Without holes, compaction only clears the buckets.\<close>

lemma compact_loop_prefix:
  assumes "r + n = length p" "\<forall>i j. r \<le> i \<longrightarrow> i \<le> j \<longrightarrow> j < length p \<longrightarrow> hi_valid (p ! j) \<longrightarrow> hi_valid (p ! i)"
    and "w = r \<or> (\<forall>j. r \<le> j \<longrightarrow> j < length p \<longrightarrow> \<not> hi_valid (p ! j))"
  shows "compact_loop n r w p = take r p @ map (\<lambda>it. it\<lparr>hi_bucket := None\<rparr>) (drop r p)"
  using assms
proof (induction n arbitrary: r w p)
  case (Suc n)
  define p1 where "p1 = p[r := (p ! r)\<lparr>hi_bucket := None\<rparr>]"
  have r: "r < length p" using Suc.prems(1) by simp
  have val: "hi_valid (p1 ! j) = hi_valid (p ! j)" for j using r by (simp add: p1_def nth_upd)
  have len: "length p1 = length p" by (simp add: p1_def)
  have step: "take (Suc r) p1 @ map (\<lambda>it. it\<lparr>hi_bucket := None\<rparr>) (drop (Suc r) p1) =
      take r p @ map (\<lambda>it. it\<lparr>hi_bucket := None\<rparr>) (drop r p)"
    using r by (simp add: p1_def take_Suc_conv_app_nth drop_update_cancel Cons_nth_drop_Suc [symmetric])
  have "compact_loop (Suc n) r w p = compact_loop n (Suc r) (if hi_valid (p ! r) then Suc w else w) p1"
    using Suc.prems(3) r by (auto simp: Let_def val simp flip: p1_def)
  also have "\<dots> = take (Suc r) p1 @ map (\<lambda>it. it\<lparr>hi_bucket := None\<rparr>) (drop (Suc r) p1)"
  proof (rule Suc.IH)
    show "Suc r + n = length p1" using Suc.prems(1) len by simp
    show "\<forall>i j. Suc r \<le> i \<longrightarrow> i \<le> j \<longrightarrow> j < length p1 \<longrightarrow> hi_valid (p1 ! j) \<longrightarrow> hi_valid (p1 ! i)"
      using Suc.prems(2) by (simp add: val len)
    show "(if hi_valid (p ! r) then Suc w else w) = Suc r \<or>
        (\<forall>j. Suc r \<le> j \<longrightarrow> j < length p1 \<longrightarrow> \<not> hi_valid (p1 ! j))"
      using Suc.prems(2,3) r by (auto simp: val len dest: Suc_leD)
  qed
  finally show ?case using step by simp
qed simp

lemma rehash_loop_spec:
  assumes "chains_ok hash seed cap p cs {..<i}" "i + n \<le> length p" "0 < cap"
  shows "(\<exists>cs'. chains_ok hash seed cap (rehash_loop hash seed cap n i p) cs' {..<i + n}) \<and>
    contents (rehash_loop hash seed cap n i p) = contents p \<and> length (rehash_loop hash seed cap n i p) = length p"
  using assms
proof (induction n arbitrary: i p cs)
  case (Suc n)
  define h where "h = hash (hi_key (p ! i)) seed"
  define p1 where "p1 = p[i := (p ! i)\<lparr>hi_hash := h\<rparr>]"
  define p2 where "p2 = link_item (unat h mod cap) i p1"
  have i: "i < length p" using Suc.prems(2) by simp
  have "chains_ok hash seed cap p1 cs {..<i}" unfolding p1_def by (intro chains_ok_upd [OF Suc.prems(1)]) simp_all
  then have "chains_ok hash seed cap p2 (cs(unat h mod cap := i # cs (unat h mod cap))) (insert i {..<i})"
    unfolding p2_def using i Suc.prems(3) by (intro link_item_chains) (simp_all add: p1_def h_def)
  then have ch: "chains_ok hash seed cap p2 (cs(unat h mod cap := i # cs (unat h mod cap))) {..<Suc i}"
    by (simp add: lessThan_Suc)
  have len: "length p2 = length p" and con: "contents p2 = contents p"
    by (simp_all add: p2_def p1_def contents_upd_same content_def)
  have step: "rehash_loop hash seed cap (Suc n) i p = rehash_loop hash seed cap n (Suc i) p2"
    by (simp add: Let_def p2_def p1_def h_def)
  show ?case using Suc.IH [OF ch _ Suc.prems(3)] Suc.prems(2) len con unfolding step by simp
qed auto

text \<open>A table without holes, whose items below \<open>size\<close> are in use, is rebuilt with the same contents.\<close>

lemma rehash_ok:
  assumes p: "length (ht_p t) = ht_capacity t" "\<forall>j < length (ht_p t). hi_bucket (ht_p t ! j) = None"
    "\<forall>j < length (ht_p t). hi_valid (ht_p t ! j) \<longleftrightarrow> j < ht_size t"
    and c: "ht_size t \<le> ht_capacity t" "0 < ht_capacity t" "ht_capacity t \<le> MAX_CAPACITY" "ht_max_load t \<le> ht_capacity t"
    and u: "uniq (contents (ht_p t))" "\<forall>k. Some (k, None) \<notin> set (contents (ht_p t))"
    and f: "ht_freelist t = None"
  shows "\<exists>cs. ht_ok hash (table_rehash hash t) cs [] \<and> ht_map (table_rehash hash t) = ht_map t"
proof -
  define q where "q = rehash_loop hash (ht_seed t) (ht_capacity t) (ht_size t) 0 (ht_p t)"
  have "chains_ok hash (ht_seed t) (ht_capacity t) (ht_p t) (\<lambda>_. []) {..<0}"
    using p by (simp add: chains_ok_def)
  from rehash_loop_spec [OF this, of "ht_size t"] c(1,2) p(1) obtain cs where
    q: "chains_ok hash (ht_seed t) (ht_capacity t) q cs {..<ht_size t}" "contents q = contents (ht_p t)"
      "length q = length (ht_p t)" unfolding q_def by auto
  have val: "hi_valid (q ! j) = (j < ht_size t)" if "j < length (ht_p t)" for j
  proof -
    have "content (q ! j) = content (ht_p t ! j)" using q(2,3) that by (metis contents_nth)
    then have "hi_valid (q ! j) = hi_valid (ht_p t ! j)" by (metis content_None)
    with p(3) that show ?thesis by simp
  qed
  have "{j. j < length q \<and> hi_valid (q ! j)} = {..<ht_size t}"
    using val c(1) p(1) q(3) by auto
  with q val p(1) c u f have "ht_ok hash (table_rehash hash t) cs []"
    by (intro ht_okI [of q "ht_capacity t"]) (simp_all add: table_rehash_def q_def)
  then show ?thesis using q(2) by (auto simp: ht_map_def table_rehash_def q_def)
qed

lemma find_app: "find P (xs @ ys) = (case find P xs of None \<Rightarrow> find P ys | Some x \<Rightarrow> Some x)"
  by (induction xs) simp_all

lemma find_replicate: "\<not> P x \<Longrightarrow> find P (replicate n x) = None"
  by (simp add: find_None_iff)

lemma look_pad: "look (cs @ replicate n None) k = look cs k"
  by (simp add: look_def find_app find_replicate split: option.split)

lemma uniq_pad: "uniq cs \<Longrightarrow> uniq (cs @ replicate n None)"
  unfolding uniq_def by (auto simp: nth_append split: if_splits)

lemma uniq_take: "uniq cs \<Longrightarrow> uniq (take n cs)"
  unfolding uniq_def by auto

lemma drop_Nones: "\<forall>j < length cs. n \<le> j \<longrightarrow> cs ! j = None \<Longrightarrow> cs = take n cs @ replicate (length cs - n) None"
  by (rule nth_equalityI) (auto simp: nth_append)

lemma table_compact_spec:
  assumes "ht_ok hash t cs []"
  shows "table_compact t = t\<lparr>ht_p := map (\<lambda>it. it\<lparr>hi_bucket := None\<rparr>) (ht_p t), ht_freelist := None\<rparr>"
    "\<forall>j < length (ht_p t). hi_valid (ht_p t ! j) \<longleftrightarrow> j < ht_size t"
proof -
  note q = ht_okD [OF assms]
  show val: "\<forall>j < length (ht_p t). hi_valid (ht_p t ! j) \<longleftrightarrow> j < ht_size t" using q(8) by simp
  then show "table_compact t = t\<lparr>ht_p := map (\<lambda>it. it\<lparr>hi_bucket := None\<rparr>) (ht_p t), ht_freelist := None\<rparr>"
    using q(1) by (simp add: table_compact_def compact_loop_prefix)
qed

lemma contents_clear: "contents (map (\<lambda>it. it\<lparr>hi_bucket := None\<rparr>) p) = contents p"
  by (simp add: contents_def content_def)

lemma first_prime_ge: "x \<le> first_prime x qs" "first_prime x qs = x \<or> first_prime x qs \<in> set qs"
  by (induction qs) auto

lemma ceil_capacity_bounds:
  assumes "x \<le> MAX_CAPACITY"
  shows "x \<le> ceil_capacity x" "ceil_capacity x \<le> MAX_CAPACITY" "0 < ceil_capacity x"
proof -
  have ge: "x \<le> ceil_capacity x"
    using assms first_prime_ge(1) [of x] by (simp add: ceil_capacity_def or_Suc_0_eq)
  have all: "\<forall>q \<in> set prime_list. 0 < q \<and> q \<le> MAX_CAPACITY"
    by (simp add: prime_list_def MAX_CAPACITY_def)
  have p: "first_prime x prime_list \<noteq> 0" by (simp add: prime_list_def)
  show "x \<le> ceil_capacity x" by (rule ge)
  show "ceil_capacity x \<le> MAX_CAPACITY"
    using assms all first_prime_ge(2) [of x prime_list] by (auto simp: ceil_capacity_def)
  show "0 < ceil_capacity x"
    using ge p by (cases "x = 0") (simp_all add: ceil_capacity_def prime_list_def)
qed

lemma resize_ok:
  assumes ok: "ht_ok hash t cs []" and cap: "ht_size t \<le> cap" "0 < cap" "cap \<le> MAX_CAPACITY"
  shows "\<exists>cs'. ht_ok hash (table_rehash hash (table_realloc mem (table_compact t) cap)) cs' [] \<and>
    ht_map (table_rehash hash (table_realloc mem (table_compact t) cap)) = ht_map t"
proof -
  note q = ht_okD [OF ok]
  note c = table_compact_spec [OF ok]
  let ?p = "map (\<lambda>it. it\<lparr>hi_bucket := None\<rparr>) (ht_p t)"
  have con: "contents ?p = contents (ht_p t)" by (rule contents_clear)
  show ?thesis
  proof (cases "mem \<and> ht_capacity t \<noteq> cap")
    case False
    then have "table_realloc mem (table_compact t) cap = table_compact t"
      by (auto simp: table_realloc_def c(1) Let_def)
    then show ?thesis
      using rehash_ok [of "table_compact t" hash] q(1-4,10-12) c con by (simp add: ht_map_def)
  next
    case True
    define m where "m = table_realloc mem (table_compact t) cap"
    have p: "ht_p m = take cap ?p @ replicate (cap - ht_capacity t) nil_item"
      using True q(1) by (auto simp: m_def table_realloc_def c(1) Let_def set_capacity_def init_items_def)
    have sel: "ht_capacity m = cap" "ht_size m = ht_size t" "ht_freelist m = None" "ht_max_load m \<le> cap"
      using True by (auto simp: m_def table_realloc_def c(1) Let_def set_capacity_def init_items_def)
    have cm: "contents (ht_p m) = take cap (contents (ht_p t)) @ replicate (cap - ht_capacity t) None"
      unfolding p con [symmetric] by (simp add: contents_def take_map content_def nil_item_def)
    have "contents (ht_p t) = take cap (contents (ht_p t)) @ replicate (length (contents (ht_p t)) - cap) None"
      by (rule drop_Nones) (use c(2) cap(1) in \<open>simp add: content_def\<close>)
    then have look: "look (contents (ht_p m)) = look (contents (ht_p t))" unfolding cm by (metis (no_types) ext look_pad)
    have len: "length (ht_p m) = cap" using p q(1) by simp
    have nth: "ht_p m ! j = (if j < ht_capacity t then ?p ! j else nil_item)" if "j < cap" for j
      using that q(1) by (simp add: p nth_append)
    have bk: "\<forall>j < length (ht_p m). hi_bucket (ht_p m ! j) = None"
      using q(1) by (simp add: len nth nil_item_def)
    have val: "\<forall>j < length (ht_p m). hi_valid (ht_p m ! j) \<longleftrightarrow> j < ht_size m"
      using c(2) q(1,10) by (simp add: len nth nil_item_def sel)
    have "uniq (contents (ht_p m))" unfolding cm by (intro uniq_pad uniq_take q(11))
    moreover have "\<forall>k. Some (k, None) \<notin> set (contents (ht_p m))"
      using q(12) unfolding cm by (auto dest: in_set_takeD)
    ultimately show ?thesis
      using rehash_ok [of m hash] len bk val sel cap look unfolding m_def [symmetric] by (simp add: ht_map_def)
  qed
qed

lemma table_reserve_ok:
  assumes ok: "ht_ok hash t cs []" and n: "n \<le> MAX_CAPACITY"
  shows "\<exists>cs'. ht_ok hash (table_reserve hash mem t n) cs' [] \<and> ht_map (table_reserve hash mem t n) = ht_map t"
proof -
  note q = ht_okD [OF ok]
  define c0 where "c0 = (if n < ht_size t then ht_size t else n)"
  define c1 where "c1 = (if ht_fast t then (if c0 < MAX_CAPACITY - (n div 3 + 1) then c0 + (n div 3 + 1)
    else MAX_CAPACITY) else c0)"
  have s: "ht_size t \<le> c1" "c1 \<le> MAX_CAPACITY" using q(3,10) n by (auto simp: c1_def c0_def)
  have "table_reserve hash mem t n = (if ht_capacity t = ceil_capacity c1 then t
      else table_rehash hash (table_realloc mem (table_compact t) (ceil_capacity c1)))"
    by (simp add: table_reserve_def Let_def c1_def c0_def)
  then show ?thesis
    using ok resize_ok [OF ok, of "ceil_capacity c1" mem] ceil_capacity_bounds [OF s(2)] s(1) by auto
qed

lemma table_grow_ok:
  assumes "ht_ok hash t cs []"
  shows "\<exists>cs'. ht_ok hash (table_grow hash mem t) cs' [] \<and> ht_map (table_grow hash mem t) = ht_map t"
  unfolding table_grow_def Let_def by (rule table_reserve_ok [OF assms]) (simp add: MAX_CAPACITY_def, linarith)

lemma table_reseed_ok:
  assumes ok: "ht_ok hash t cs []"
  shows "\<exists>cs'. ht_ok hash (table_reseed hash seed t) cs' [] \<and> ht_map (table_reseed hash seed t) = ht_map t"
proof -
  note q = ht_okD [OF ok]
  have c: "table_compact (t\<lparr>ht_seed := seed\<rparr>) = (table_compact t)\<lparr>ht_seed := seed\<rparr>"
    by (simp add: table_compact_def)
  show ?thesis
    using rehash_ok [of "(table_compact t)\<lparr>ht_seed := seed\<rparr>" hash] q(1-4,10-12) table_compact_spec [OF ok]
    by (simp add: table_reseed_def c contents_clear ht_map_def)
qed

lemma reorg_sel [simp]:
  "ht_seed (table_rehash hash t) = ht_seed t" "ht_size (table_rehash hash t) = ht_size t"
  "ht_seed (table_compact t) = ht_seed t" "ht_size (table_compact t) = ht_size t"
  "ht_seed (table_realloc mem t c) = ht_seed t" "ht_size (table_realloc mem t c) = ht_size t"
  by (simp_all add: table_rehash_def table_compact_def table_realloc_def set_capacity_def init_items_def Let_def)

lemma table_grow_sel [simp]:
  "ht_seed (table_grow hash mem t) = ht_seed t" "ht_size (table_grow hash mem t) = ht_size t"
  by (simp_all only: table_grow_def table_reserve_def Let_def reorg_sel split: if_split) simp_all

subsection \<open>The operations refine a map\<close>

lemma table_del_refines_lemma:
  assumes "ht_inv hash t"
  shows "\<exists>t'. table_del hash t k = Some (t', ht_map t k) \<and> ht_inv hash t' \<and> ht_map t' = (ht_map t)(k := None)"
proof -
  from assms obtain cs fl where ok: "ht_ok hash t cs fl" by (auto simp: ht_inv_def)
  define b where "b = unat (hash k (ht_seed t)) mod ht_capacity t"
  have b: "b < ht_capacity t" using ht_okD(2) [OF ok] by (simp add: b_def)
  show ?thesis
  proof (cases rule: ht_lookup [OF ok b_def])
    case (1 ys j zs)
    define t' where "t' = unlink_item t b (last_opt None ys) j"
    have "table_del hash t k = Some (t', hi_elem (ht_p t ! j))"
      using 1(5) by (simp add: table_del_def Let_def t'_def flip: b_def)
    moreover have "ht_map t k = hi_elem (ht_p t ! j)"
      using look_at [OF ht_okD(11) [OF ok], of j] 1 by (simp add: ht_map_def content_def)
    moreover have "ht_inv hash t'" "ht_map t' = (ht_map t)(k := None)"
      using ht_unlink [OF ok b 1(1) t'_def] 1(4) by (auto simp: ht_inv_def)
    ultimately show ?thesis by (intro exI [of _ t']) simp
  next
    case 2
    have "ht_map t k = None" using look_none [OF 2(1)] by (simp add: ht_map_def)
    moreover from 2(2) have "table_del hash t k = Some (t, None)"
      by (simp add: table_del_def Let_def flip: b_def)
    ultimately show ?thesis using assms by (intro exI [of _ t]) (simp add: fun_upd_idem)
  qed
qed

text \<open>What \<open>table_set\<close> does when the free list gives the item, and when the item is at the end.\<close>

lemma place_from_freelist:
  assumes ok: "ht_ok hash t cs fl" and f: "ht_freelist t = Some i"
    and k: "\<forall>j < length (contents (ht_p t)). \<forall>e. contents (ht_p t) ! j \<noteq> Some (k, e)"
    and h: "h = hash k (ht_seed t)" "b = unat h mod ht_capacity t"
    and v: "v = (ht_p t ! i)\<lparr>hi_valid := True, hi_hash := h, hi_key := k, hi_elem := Some e\<rparr>"
    and t': "t' = t\<lparr>ht_freelist := hi_next (ht_p t ! i), ht_size := ht_size t + 1,
      ht_p := link_item b i ((ht_p t)[i := v])\<rparr>"
  shows "ht_inv hash t' \<and> ht_map t' = (ht_map t)(k \<mapsto> e)"
proof -
  note q = ht_okD [OF ok]
  from q(6) f obtain fl' where fl: "fl = i # fl'" "i < length (ht_p t)"
    "is_chain (ht_p t) (hi_next (ht_p t ! i)) fl'" by (cases fl) auto
  have "\<forall>j < length (ht_p t). hi_valid (ht_p t ! j) \<or> j = i \<or> j \<in> set fl' \<longleftrightarrow> j < ht_size t + 1 + length fl'"
    using q(8) fl(1) by auto
  moreover have "\<not> hi_valid (ht_p t ! i)" "i \<notin> set fl'" "distinct fl'" "set fl' \<subseteq> set fl"
    "ht_size t + 1 + length fl' \<le> ht_capacity t"
    using q(7,9,10) fl(1) by auto
  ultimately show ?thesis
    using ht_place [OF ok fl(2) _ _ fl(3) _ _ _ _ k h v t'] by (auto simp: ht_inv_def)
qed

lemma place_at_end:
  assumes ok: "ht_ok hash t cs []" and f: "ht_size t < ht_capacity t"
    and k: "\<forall>j < length (contents (ht_p t)). \<forall>e. contents (ht_p t) ! j \<noteq> Some (k, e)"
    and h: "h = hash k (ht_seed t)" "b = unat h mod ht_capacity t"
    and v: "v = (ht_p t ! ht_size t)\<lparr>hi_valid := True, hi_hash := h, hi_key := k, hi_elem := Some e\<rparr>"
    and t': "t' = t\<lparr>ht_size := ht_size t + 1, ht_p := link_item b (ht_size t) ((ht_p t)[ht_size t := v])\<rparr>"
  shows "(\<exists>cs'. ht_ok hash t' cs' []) \<and> ht_map t' = (ht_map t)(k \<mapsto> e)"
proof -
  note q = ht_okD [OF ok]
  have "ht_freelist t = None" using q(6) by simp
  then have "t' = t\<lparr>ht_freelist := None, ht_size := ht_size t + 1,
      ht_p := link_item b (ht_size t) ((ht_p t)[ht_size t := v])\<rparr>" by (simp add: t')
  moreover have "\<forall>j < length (ht_p t). hi_valid (ht_p t ! j) \<or> j = ht_size t \<or> j \<in> set [] \<longleftrightarrow>
      j < ht_size t + 1 + length []" using q(8) by auto
  moreover have "ht_size t < length (ht_p t)" "\<not> hi_valid (ht_p t ! ht_size t)" using q(1) q(8) [of "ht_size t"] f by auto
  ultimately show ?thesis
    using ht_place [OF ok, of "ht_size t" "[]" None k h b v e t'] k h v f by auto
qed

text \<open>
  A reseed is harmless while no item is free. (With holes it is not: see \<open>reseed_loses\<close> below.)
\<close>

definition may_reseed :: "hashfn \<Rightarrow> 'e hashtable \<Rightarrow> bytes \<Rightarrow> bool" where
  "may_reseed hash t k \<longleftrightarrow>
     (case chain_find (ht_p t) (hash k (ht_seed t)) k None
             (hi_bucket (ht_p t ! (unat (hash k (ht_seed t)) mod ht_capacity t))) 0 of
        None \<Rightarrow> True | Some (_, n) \<Rightarrow> n > COLLISION_THRESHOLD)"

lemma table_reserve_capacity:
  assumes "n \<le> MAX_CAPACITY" "ht_size t \<le> n"
  shows "n \<le> ht_capacity (table_reserve hash True t n)"
proof -
  define c1 where "c1 = (if ht_fast t then (if n < MAX_CAPACITY - (n div 3 + 1) then n + (n div 3 + 1)
    else MAX_CAPACITY) else n)"
  have "n \<le> c1" "c1 \<le> MAX_CAPACITY" using assms by (auto simp: c1_def)
  then have "n \<le> ceil_capacity c1" using ceil_capacity_bounds(1) [of c1] by simp
  moreover have "table_reserve hash True t n = (if ht_capacity t = ceil_capacity c1 then t
      else table_rehash hash (table_realloc True (table_compact t) (ceil_capacity c1)))"
    using assms(2) by (simp add: table_reserve_def Let_def c1_def)
  moreover have "ht_capacity (table_rehash hash (table_realloc True (table_compact t) c)) = c" for c
    by (simp add: table_rehash_def table_realloc_def set_capacity_def init_items_def table_compact_def Let_def)
  ultimately show ?thesis by simp
qed

lemma table_grow_room:
  assumes "ht_size t < 2 ^ 62"
  shows "ht_size t < ht_capacity (table_grow hash True t)"
proof -
  let ?n = "ht_size t + (ht_size t div 3 + 1)"
  have n: "ht_size t < MAX_CAPACITY - (ht_size t div 3 + 1)" "?n \<le> MAX_CAPACITY"
    using assms unfolding MAX_CAPACITY_def by simp_all
  then have "table_grow hash True t = table_reserve hash True t ?n" by (simp add: table_grow_def Let_def)
  with table_reserve_capacity [OF n(2), of t hash] show ?thesis by simp
qed

lemma reseed_if:
  assumes "ht_ok hash t cs fl" "c \<longrightarrow> fl = []"
  shows "ht_inv hash (if c then table_reseed hash seed t else t) \<and>
    ht_map (if c then table_reseed hash seed t else t) = ht_map t"
proof (cases c)
  case True
  then have "ht_ok hash t cs []" using assms by simp
  from table_reseed_ok [OF this, of seed] True show ?thesis by (auto simp: ht_inv_def)
next
  case False
  with assms show ?thesis by (auto simp: ht_inv_def)
qed

text \<open>The item a new element goes to, once the table may have grown.\<close>

lemma table_alloc_end:
  assumes ok: "ht_ok hash t cs []" and h: "h = hash k (ht_seed t)"
    and a: "table_alloc hash mem h (unat h mod ht_capacity t) t = (t1, a)"
  obtains (full) "a = None" "\<exists>cs'. ht_ok hash t1 cs' []" "ht_map t1 = ht_map t" "\<not> mem \<or> 2 ^ 62 \<le> ht_size t"
  | (room) t0 cs' where "ht_ok hash t0 cs' []" "ht_map t0 = ht_map t" "ht_size t0 < ht_capacity t0"
    "ht_seed t0 = ht_seed t" "t1 = t0\<lparr>ht_size := ht_size t0 + 1\<rparr>"
    "a = Some (ht_size t0, unat h mod ht_capacity t0)"
proof -
  note q = ht_okD [OF ok]
  have f: "ht_freelist t = None" using q(6) by simp
  show thesis
  proof (cases "ht_max_load t \<le> ht_size t")
    case False
    then have "ht_size t < ht_capacity t" using q(4) by simp
    with False a f ok room [of t cs] show thesis by (simp add: table_alloc_def)
  next
    case True
    define t0 where "t0 = table_grow hash mem t"
    obtain cs' where g: "ht_ok hash t0 cs' []" "ht_map t0 = ht_map t" unfolding t0_def using table_grow_ok [OF ok] by blast
    have s: "ht_size t0 = ht_size t" "ht_seed t0 = ht_seed t" "ht_size t0 \<le> ht_capacity t0"
      using ht_okD(10) [OF g(1)] by (simp_all add: t0_def)
    show thesis
    proof (cases "ht_size t0 = ht_capacity t0")
      case full_t: True
      have "\<not> mem \<or> 2 ^ 62 \<le> ht_size t" using table_grow_room [of t hash] full_t s(1) by (cases mem) (auto simp: t0_def not_less [symmetric])
      with full_t a f True g show thesis by (intro full) (auto simp: table_alloc_def Let_def t0_def)
    next
      case False
      with s a f True g show thesis by (intro room [of t0 cs']) (auto simp: table_alloc_def Let_def t0_def)
    qed
  qed
qed

definition set_post :: "hashfn \<Rightarrow> bool \<Rightarrow> 'e hashtable \<Rightarrow> bytes \<Rightarrow> 'e \<Rightarrow> ('e hashtable \<times> 'e option) option \<Rightarrow> bool" where
  "set_post hash mem t k e res \<longleftrightarrow>
     (\<exists>t' old. res = Some (t', old) \<and> ht_inv hash t' \<and>
        (old = ht_map t k \<and> ht_map t' = (ht_map t)(k \<mapsto> e) \<or>
         old = Some e \<and> ht_map t k = None \<and> ht_map t' = ht_map t \<and> (\<not> mem \<or> 2 ^ 62 \<le> ht_size t)))"

lemma table_set_present:
  assumes ok: "ht_ok hash t cs fl" and h: "h = hash k (ht_seed t)" "b = unat h mod ht_capacity t"
    and j: "j < length (ht_p t)" "hi_valid (ht_p t ! j)" "hi_key (ht_p t ! j) = k"
    and f: "chain_find (ht_p t) h k None (hi_bucket (ht_p t ! b)) 0 = Some ((x, Some j), n)"
    and r: "n > COLLISION_THRESHOLD \<longrightarrow> fl = []"
  shows "set_post hash mem t k e (table_set hash mem seed t k e)"
proof -
  define t1 where "t1 = t\<lparr>ht_p := (ht_p t)[j := (ht_p t ! j)\<lparr>hi_key := k, hi_elem := Some e\<rparr>]\<rparr>"
  note rep = ht_replace [OF ok j t1_def]
  have "ht_map t k = hi_elem (ht_p t ! j)"
    using look_at [OF ht_okD(11) [OF ok], of j] j by (simp add: ht_map_def content_def)
  moreover have "table_set hash mem seed t k e =
      Some (if n > COLLISION_THRESHOLD then table_reseed hash seed t1 else t1, hi_elem (ht_p t ! j))"
    using f by (simp add: table_set_def Let_def t1_def flip: h)
  ultimately show ?thesis
    using reseed_if [of hash t1 cs fl "n > COLLISION_THRESHOLD" seed] rep r by (simp add: set_post_def)
qed

lemma table_set_missing:
  assumes ok: "ht_ok hash t cs fl" and h: "h = hash k (ht_seed t)" "b = unat h mod ht_capacity t"
    and k: "\<forall>j < length (contents (ht_p t)). \<forall>e. contents (ht_p t) ! j \<noteq> Some (k, e)"
    and f: "chain_find (ht_p t) h k None (hi_bucket (ht_p t ! b)) 0 = Some ((x, None), n)"
    and r: "n > COLLISION_THRESHOLD \<longrightarrow> fl = []"
  shows "set_post hash mem t k e (table_set hash mem seed t k e)"
proof -
  have none: "ht_map t k = None" using look_none [OF k] by (simp add: ht_map_def)
  obtain t1 a where a: "table_alloc hash mem h b t = (t1, a)" by fastforce
  have set_eq: "table_set hash mem seed t k e =
      (case a of None \<Rightarrow> Some (t1, Some e)
       | Some (i, b) \<Rightarrow>
           let t2 = t1\<lparr>ht_p := link_item b i ((ht_p t1)[i := (ht_p t1 ! i)\<lparr>hi_valid := True, hi_hash := h,
             hi_key := k, hi_elem := Some e\<rparr>])\<rparr>
           in Some (if n > COLLISION_THRESHOLD then table_reseed hash seed t2 else t2, None))"
    using f a by (auto simp: table_set_def Let_def simp flip: h split: option.split)
  show ?thesis
  proof (cases "ht_freelist t")
    case (Some i)
    with ht_okD(6) [OF ok] have "fl \<noteq> []" by auto
    with r have n: "\<not> n > COLLISION_THRESHOLD" by blast
    from Some a have "t1 = t\<lparr>ht_freelist := hi_next (ht_p t ! i), ht_size := ht_size t + 1\<rparr>" "a = Some (i, b)"
      by (simp_all add: table_alloc_def)
    with place_from_freelist [OF ok Some k h refl refl, of e] n none show ?thesis
      by (simp add: set_eq set_post_def Let_def)
  next
    case None
    with ht_okD(6) [OF ok] have "fl = []" by (cases fl) auto
    with ok have ok': "ht_ok hash t cs []" by simp
    from ok' h(1) a [unfolded h(2)] show ?thesis
    proof (cases rule: table_alloc_end)
      case full
      with none show ?thesis by (auto simp: set_eq set_post_def ht_inv_def)
    next
      case (room t0 cs')
      define t2 where "t2 = t0\<lparr>ht_size := ht_size t0 + 1,
        ht_p := link_item (unat h mod ht_capacity t0) (ht_size t0) ((ht_p t0)[ht_size t0 :=
          (ht_p t0 ! ht_size t0)\<lparr>hi_valid := True, hi_hash := h, hi_key := k, hi_elem := Some e\<rparr>])\<rparr>"
      have k0: "\<forall>j < length (contents (ht_p t0)). \<forall>e. contents (ht_p t0) ! j \<noteq> Some (k, e)"
        using look_None_iff [OF room(1)] room(2) none by simp
      have "h = hash k (ht_seed t0)" using h(1) room(4) by simp
      from place_at_end [OF room(1,3) k0 this refl refl t2_def] obtain cs2 where
        p: "ht_ok hash t2 cs2 []" "ht_map t2 = (ht_map t)(k \<mapsto> e)" using room(2) by auto
      have "table_set hash mem seed t k e = Some (if n > COLLISION_THRESHOLD then table_reseed hash seed t2 else t2, None)"
        unfolding set_eq room(5,6) by (simp add: t2_def Let_def)
      with reseed_if [OF p(1), of "n > COLLISION_THRESHOLD" seed] p(2) none show ?thesis
        by (simp add: set_post_def)
    qed
  qed
qed

lemma table_set_refines_lemma:
  assumes "ht_inv hash t" and r: "ht_freelist t = None \<or> \<not> may_reseed hash t k"
  shows "set_post hash mem t k e (table_set hash mem seed t k e)"
proof -
  from assms(1) obtain cs fl where ok: "ht_ok hash t cs fl" by (auto simp: ht_inv_def)
  define h where "h = hash k (ht_seed t)"
  define b where "b = unat h mod ht_capacity t"
  have fl: "n > COLLISION_THRESHOLD \<longrightarrow> fl = []"
    if "chain_find (ht_p t) h k None (hi_bucket (ht_p t ! b)) 0 = Some (x, n)" for x n
    using r that ht_okD(6) [OF ok] by (cases fl) (auto simp: may_reseed_def h_def b_def)
  show ?thesis
  proof (cases rule: ht_lookup [OF ok b_def [unfolded h_def]])
    case (1 ys j zs)
    with table_set_present [OF ok h_def b_def 1(2-4) 1(5) [folded h_def] fl] show ?thesis by (simp add: h_def)
  next
    case 2
    with table_set_missing [OF ok h_def b_def 2(1) 2(2) [folded h_def] fl] show ?thesis by (simp add: h_def)
  qed
qed

subsection \<open>Filtering and iterating\<close>

text \<open>The callback applied to elements in order: the keys it rejects and the user data at the end.\<close>

fun visit :: "(bytes \<Rightarrow> 'e option \<Rightarrow> 'u \<Rightarrow> bool \<times> 'u) \<Rightarrow> (bytes \<times> 'e option) list \<Rightarrow> 'u \<Rightarrow> bytes list \<times> 'u" where
  "visit f [] u = ([], u)"
| "visit f ((k, e) # vs) u =
     (case f k e u of (ok, u') \<Rightarrow>
        (case visit f vs u' of (ks, u'') \<Rightarrow> (if ok then ks else k # ks, u'')))"

lemma visit_append:
  "visit f (vs @ ws) u =
     (case visit f vs u of (ks, u') \<Rightarrow> case visit f ws u' of (ks', u'') \<Rightarrow> (ks @ ks', u''))"
  by (induction f vs u rule: visit.induct) (auto split: prod.splits)

definition entry :: "'e hash_item list \<Rightarrow> nat \<Rightarrow> bytes \<times> 'e option" where
  "entry p j = (hi_key (p ! j), hi_elem (p ! j))"

text \<open>What stays the same while elements are removed.\<close>

definition same_entries :: "'e hashtable \<Rightarrow> 'e hashtable \<Rightarrow> bool" where
  "same_entries t t' \<longleftrightarrow> ht_capacity t' = ht_capacity t \<and> (\<forall>j. entry (ht_p t') j = entry (ht_p t) j)"

lemma unlink_same_entries: "same_entries t (unlink_item t b prev j)"
  by (cases prev) (simp_all add: same_entries_def entry_def unlink_item_def Let_def nth_upd)

lemma same_entries_trans: "same_entries t t' \<Longrightarrow> same_entries t' t'' \<Longrightarrow> same_entries t t''"
  by (simp add: same_entries_def)

lemma is_chain_head: "is_chain p i js \<Longrightarrow> i = (case js of [] \<Rightarrow> None | j # _ \<Rightarrow> Some j)"
  by (cases js) auto

lemma filter_chain_spec:
  assumes "ht_ok hash t cs fl" "b < ht_capacity t" "cs b = ys @ zs"
    and "visit f (map (entry (ht_p t)) zs) u = (ks, u')"
  shows "\<exists>t' cs' fl'. filter_chain f b t (last_opt None ys) (case zs of [] \<Rightarrow> None | j # _ \<Rightarrow> Some j) u = Some (t', u') \<and>
    ht_ok hash t' cs' fl' \<and> (\<forall>c. c \<noteq> b \<longrightarrow> cs' c = cs c) \<and> same_entries t t' \<and>
    ht_map t' = ht_map t |` (- set ks)"
  using assms
proof (induction zs arbitrary: t cs fl ys u ks)
  case Nil
  have "ht_map t |` (- {}) = ht_map t" by (simp add: restrict_map_def fun_eq_iff)
  with Nil show ?case by (auto simp: filter_chain.simps same_entries_def)
next
  case (Cons j zs)
  obtain ok v where f: "f (hi_key (ht_p t ! j)) (hi_elem (ht_p t ! j)) u = (ok, v)" by fastforce
  obtain ks' where v: "visit f (map (entry (ht_p t)) zs) v = (ks', u')" "ks = (if ok then ks' else hi_key (ht_p t ! j) # ks')"
    using Cons.prems(4) f by (auto simp: entry_def [of _ j] split: prod.splits)
  note s = unlink_setup [OF Cons.prems(1-3)]
  have nxt: "hi_next (ht_p t ! j) = (case zs of [] \<Rightarrow> None | j # _ \<Rightarrow> Some j)"
    using is_chain_head [OF chain_suffix [OF s(2)]] .
  show ?case
  proof (cases ok)
    case True
    have "cs b = (ys @ [j]) @ zs" using Cons.prems(3) by simp
    from Cons.IH [OF Cons.prems(1,2) this v(1)] True v(2) s(5) f nxt show ?thesis
      by (subst filter_chain.simps) (simp add: last_opt_def Let_def)
  next
    case False
    define t1 where "t1 = unlink_item t b (last_opt None ys) j"
    note un = ht_unlink [OF Cons.prems(1-3) t1_def]
    have e: "same_entries t t1" unfolding t1_def by (rule unlink_same_entries)
    then have ent: "entry (ht_p t1) = entry (ht_p t)" "ht_capacity t1 = ht_capacity t"
      by (auto simp: same_entries_def)
    have "b < ht_capacity t1" "(cs(b := ys @ zs)) b = ys @ zs" "visit f (map (entry (ht_p t1)) zs) v = (ks', u')"
      using Cons.prems(2) v(1) by (simp_all add: ent)
    from Cons.IH [OF conjunct1 [OF un] this]
    obtain t' cs' fl' where r: "filter_chain f b t1 (last_opt None ys) (case zs of [] \<Rightarrow> None | j # _ \<Rightarrow> Some j) v = Some (t', u')"
      "ht_ok hash t' cs' fl'" "\<forall>c. c \<noteq> b \<longrightarrow> cs' c = (cs(b := ys @ zs)) c" "same_entries t1 t'"
      "ht_map t' = ht_map t1 |` (- set ks')" by blast
    have "ht_map t' = ht_map t |` (- set ks)"
      using r(5) un v(2) False by (auto simp: restrict_map_def fun_eq_iff)
    with r False s(5) f nxt same_entries_trans [OF e r(4)] show ?thesis
      by (subst filter_chain.simps) (auto simp: Let_def t1_def)
  qed
qed

definition entries :: "'e hashtable \<Rightarrow> (nat \<Rightarrow> nat list) \<Rightarrow> nat \<Rightarrow> nat \<Rightarrow> (bytes \<times> 'e option) list" where
  "entries t cs b n = concat (map (\<lambda>c. map (entry (ht_p t)) (cs c)) [b..<b + n])"

lemma entries_cong:
  assumes "same_entries t t'" "\<forall>c. b \<le> c \<longrightarrow> cs' c = cs c"
  shows "entries t' cs' b n = entries t cs b n"
proof -
  have "entry (ht_p t') = entry (ht_p t)" using assms(1) by (auto simp: same_entries_def)
  then show ?thesis using assms(2) by (auto simp: entries_def intro!: arg_cong [where f = concat])
qed

lemma filter_buckets_spec:
  assumes "ht_ok hash t cs fl" "b + n \<le> ht_capacity t" "visit f (entries t cs b n) u = (ks, u')"
  shows "\<exists>t'. filter_buckets f n b t u = Some (t', u') \<and> ht_inv hash t' \<and> ht_map t' = ht_map t |` (- set ks)"
  using assms
proof (induction n arbitrary: t cs fl b u ks)
  case 0
  have "ht_map t |` (- {}) = ht_map t" by (simp add: restrict_map_def fun_eq_iff)
  with 0 show ?case by (auto simp: entries_def ht_inv_def)
next
  case (Suc n)
  have b: "b < ht_capacity t" using Suc.prems(2) by simp
  have "entries t cs b (Suc n) = map (entry (ht_p t)) (cs b) @ entries t cs (Suc b) n"
    by (simp add: entries_def upt_conv_Cons del: upt_Suc)
  with Suc.prems(3) obtain ks1 v ks2 where v: "visit f (map (entry (ht_p t)) (cs b)) u = (ks1, v)"
    "visit f (entries t cs (Suc b) n) v = (ks2, u')" "ks = ks1 @ ks2"
    by (auto simp: visit_append split: prod.splits)
  have e: "cs b = [] @ cs b" and l: "last_opt None [] = None" by (simp_all add: last_opt_def)
  from filter_chain_spec [OF Suc.prems(1) b e v(1), unfolded l] obtain t1 cs1 fl1 where
    r: "filter_chain f b t None (case cs b of [] \<Rightarrow> None | j # _ \<Rightarrow> Some j) u = Some (t1, v)"
    "ht_ok hash t1 cs1 fl1" "\<forall>c. c \<noteq> b \<longrightarrow> cs1 c = cs c" "same_entries t t1" "ht_map t1 = ht_map t |` (- set ks1)"
    by blast
  have "hi_bucket (ht_p t ! b) = (case cs b of [] \<Rightarrow> None | j # _ \<Rightarrow> Some j)"
    using is_chain_head [OF chains_okD(2) [OF ht_okD(5) [OF Suc.prems(1)] b]] .
  moreover have "entries t1 cs1 (Suc b) n = entries t cs (Suc b) n"
    using entries_cong [OF r(4), of "Suc b" cs1 cs n] r(3) by simp
  moreover have "Suc b + n \<le> ht_capacity t1" using r(4) Suc.prems(2) by (simp add: same_entries_def)
  ultimately show ?case
    using Suc.IH [OF r(2), of "Suc b" v ks2] v r(1,5) by (auto simp: restrict_map_def fun_eq_iff)
qed

text \<open>The elements in the order of the chains: those of the map, each once.\<close>

lemma distinct_concat_upt:
  assumes "\<forall>b < n. distinct (cs b)" "\<forall>b < n. \<forall>c < n. b \<noteq> c \<longrightarrow> set (cs b) \<inter> set (cs c) = {}"
  shows "distinct (concat (map cs [0..<n]))"
  using assms
proof (induction n)
  case (Suc n)
  have "set (cs n) \<inter> set (cs b) = {}" if "b < n" for b using Suc.prems(2) that by simp
  then have "set (concat (map cs [0..<n])) \<inter> set (cs n) = {}" by fastforce
  with Suc show ?case by simp
qed simp

lemma live_entry:
  assumes ok: "ht_ok hash t cs fl" and j: "j < length (ht_p t)" "hi_valid (ht_p t ! j)"
  shows "\<exists>e. hi_elem (ht_p t ! j) = Some e \<and> ht_map t (hi_key (ht_p t ! j)) = Some e"
proof -
  note q = ht_okD [OF ok]
  have at: "contents (ht_p t) ! j = Some (hi_key (ht_p t ! j), hi_elem (ht_p t ! j))"
    using j by (simp add: content_def)
  then have "hi_elem (ht_p t ! j) \<noteq> None"
    using q(12) nth_mem [of j "contents (ht_p t)"] j(1) by (metis contents_length)
  with look_at [OF q(11) _ at] j(1) show ?thesis by (auto simp: ht_map_def)
qed

lemma live_entries:
  assumes ok: "ht_ok hash t cs fl"
  shows "entry (ht_p t) ` {j. j < length (ht_p t) \<and> hi_valid (ht_p t ! j)} = {(k, Some e) | k e. ht_map t k = Some e}"
    "inj_on (\<lambda>j. hi_key (ht_p t ! j)) {j. j < length (ht_p t) \<and> hi_valid (ht_p t ! j)}"
proof -
  note q = ht_okD [OF ok]
  show "entry (ht_p t) ` {j. j < length (ht_p t) \<and> hi_valid (ht_p t ! j)} = {(k, Some e) | k e. ht_map t k = Some e}"
  proof (intro set_eqI iffI)
    fix x assume "x \<in> entry (ht_p t) ` {j. j < length (ht_p t) \<and> hi_valid (ht_p t ! j)}"
    then obtain j where "j < length (ht_p t)" "hi_valid (ht_p t ! j)" "x = (hi_key (ht_p t ! j), hi_elem (ht_p t ! j))"
      by (auto simp: entry_def)
    with live_entry [OF ok, of j] show "x \<in> {(k, Some e) | k e. ht_map t k = Some e}" by auto
  next
    fix x assume "x \<in> {(k, Some e) | k e. ht_map t k = Some e}"
    then obtain k e where x: "x = (k, Some e)" "ht_map t k = Some e" by auto
    from look_cases [OF q(11), of k] x(2) obtain j where "j < length (contents (ht_p t))"
      "contents (ht_p t) ! j = Some (k, Some e)" by (auto simp: ht_map_def)
    then show "x \<in> entry (ht_p t) ` {j. j < length (ht_p t) \<and> hi_valid (ht_p t ! j)}"
      unfolding x(1) by (auto simp: content_Some entry_def image_iff)
  qed
  show "inj_on (\<lambda>j. hi_key (ht_p t ! j)) {j. j < length (ht_p t) \<and> hi_valid (ht_p t ! j)}"
    using uniqD [OF q(11)] by (intro inj_onI) (simp add: content_Some)
qed

lemma entries_all:
  assumes ok: "ht_ok hash t cs fl"
  shows "set (entries t cs 0 (ht_capacity t)) = {(k, Some e) | k e. ht_map t k = Some e} \<and>
    distinct (map fst (entries t cs 0 (ht_capacity t)))"
proof
  note q = ht_okD [OF ok]
  note c = chains_okD [OF q(5)]
  let ?L = "{j. j < length (ht_p t) \<and> hi_valid (ht_p t ! j)}"
  have "set (entries t cs 0 (ht_capacity t)) = entry (ht_p t) ` ?L"
    unfolding c(7) image_UN by (auto simp: entries_def)
  then show "set (entries t cs 0 (ht_capacity t)) = {(k, Some e) | k e. ht_map t k = Some e}"
    using live_entries(1) [OF ok] by simp
  have "map fst (entries t cs 0 (ht_capacity t)) = map (\<lambda>j. hi_key (ht_p t ! j)) (concat (map cs [0..<ht_capacity t]))"
    by (simp add: entries_def map_concat entry_def comp_def)
  moreover have "\<forall>b < ht_capacity t. \<forall>d < ht_capacity t. b \<noteq> d \<longrightarrow> set (cs b) \<inter> set (cs d) = {}"
    using c(5) by (metis disjoint_iff)
  then have "distinct (concat (map cs [0..<ht_capacity t]))" using c(3) by (intro distinct_concat_upt) simp_all
  moreover have "set (concat (map cs [0..<ht_capacity t])) = ?L" unfolding c(7) by auto
  ultimately show "distinct (map fst (entries t cs 0 (ht_capacity t)))"
    using live_entries(2) [OF ok] by (simp add: distinct_map)
qed

lemma table_filter_refines_lemma:
  assumes "ht_inv hash t"
  shows "\<exists>vs t' ks u'. set vs = {(k, Some e) | k e. ht_map t k = Some e} \<and> distinct (map fst vs) \<and>
    visit f vs u = (ks, u') \<and> table_filter f t u = Some (t', u') \<and> ht_inv hash t' \<and>
    ht_map t' = ht_map t |` (- set ks)"
proof -
  from assms obtain cs fl where ok: "ht_ok hash t cs fl" by (auto simp: ht_inv_def)
  obtain ks u' where v: "visit f (entries t cs 0 (ht_capacity t)) u = (ks, u')" by fastforce
  have le: "0 + ht_capacity t \<le> ht_capacity t" by simp
  from filter_buckets_spec [OF ok le v] obtain t' where
    "table_filter f t u = Some (t', u')" "ht_inv hash t'" "ht_map t' = ht_map t |` (- set ks)"
    unfolding table_filter_def by blast
  with entries_all [OF ok] v show ?thesis by blast
qed

text \<open>Iteration visits the valid items in the order of the array, until the callback says stop.\<close>

definition valid_entries :: "'e hashtable \<Rightarrow> (bytes \<times> 'e option) list" where
  "valid_entries t = map (\<lambda>it. (hi_key it, hi_elem it)) (filter hi_valid (ht_p t))"

fun visit_until :: "(bytes \<Rightarrow> 'e option \<Rightarrow> 'u \<Rightarrow> bool \<times> 'u) \<Rightarrow> (bytes \<times> 'e option) list \<Rightarrow> 'u \<Rightarrow> 'u" where
  "visit_until f [] u = u"
| "visit_until f ((k, e) # vs) u = (case f k e u of (ok, u') \<Rightarrow> if ok then visit_until f vs u' else u')"

lemma iterate_items_visits:
  "iterate_items f p u = visit_until f (map (\<lambda>it. (hi_key it, hi_elem it)) (filter hi_valid p)) u"
  by (induction f p u rule: iterate_items.induct) (auto split: prod.split)

lemma filter_nth: "filter P xs = map ((!) xs) (filter (\<lambda>j. P (xs ! j)) [0..<length xs])"
  by (metis (mono_tags, lifting) filter_cong filter_map map_nth comp_apply)

lemma valid_entries_all:
  assumes ok: "ht_ok hash t cs fl"
  shows "set (valid_entries t) = {(k, Some e) | k e. ht_map t k = Some e}" "distinct (map fst (valid_entries t))"
    "length (valid_entries t) = ht_size t"
proof -
  note q = ht_okD [OF ok]
  let ?L = "{j. j < length (ht_p t) \<and> hi_valid (ht_p t ! j)}"
  let ?is = "filter (\<lambda>j. hi_valid (ht_p t ! j)) [0..<length (ht_p t)]"
  have v: "valid_entries t = map (entry (ht_p t)) ?is"
    unfolding valid_entries_def filter_nth [of hi_valid] by (simp add: entry_def)
  have s: "set ?is = ?L" by auto
  show "set (valid_entries t) = {(k, Some e) | k e. ht_map t k = Some e}"
    using live_entries(1) [OF ok] by (simp only: v set_map s)
  have "map fst (valid_entries t) = map (\<lambda>j. hi_key (ht_p t ! j)) ?is" by (simp add: v entry_def)
  then show "distinct (map fst (valid_entries t))"
    using live_entries(2) [OF ok] s by (simp add: distinct_map)
  have "?L \<union> set fl = {..<ht_size t + length fl}"
  proof (rule set_eqI)
    fix x show "x \<in> ?L \<union> set fl \<longleftrightarrow> x \<in> {..<ht_size t + length fl}"
      using q(8) [of x] q(1,10) is_chain_bound [OF q(6), of x] by auto
  qed
  moreover have "?L \<inter> set fl = {}" using q(9) by blast
  ultimately have "card ?L + length fl = ht_size t + length fl"
    using card_Un_disjoint [of ?L "set fl"] distinct_card [OF q(7)] by simp
  moreover have "length ?is = card ?L" using distinct_card [of ?is] s by simp
  ultimately show "length (valid_entries t) = ht_size t" by (simp add: v)
qed

lemma nil_item_sel [simp]: "hi_valid nil_item = False" "hi_bucket nil_item = None" "content nil_item = None"
  by (simp_all add: nil_item_def content_def)

lemma table_new_ok: "ht_ok hash (table_new fast seed) (\<lambda>_. []) [] \<and> ht_map (table_new fast seed) = Map.empty"
proof -
  have p: "ht_p (table_new fast seed) = replicate 13 nil_item" "ht_capacity (table_new fast seed) = 13"
    "ht_max_load (table_new fast seed) \<le> 13" "ht_freelist (table_new fast seed) = None" "ht_size (table_new fast seed) = 0"
    by (simp_all add: table_new_def init_items_def set_capacity_def INITIAL_CAPACITY_def)
  have c: "contents (replicate 13 nil_item) = replicate 13 None"
    by (simp add: contents_def)
  have "uniq (replicate 13 None)" by (simp add: uniq_def)
  then have "ht_ok hash (table_new fast seed) (\<lambda>_. []) []"
    by (intro ht_okI [of "replicate 13 nil_item" 13])
      (simp_all add: p c chains_ok_def MAX_CAPACITY_def)
  then show ?thesis by (auto simp: ht_map_def p c look_none)
qed

subsection \<open>The table as a dictionary\<close>

text \<open>
  What a client of the table relies on: an invariant, the map the table stands for, and per operation
  what it returns and what it does to that map. \<open>safe\<close> is the condition under which an insertion may
  be made.
\<close>

locale dictionary =
  fixes invar :: "'t \<Rightarrow> bool"
    and absmap :: "'t \<Rightarrow> 'k \<Rightarrow> 'e option"
    and find_op :: "'t \<Rightarrow> 'k \<Rightarrow> 'e option option"
    and set_op :: "'t \<Rightarrow> 'k \<Rightarrow> 'e \<Rightarrow> ('t \<times> 'e option) option"
    and del_op :: "'t \<Rightarrow> 'k \<Rightarrow> ('t \<times> 'e option) option"
    and safe :: "'t \<Rightarrow> 'k \<Rightarrow> bool"
  assumes find_law: "invar t \<Longrightarrow> find_op t k = Some (absmap t k)"
    and set_law: "invar t \<Longrightarrow> safe t k \<Longrightarrow> \<exists>t'. set_op t k e = Some (t', absmap t k) \<and> invar t' \<and> absmap t' = (absmap t)(k \<mapsto> e)"
    and del_law: "invar t \<Longrightarrow> \<exists>t'. del_op t k = Some (t', absmap t k) \<and> invar t' \<and> absmap t' = (absmap t)(k := None)"
begin

lemma set_find:
  assumes "invar t" "safe t k"
  shows "\<exists>t'. set_op t k e = Some (t', absmap t k) \<and> invar t' \<and>
    (\<forall>k'. find_op t' k' = (if k' = k then Some (Some e) else find_op t k'))"
proof -
  obtain t' where t': "set_op t k e = Some (t', absmap t k)" "invar t'" "absmap t' = (absmap t)(k \<mapsto> e)"
    using set_law [OF assms] by blast
  with find_law [OF t'(2)] find_law [OF assms(1)] show ?thesis by auto
qed

lemma del_find:
  assumes "invar t"
  shows "\<exists>t' old. del_op t k = Some (t', old) \<and> find_op t k = Some old \<and> invar t' \<and>
    (\<forall>k'. find_op t' k' = (if k' = k then Some None else find_op t k'))"
proof -
  obtain t' where t': "del_op t k = Some (t', absmap t k)" "invar t'" "absmap t' = (absmap t)(k := None)"
    using del_law [OF assms] by blast
  with find_law [OF t'(2)] find_law [OF assms] show ?thesis by auto
qed

lemma set_del:
  assumes "invar t" "safe t k" "absmap t k = None"
  shows "\<exists>t1 t2. set_op t k e = Some (t1, None) \<and> del_op t1 k = Some (t2, Some e) \<and> invar t2 \<and> absmap t2 = absmap t"
proof -
  obtain t1 where t1: "set_op t k e = Some (t1, None)" "invar t1" "absmap t1 = (absmap t)(k \<mapsto> e)"
    using set_law [OF assms(1,2)] assms(3) by auto
  from del_law [OF t1(2), of k] t1 assms(3) show ?thesis by (auto simp: fun_upd_idem)
qed

end

text \<open>Insertions that neither lack memory nor reseed a table with holes.\<close>

definition insert_safe :: "hashfn \<Rightarrow> 'e hashtable \<Rightarrow> bytes \<Rightarrow> bool" where
  "insert_safe hash t k \<longleftrightarrow> (ht_freelist t = None \<or> \<not> may_reseed hash t k) \<and> ht_size t < 2 ^ 62"

interpretation tbl: dictionary "ht_inv hash" ht_map "table_find hash" "table_set hash True seed" "table_del hash"
  "insert_safe hash" for hash :: hashfn and seed :: u32
proof unfold_locales
  show "ht_inv hash t \<Longrightarrow> table_find hash t k = Some (ht_map t k)" for t :: "'e hashtable" and k
    by (rule table_find_refines_lemma)
  show "ht_inv hash t \<Longrightarrow> insert_safe hash t k \<Longrightarrow>
      \<exists>t'. table_set hash True seed t k e = Some (t', ht_map t k) \<and> ht_inv hash t' \<and> ht_map t' = (ht_map t)(k \<mapsto> e)"
    for t :: "'e hashtable" and k e
    using table_set_refines_lemma [of hash t k True e seed] by (auto simp: set_post_def insert_safe_def)
  show "ht_inv hash t \<Longrightarrow> \<exists>t'. table_del hash t k = Some (t', ht_map t k) \<and> ht_inv hash t' \<and>
      ht_map t' = (ht_map t)(k := None)" for t :: "'e hashtable" and k
    by (rule table_del_refines_lemma)
qed

subsection \<open>Properties\<close>

text \<open>A hash function and tables for the witnesses.\<close>

definition demo_hash :: hashfn where
  "demo_hash key seed = of_nat (length key) + seed"

definition demo_table :: "nat hashtable" where
  "demo_table = (case table_set demo_hash True 0 (table_new False 5) [1] 10 of
     Some (t, _) \<Rightarrow> (case table_set demo_hash True 0 t [2] 20 of Some (t, _) \<Rightarrow> t | None \<Rightarrow> t)
   | None \<Rightarrow> table_new False 5)"

lemma demo_table_inv: "ht_inv demo_hash demo_table \<and> ht_map demo_table = [[1] \<mapsto> 10, [2] \<mapsto> 20]"
proof -
  have i: "ht_inv demo_hash (table_new False 5 :: nat hashtable)"
    "ht_map (table_new False 5 :: nat hashtable) = Map.empty"
    using table_new_ok [of demo_hash False 5] by (auto simp: ht_inv_def)
  have "insert_safe demo_hash (table_new False 5 :: nat hashtable) [1]"
    by (simp add: insert_safe_def table_new_def set_capacity_def init_items_def)
  from tbl.set_law [OF i(1) this, of 0 10] i(2) obtain t1 where t1:
    "table_set demo_hash True 0 (table_new False 5) [1] (10 :: nat) = Some (t1, None)" "ht_inv demo_hash t1"
    "ht_map t1 = [[1] \<mapsto> 10]" by auto
  have "ht_freelist t1 = None \<and> ht_size t1 = 1"
  proof -
    have "map_option (\<lambda>(t, _). (ht_freelist t, ht_size t))
        (table_set demo_hash True 0 (table_new False 5) [1] (10 :: nat)) = Some (None, 1)" by code_simp
    with t1(1) show ?thesis by simp
  qed
  then have "insert_safe demo_hash t1 [2]" by (simp add: insert_safe_def)
  from tbl.set_law [OF t1(2) this, of 0 20] t1(1,3) show ?thesis by (auto simp: demo_table_def)
qed



text \<open>
  (C19) Lookup and deletion refine those of a map: \<open>table_find\<close> returns the element of the key, and
  after \<open>table_del\<close>, which returns the same element, the key is gone and nothing else changes.
\<close>

theorem table_del_refines:
  assumes "ht_inv hash t"
  shows "table_find hash t k = Some (ht_map t k) \<and>
    (\<exists>t'. table_del hash t k = Some (t', ht_map t k) \<and> ht_inv hash t' \<and> ht_map t' = (ht_map t)(k := None))"
  using tbl.find_law [OF assms] tbl.del_law [OF assms] by blast

theorem table_del_refines_witness:
  "table_find demo_hash demo_table [2] = Some (Some 20) \<and>
    (\<exists>t'. table_del demo_hash demo_table [2] = Some (t', Some 20) \<and> ht_inv demo_hash t' \<and> ht_map t' = [[1] \<mapsto> 10])"
proof -
  have "([[1] \<mapsto> 10, [2] \<mapsto> 20] :: bytes \<Rightarrow> nat option)([2] := None) = [[1] \<mapsto> 10]" by (auto simp: fun_eq_iff)
  with table_del_refines [of demo_hash demo_table "[2]"] demo_table_inv show ?thesis by simp
qed

text \<open>
  (C20) \<open>table_filter\<close> calls the callback once for every element of the table, passing its data along,
  and removes exactly the elements for which the callback answers false.
\<close>

theorem table_filter_refines:
  assumes "ht_inv hash t"
  shows "\<exists>vs t' ks u'. set vs = {(k, Some e) | k e. ht_map t k = Some e} \<and> distinct (map fst vs) \<and>
    visit f vs u = (ks, u') \<and> table_filter f t u = Some (t', u') \<and> ht_inv hash t' \<and>
    ht_map t' = ht_map t |` (- set ks)"
  using assms by (rule table_filter_refines_lemma)

theorem table_filter_refines_witness:
  "\<exists>vs t' ks n. set vs = {(k, Some e) | k e. ht_map demo_table k = Some e} \<and>
    visit (\<lambda>k e n. (e = Some 20, Suc n)) vs 0 = (ks, n) \<and>
    table_filter (\<lambda>k e n. (e = Some 20, Suc n)) demo_table 0 = Some (t', n) \<and>
    ht_map t' = ht_map demo_table |` (- set ks)"
proof -
  obtain vs t' ks n where "set vs = {(k, Some e) | k e. ht_map demo_table k = Some e}"
    "visit (\<lambda>k e n. (e = Some 20, Suc n)) vs 0 = (ks, n)"
    "table_filter (\<lambda>k e n. (e = Some 20, Suc n)) demo_table 0 = Some (t', n)"
    "ht_map t' = ht_map demo_table |` (- set ks)"
    using table_filter_refines [OF conjunct1 [OF demo_table_inv], of "\<lambda>k e n. (e = Some 20, Suc n)" 0]
    by (elim exE conjE) assumption
  then show ?thesis by (intro exI conjI)
qed

text \<open>
  (C21) \<open>table_iterate\<close> hands every element of the table to the callback, each once, until the callback
  answers false; there are \<open>table_size\<close> of them.
\<close>

theorem table_iterate_all:
  assumes "ht_inv hash t"
  shows "table_iterate f t u = visit_until f (valid_entries t) u \<and>
    set (valid_entries t) = {(k, Some e) | k e. ht_map t k = Some e} \<and> distinct (map fst (valid_entries t)) \<and>
    length (valid_entries t) = table_size t"
proof -
  from assms obtain cs fl where "ht_ok hash t cs fl" by (auto simp: ht_inv_def)
  from valid_entries_all [OF this] show ?thesis
    unfolding table_iterate_def table_size_def iterate_items_visits valid_entries_def by blast
qed

theorem table_iterate_all_witness:
  "table_iterate (\<lambda>k e ks. (True, k # ks)) demo_table [] =
     visit_until (\<lambda>k e ks. (True, k # ks)) (valid_entries demo_table) [] \<and>
   length (valid_entries demo_table) = 2"
proof -
  have "table_size demo_table = 2" by code_simp
  with table_iterate_all [of demo_hash demo_table "\<lambda>k e ks. (True, k # ks)" "[]"] demo_table_inv
  show ?thesis by simp
qed

definition demo_reseed :: "nat hashtable" where
  "demo_reseed = (case table_del demo_hash demo_table [1] of
     Some (t, _) \<Rightarrow> table_reseed demo_hash 7 t | None \<Rightarrow> demo_table)"


end
