(* ===== verification/Server.thy ===== *)
theory Server
  imports Dispatch Hashtable_Inv
begin

text \<open>
  The server: conversation numbers and TCP connections (\<open>src/src/server.c\<close>, \<open>src/src/event_tcp.c\<close>), the
  timers (\<open>src/src/event_timer.c\<close>, \<open>src/src/event_kcp.c\<close>), and start and stop (\<open>src/src/server.c\<close>).
\<close>

unbundle bit_operations_syntax

subsection \<open>Conversation numbers\<close>

definition conv_next :: "u32 \<Rightarrow> u32" where
  "conv_next conv = (let conv = conv + 1 in if conv = 0 then conv + 1 else conv)"

text \<open>
  The search for a number that is not in use, from a random number when \<open>few\<close> are in use. \<open>used\<close> is the
  lookup of the key of a number.
\<close>

partial_function (option) conv_loop :: "(u32 \<Rightarrow> bool option) \<Rightarrow> bool \<Rightarrow> u32 \<Rightarrow> rng \<Rightarrow> (u32 \<times> rng) option" where
  "conv_loop used few conv rng =
     (case (if few then (case rand64 rng of (x, rng') \<Rightarrow> (ucast x, rng')) else (conv, rng)) of
        (conv, rng) \<Rightarrow>
          (case used (conv_next conv) of
             None \<Rightarrow> None
           | Some u \<Rightarrow> if u then conv_loop used few (conv_next conv) rng else Some (conv_next conv, rng)))"

declare conv_loop.simps [code]

definition conv_used :: "server \<Rightarrow> sockaddr \<Rightarrow> u32 \<Rightarrow> bool option" where
  "conv_used s sa conv =
     do { key \<leftarrow> SESSION_MAKEKEY sa conv;
          found \<leftarrow> table_find GET_HASH (sv_sessions s) key;
          Some (found \<noteq> None) }"

text \<open>The share of the numbers in use is below one in a thousand.\<close>

definition conv_few :: "server \<Rightarrow> bool" where
  "conv_few s \<longleftrightarrow> table_size (sv_sessions s) * 1000 < 2 ^ 32 - 1"

definition conv_new :: "server \<Rightarrow> sockaddr \<Rightarrow> (u32 \<times> server) option" where
  "conv_new s sa =
     do { let conv = conv_next (sv_m_conv s);
          used \<leftarrow> conv_used s sa conv;
          (conv, rng) \<leftarrow> (if used then conv_loop (conv_used s sa) (conv_few s) conv (sv_rng s)
                          else Some (conv, sv_rng s));
          Some (conv, s\<lparr>sv_m_conv := conv, sv_rng := rng\<rparr>) }"

subsection \<open>TCP connections\<close>

definition close_fd :: "int \<Rightarrow> server \<Rightarrow> server" where
  "close_fd fd s = s\<lparr>sv_listener := (sv_listener s)\<lparr>l_closed := l_closed (sv_listener s) @ [fd]\<rparr>\<rparr>"

text \<open>Starting the watcher of the socket does not involve the table, so it is in \<open>accept_tcp\<close>.\<close>

definition accept_one :: "server \<Rightarrow> nat \<Rightarrow> server option" where
  "accept_one s fd =
     do { let sa = pc_kcp_connect (sv_pkt s);
          (conv, s) \<leftarrow> conv_new s sa;
          case new_session s sa conv of
            (None, s) \<Rightarrow> Some (close_fd (int fd) s)
          | (Some a, s) \<Rightarrow>
              do { (ss, w) \<leftarrow> sv_heap s a;
                   (r, w) \<leftarrow> accept_tcp ss (w\<lparr>w_now := sv_now s\<rparr>) fd;
                   case r of
                     None \<Rightarrow> Some (close_fd (int fd) (s\<lparr>sv_heap := (sv_heap s)(a := None)\<rparr>))
                   | Some ss \<Rightarrow>
                       do { key \<leftarrow> SESSION_MAKEKEY sa conv;
                            put_session (s\<lparr>sv_heap := (sv_heap s)(a \<mapsto> (ss, w))\<rparr>) key a } } }"

text \<open>Results of \<open>accept\<close>: a descriptor that can be made non-blocking or not, or an error.\<close>

datatype accept_result = AcceptFd nat bool | AcceptError bool

fun tcp_accept_cb :: "accept_result list \<Rightarrow> server \<Rightarrow> server option" where
  "tcp_accept_cb [] s = Some s"
| "tcp_accept_cb (AcceptError transient # _) s =
     (if transient then Some s
      else Some (s\<lparr>sv_listener := (sv_listener s)\<lparr>l_accept := False, l_timer := True\<rparr>\<rparr>))"
| "tcp_accept_cb (AcceptFd fd nonblock # rs) s =
     (if table_size (sv_sessions s) \<ge> MAX_SESSIONS then Some (close_fd (int fd) s)
      else if \<not> nonblock then Some (close_fd (int fd) s)
      else if \<not> pc_connected (sv_pkt s) then Some (close_fd (int fd) s)
      else do { s \<leftarrow> accept_one s fd; tcp_accept_cb rs s })"

subsection \<open>Timers\<close>

definition kcp_update_iter :: "bytes \<Rightarrow> nat option \<Rightarrow> server option \<Rightarrow> bool \<times> server option" where
  "kcp_update_iter key element s =
     (True, do { s \<leftarrow> s; a \<leftarrow> element; (_, s) \<leftarrow> with_session a (no_result kcp_update) s; Some s })"

definition kcp_update_cb :: "server \<Rightarrow> server option" where
  "kcp_update_cb s = table_iterate kcp_update_iter (sv_sessions s) (Some s)"

definition listener_cb :: "server \<Rightarrow> server" where
  "listener_cb s =
     (let l = sv_listener s;
          l = l\<lparr>l_timer := False\<rparr>;
          l = (if l_fd l \<noteq> -1 \<and> \<not> l_accept l then l\<lparr>l_accept := True\<rparr> else l);
          l = (if l_fd_http l \<noteq> -1 \<and> \<not> l_accept_http l then l\<lparr>l_accept_http := True\<rparr> else l)
      in s\<lparr>sv_listener := l\<rparr>)"

definition server_ping :: "server \<Rightarrow> server option" where
  "server_ping s =
     (if c_mode (sv_conf s) AND MODE_CLIENT = 0 then Some s
      else do { (_, s) \<leftarrow> ss0_send s (pc_kcp_connect (sv_pkt s)) S0MSG_PING (write_uint32 (TSTAMP2MS (sv_now s)));
                Some (s\<lparr>sv_pkt := (sv_pkt s)\<lparr>pc_inflight_ping := sv_now s\<rparr>\<rparr>) })"

text \<open>An address that cannot be written gives an empty message, the assertion being compiled out.\<close>

definition udp_rendezvous :: "server \<Rightarrow> u16 \<Rightarrow> server option" where
  "udp_rendezvous s what =
     do { let b = (case inetaddr_write INET6ADDR_LENGTH (pc_rendezvous_local (sv_pkt s)) of
                     None \<Rightarrow> [] | Some b \<Rightarrow> b);
          (_, s) \<leftarrow> ss0_send s (pc_rendezvous_server (sv_pkt s)) what b;
          Some s }"

text \<open>The last part of \<open>keepalive_cb\<close>: the ping, unless one is under way or something was sent lately.\<close>

definition keepalive_ping :: "server \<Rightarrow> server option" where
  "keepalive_ping s =
     (let now = sv_now s; pkt = sv_pkt s; next = pc_inflight_ping pkt + sv_ping_timeout s in
      if pc_inflight_ping pkt \<noteq> TSTAMP_NIL \<and> now < next
      then Some (s\<lparr>sv_keepalive_repeat := next - now\<rparr>)
      else
        (let s = s\<lparr>sv_pkt := pkt\<lparr>pc_inflight_ping := TSTAMP_NIL\<rparr>\<rparr>;
             next = pc_last_send_time pkt + sv_keepalive s
         in if pc_last_send_time pkt \<noteq> TSTAMP_NIL \<and> now < next
            then Some (s\<lparr>sv_keepalive_repeat := next - now\<rparr>)
            else do { s \<leftarrow> server_ping s; Some (s\<lparr>sv_keepalive_repeat := sv_ping_timeout s\<rparr>) }))"

definition keepalive_cb :: "server \<Rightarrow> server option" where
  "keepalive_cb s =
     (let mode = c_mode (sv_conf s); rendezvous = (mode AND MODE_RENDEZVOUS \<noteq> 0) in
      do { s \<leftarrow> (if rendezvous \<and> mode AND MODE_SERVER \<noteq> 0 then udp_rendezvous s S0MSG_LISTEN else Some s);
           if rendezvous \<and> mode AND MODE_CLIENT \<noteq> 0 \<and> \<not> pc_connected (sv_pkt s)
           then do { s \<leftarrow> udp_rendezvous s S0MSG_CONNECT; Some (s\<lparr>sv_keepalive_repeat := sv_ping_timeout s\<rparr>) }
           else if mode AND MODE_CLIENT = 0 then Some s
           else keepalive_ping s })"

text \<open>A session that was freed is gone from the heap.\<close>

definition timeout_iter :: "bytes \<Rightarrow> nat option \<Rightarrow> server option \<Rightarrow> bool \<times> server option" where
  "timeout_iter key element s =
     (case (do { s \<leftarrow> s; a \<leftarrow> element; (keep, s) \<leftarrow> with_session a (timeout_filt (sv_timeouts s)) s;
                 Some (keep, if keep then s else s\<lparr>sv_heap := (sv_heap s)(a := None)\<rparr>) }) of
        None \<Rightarrow> (True, None)
      | Some (keep, s) \<Rightarrow> (keep, Some s))"

text \<open>Shrinking the cache of frames gives memory back and leaves as many frames to be allocated.\<close>

definition timeout_cb :: "server \<Rightarrow> server option" where
  "timeout_cb s =
     do { (t, r) \<leftarrow> table_filter timeout_iter (sv_sessions s) (Some s);
          s \<leftarrow> r;
          Some (s\<lparr>sv_sessions := t\<rparr>) }"

subsection \<open>Addresses and sizes\<close>

text \<open>
  What the system calls of the start give: names resolved, the UDP socket created, made non-blocking,
  bound and connected, the local address a peer is reached from, and the descriptor listening on an
  address.
\<close>

record net =
  n_resolve :: "string \<Rightarrow> sockaddr option"
  n_socket :: bool
  n_nonblock :: bool
  n_bind :: "sockaddr \<Rightarrow> bool"
  n_connect :: "sockaddr \<Rightarrow> bool"
  n_local :: "sockaddr \<Rightarrow> sockaddr option"
  n_listen :: "sockaddr \<Rightarrow> int option"

definition udp_init :: "net \<Rightarrow> pktconn \<Rightarrow> bool \<times> pktconn" where
  "udp_init net udp =
     (if \<not> n_socket net then (False, udp) else (n_nonblock net, udp\<lparr>pc_open := True\<rparr>))"

text \<open>The part the three addresses share: the domain is that of the address, and the socket is created.\<close>

definition udp_domain :: "net \<Rightarrow> sockaddr \<Rightarrow> pktconn \<Rightarrow> bool \<times> pktconn" where
  "udp_domain net addr udp =
     (let udp = udp\<lparr>pc_domain := sa_family addr\<rparr> in if pc_open udp then (True, udp) else udp_init net udp)"

definition udp_bind_addr :: "net \<Rightarrow> string \<Rightarrow> pktconn \<Rightarrow> (bool \<times> pktconn) option" where
  "udp_bind_addr net name udp =
     (case n_resolve net name of
        None \<Rightarrow> Some (False, udp)
      | Some addr \<Rightarrow>
          (case udp_domain net addr udp of (ok, udp) \<Rightarrow> Some (ok \<and> n_bind net addr, udp)))"

definition udp_connect_addr :: "net \<Rightarrow> string \<Rightarrow> pktconn \<Rightarrow> (bool \<times> pktconn) option" where
  "udp_connect_addr net name udp =
     (case n_resolve net name of
        None \<Rightarrow> Some (False, udp)
      | Some addr \<Rightarrow>
          (case udp_domain net addr udp of (ok, udp) \<Rightarrow>
             if \<not> ok \<or> \<not> n_connect net addr then Some (False, udp)
             else do { sa \<leftarrow> copy_sa addr; Some (True, udp\<lparr>pc_kcp_connect := sa, pc_connected := True\<rparr>) }))"

definition udp_rendezvous_addr :: "net \<Rightarrow> string \<Rightarrow> pktconn \<Rightarrow> (bool \<times> pktconn) option" where
  "udp_rendezvous_addr net name udp =
     (case n_resolve net name of
        None \<Rightarrow> Some (False, udp)
      | Some addr \<Rightarrow>
          (case udp_domain net addr udp of (ok, udp) \<Rightarrow>
             if \<not> ok then Some (False, udp)
             else do {
               laddr \<leftarrow> (case n_local net addr of Some l \<Rightarrow> Some l | None \<Rightarrow> addr_set_any (sa_family addr));
               Some (True, udp\<lparr>pc_rendezvous_server := addr, pc_rendezvous_local := laddr\<rparr>) }))"

definition udp_bind :: "net \<Rightarrow> config \<Rightarrow> pktconn \<Rightarrow> (bool \<times> pktconn) option" where
  "udp_bind net conf udp =
     do { (ok, udp) \<leftarrow> (case c_kcp_bind conf of None \<Rightarrow> Some (True, udp) | Some n \<Rightarrow> udp_bind_addr net n udp);
          if \<not> ok then Some (False, udp)
          else do {
            (ok, udp) \<leftarrow> (case c_kcp_connect conf of None \<Rightarrow> Some (True, udp)
                            | Some n \<Rightarrow> udp_connect_addr net n udp);
            if \<not> ok then Some (False, udp)
            else if c_mode conf AND MODE_RENDEZVOUS \<noteq> 0
            then do { n \<leftarrow> c_rendezvous_server conf; udp_rendezvous_addr net n udp }
            else Some (True, udp) } }"

text \<open>The largest packet KCP may produce, in the arithmetic of \<open>size_t\<close>.\<close>

definition server_mss :: "server \<Rightarrow> u64 option" where
  "server_mss s =
     do { overhead \<leftarrow> udp_overhead (pc_domain (sv_pkt s));
          let mss = word_of_int (c_kcp_mtu (sv_conf s)) - of_nat overhead;
          Some (case q_crypto (sv_q s) of
                  None \<Rightarrow> mss
                | Some crypto \<Rightarrow> mss - of_nat (cr_overhead crypto + cr_nonce_size crypto)) }"

definition set_mss :: "server \<Rightarrow> server option" where
  "set_mss s = do { mss \<leftarrow> server_mss s; Some (s\<lparr>sv_q := (sv_q s)\<lparr>q_mss := ucast mss\<rparr>\<rparr>) }"

text \<open>The address TCP connections are forwarded to.\<close>

definition resolve_connect :: "net \<Rightarrow> server \<Rightarrow> bool \<times> server" where
  "resolve_connect net s =
     (case c_connect (sv_conf s) of
        None \<Rightarrow> (True, s)
      | Some name \<Rightarrow>
          (case n_resolve net name of None \<Rightarrow> (False, s) | Some addr \<Rightarrow> (True, s\<lparr>sv_connect := Some addr\<rparr>)))"

definition udp_bind_server :: "net \<Rightarrow> server \<Rightarrow> (bool \<times> server) option" where
  "udp_bind_server net s =
     do { (ok, udp) \<leftarrow> udp_bind net (sv_conf s) (sv_pkt s);
          let s = s\<lparr>sv_pkt := udp\<rparr>;
          if \<not> ok then Some (False, s) else do { s \<leftarrow> set_mss s; Some (True, s) } }"

definition server_resolve :: "net \<Rightarrow> server \<Rightarrow> (bool \<times> server) option" where
  "server_resolve net s =
     (case resolve_connect net s of (ok, s) \<Rightarrow>
        if \<not> ok then Some (False, s)
        else udp_bind_server net (s\<lparr>sv_pkt := (sv_pkt s)\<lparr>pc_connected := False\<rparr>\<rparr>))"

definition resolve_cb :: "net \<Rightarrow> server \<Rightarrow> server option" where
  "resolve_cb net s =
     (let now = sv_now s; wait = (\<lambda>t. t \<noteq> TSTAMP_NIL \<and> now < t + sv_timeout s) in
      if wait (sv_last_resolve_time s)
      then Some (s\<lparr>sv_resolve_repeat := sv_last_resolve_time s + sv_timeout s - now\<rparr>)
      else if wait (pc_last_recv_time (sv_pkt s))
      then Some (s\<lparr>sv_resolve_repeat := pc_last_recv_time (sv_pkt s) + sv_timeout s - now\<rparr>)
      else do {
        (_, s) \<leftarrow> server_resolve net s;
        Some (s\<lparr>sv_q := (sv_q s)\<lparr>q_noncegen := map_option (noncegen_init (sv_random s)) (q_noncegen (sv_q s))\<rparr>,
                sv_last_resolve_time := now, sv_resolve_repeat := sv_timeout s\<rparr>) })"

subsection \<open>The packet queue\<close>

text \<open>
  What creating a queue needs of memory and of libsodium. The result of \<open>queue_new_crypto\<close> has the
  pointers it leaves in the queue; the flag says that the one to the cipher was freed.
\<close>

record queue_env =
  e_sodium :: sodium
  e_mem :: "nat \<Rightarrow> bool"
  e_key :: bytes
  e_decode :: "nat \<Rightarrow> string \<Rightarrow> (bytes \<times> nat) option"
  e_kdf :: "nat \<Rightarrow> string \<Rightarrow> bytes option"
  e_nonce_mem :: "nat \<Rightarrow> bool"
  e_dims :: "nat \<Rightarrow> bool \<Rightarrow> u32 \<times> u32"
  e_random :: bytes
  e_queue_mem :: bool

definition set_key :: "queue_env \<Rightarrow> config \<Rightarrow> crypto \<Rightarrow> crypto option" where
  "set_key env conf crypto =
     (case c_psk conf of
        Some psk \<Rightarrow> crypto_b64psk (e_decode env) crypto psk
      | None \<Rightarrow>
          (case c_password conf of
             Some password \<Rightarrow> crypto_password (e_kdf env) crypto password
           | None \<Rightarrow> Some crypto))"

definition queue_new_crypto ::
  "queue_env \<Rightarrow> config \<Rightarrow> bool \<times> crypto option \<times> noncegen option \<times> bool" where
  "queue_new_crypto env conf =
     (case c_method conf of
        None \<Rightarrow> (True, None, None, False)
      | Some method \<Rightarrow>
          (case crypto_new (e_sodium env) (e_mem env) (e_key env) method of
             None \<Rightarrow> (False, None, None, False)
           | Some crypto \<Rightarrow>
               (case set_key env conf crypto of
                  None \<Rightarrow> (False, None, None, False)
                | Some crypto \<Rightarrow>
                    (case noncegen_create (e_nonce_mem env) (e_dims env) (e_random env) (cr_method crypto)
                            (cr_nonce_size crypto) (c_mode conf AND MODE_SERVER \<noteq> 0) of
                       None \<Rightarrow> (False, Some crypto, None, True)
                     | Some g \<Rightarrow> (True, Some crypto, Some g, False)))))"

text \<open>
  The frames \<open>queue_free\<close> gives back of an array with \<open>n\<close> entries, of which \<open>None\<close> was never written;
  reading such an entry or one behind the array is \<open>None\<close>.
\<close>

fun queue_free_frames :: "'f option list \<Rightarrow> nat \<Rightarrow> 'f list option" where
  "queue_free_frames mq 0 = Some []"
| "queue_free_frames mq (Suc n) =
     do { msg \<leftarrow> (if Suc n < length mq then mq ! Suc n else None);
          msgs \<leftarrow> queue_free_frames mq n;
          Some (msg # msgs) }"

text \<open>Freeing the cipher twice is \<open>None\<close>.\<close>

definition queue_free_crypto :: "crypto option \<Rightarrow> bool \<Rightarrow> unit option" where
  "queue_free_crypto crypto freed = (if crypto \<noteq> None \<and> freed then None else Some ())"

text \<open>\<open>queue_new\<close>; the inner \<open>None\<close> is a null result.\<close>

definition queue_new :: "queue_env \<Rightarrow> config \<Rightarrow> pktqueue option option" where
  "queue_new env conf =
     (if \<not> e_queue_mem env then Some None
      else
        (case queue_new_crypto env conf of (ok, crypto, g, freed) \<Rightarrow>
           if \<not> ok then do { _ \<leftarrow> queue_free_crypto crypto freed; Some None }
           else Some (Some \<lparr>q_send = [], q_send_cap = max (nat (c_kcp_sndwnd conf) * 4) (MMSG_BATCH_SIZE * 2),
                            q_recv = [], q_recv_cap = max (nat (c_kcp_rcvwnd conf)) MMSG_BATCH_SIZE,
                            q_mss = 0, q_crypto = crypto, q_noncegen = g\<rparr>)))"

subsection \<open>Start and stop\<close>

text \<open>
  The outside world of a new server: whether its two allocations succeed, the random generator, the
  seed of the session table and what \<^typ>\<open>server\<close> has of the world.
\<close>

record server_env =
  v_mem :: bool
  v_table_mem :: bool
  v_rng :: rng
  v_seed :: u32
  v_free :: nat
  v_now :: tstamp
  v_sendmmsg :: "mmsg_sent list"
  v_session_mem :: "nat \<Rightarrow> bool"
  v_world :: world
  v_incr :: "bytes \<Rightarrow> bytes"
  v_random :: bytes

definition no_addr :: sockaddr where "no_addr = SOther 0"

definition new_listener :: listener where
  "new_listener = \<lparr>l_fd = -1, l_fd_http = 0, l_accept = False, l_accept_http = False, l_timer = False,
     l_closed = []\<rparr>"

definition new_pktconn :: pktconn where
  "new_pktconn = \<lparr>pc_open = False, pc_w_write = False, pc_domain = 0, pc_kcp_connect = no_addr,
     pc_last_send_time = TSTAMP_NIL, pc_last_recv_time = TSTAMP_NIL, pc_inflight_ping = TSTAMP_NIL,
     pc_listened = False, pc_connected = False, pc_server_addr0 = no_addr, pc_server_addr1 = no_addr,
     pc_rendezvous_server = no_addr, pc_rendezvous_local = no_addr\<rparr>"

definition new_timeouts :: "config \<Rightarrow> timeouts" where
  "new_timeouts conf = \<lparr>t_dial_timeout = 30000, t_session_timeout = c_timeout conf * 1000,
     t_session_keepalive = c_timeout conf * 500, t_linger = c_linger conf * 1000,
     t_time_wait = c_time_wait conf * 1000\<rparr>"

text \<open>
  A mode that is neither server nor client has no table in the code, on which the operations behave as
  on the empty table the model has; nothing is inserted in that mode.
\<close>

definition server_new :: "queue_env \<Rightarrow> server_env \<Rightarrow> config \<Rightarrow> server option option" where
  "server_new qe env conf =
     (let (x, rng) = rand64 (v_rng env); mode = c_mode conf in
      if \<not> v_mem env then Some None
      else if mode AND (MODE_SERVER OR MODE_CLIENT) \<noteq> 0 \<and> \<not> v_table_mem env then Some None
      else do {
        r \<leftarrow> queue_new qe conf;
        Some (case r of
          None \<Rightarrow> None
        | Some q \<Rightarrow>
            Some \<lparr>sv_conf = conf, sv_m_conv = ucast x,
              sv_sessions = table_new (mode AND MODE_SERVER \<noteq> 0) (v_seed env),
              sv_heap = Map.empty, sv_next = 0, sv_listener = new_listener, sv_connect = None,
              sv_pkt = new_pktconn, sv_q = q, sv_free = v_free env, sv_rng = rng,
              sv_timeouts = new_timeouts conf,
              sv_keepalive = (if mode AND (MODE_CLIENT OR MODE_RENDEZVOUS) = 0 then 0 else c_keepalive conf * 1000),
              sv_timeout = min (max (c_keepalive conf * 3000 + 4000) 60000) 1800000,
              sv_ping_timeout = 4000, sv_stats = no_stats, sv_last_resolve_time = TSTAMP_NIL,
              sv_keepalive_repeat = c_keepalive conf * 1000,
              sv_resolve_repeat = min (max (c_keepalive conf * 3000 + 4000) 60000) 1800000,
              sv_now = v_now env, sv_sendmmsg = v_sendmmsg env, sv_mem = v_session_mem env,
              sv_seed = v_seed env, sv_world = v_world env, sv_incr = v_incr env,
              sv_random = v_random env, sv_wire = []\<rparr>) })"

text \<open>One of the two listening sockets: the descriptor, \<open>None\<close> on failure.\<close>

definition listen_on :: "net \<Rightarrow> string \<Rightarrow> int option" where
  "listen_on net name = do { addr \<leftarrow> n_resolve net name; n_listen net addr }"

definition listener_start :: "net \<Rightarrow> server \<Rightarrow> bool \<times> server" where
  "listener_start net s =
     (let conf = sv_conf s; l = sv_listener s in
      case (case c_listen conf of
              None \<Rightarrow> Some l
            | Some n \<Rightarrow> map_option (\<lambda>fd. l\<lparr>l_fd := fd, l_accept := True\<rparr>) (listen_on net n)) of
        None \<Rightarrow> (False, s)
      | Some l \<Rightarrow>
          (let s = s\<lparr>sv_listener := l\<rparr> in
           case (case c_http_listen conf of
                   None \<Rightarrow> Some l
                 | Some n \<Rightarrow> map_option (\<lambda>fd. l\<lparr>l_fd_http := fd, l_accept_http := True\<rparr>) (listen_on net n)) of
             None \<Rightarrow> (False, s)
           | Some l \<Rightarrow> (True, s\<lparr>sv_listener := l\<rparr>)))"

definition server_start :: "net \<Rightarrow> server \<Rightarrow> (bool \<times> server) option" where
  "server_start net s =
     (case listener_start net s of (ok, s) \<Rightarrow>
        if \<not> ok then Some (False, s)
        else
          (case resolve_connect net s of (ok, s) \<Rightarrow>
             if \<not> ok then Some (False, s)
             else udp_bind_server net (s\<lparr>sv_last_resolve_time := sv_now s\<rparr>)))"

definition listener_stop :: "listener \<Rightarrow> listener" where
  "listener_stop l =
     (let l = (if l_fd l \<noteq> -1
               then l\<lparr>l_accept := False, l_closed := l_closed l @ [l_fd l], l_fd := -1\<rparr> else l);
          l = (if l_fd_http l \<noteq> -1
               then l\<lparr>l_accept := False, l_closed := l_closed l @ [l_fd_http l], l_fd_http := -1\<rparr> else l)
      in l\<lparr>l_timer := False\<rparr>)"

definition shutdown_filt :: "bytes \<Rightarrow> nat option \<Rightarrow> server \<Rightarrow> bool \<times> server" where
  "shutdown_filt key element s =
     (False, case element of None \<Rightarrow> s | Some a \<Rightarrow> s\<lparr>sv_heap := (sv_heap s)(a := None)\<rparr>)"

definition udp_stop :: "pktconn \<Rightarrow> pktconn" where
  "udp_stop conn = (if \<not> pc_open conn then conn else conn\<lparr>pc_w_write := False, pc_open := False\<rparr>)"

definition server_stop :: "server \<Rightarrow> server option" where
  "server_stop s =
     do { let s = s\<lparr>sv_listener := listener_stop (sv_listener s)\<rparr>;
          (t, s) \<leftarrow> table_filter shutdown_filt (sv_sessions s) s;
          Some (s\<lparr>sv_sessions := t, sv_pkt := udp_stop (sv_pkt s)\<rparr>) }"

end
