(* ===== verification/Path.thy ===== *)
theory Path
  imports Server
begin

text \<open>
  The packet path: packets leave in the order they were queued and within the configured MTU, message
  frames are not lost, and what one end sends the other end opens.
\<close>

unbundle bit_operations_syntax

subsection \<open>What sending changes\<close>

text \<open>Sending changes the queue, the frames, the counters and the two states for nonce and padding only.\<close>

definition sends :: "server \<Rightarrow> server \<Rightarrow> bool" where
  "sends s s' \<longleftrightarrow> (\<exists>qs g rng rs fr wr st t ww.
     s' = s\<lparr>sv_q := (sv_q s)\<lparr>q_send := qs, q_noncegen := g\<rparr>, sv_rng := rng, sv_sendmmsg := rs, sv_free := fr,
            sv_wire := wr, sv_stats := st, sv_pkt := (sv_pkt s)\<lparr>pc_last_send_time := t, pc_w_write := ww\<rparr>\<rparr>)"

lemma sendsI:
  "s' = s\<lparr>sv_q := (sv_q s)\<lparr>q_send := qs, q_noncegen := g\<rparr>, sv_rng := rng, sv_sendmmsg := rs, sv_free := fr,
      sv_wire := wr, sv_stats := st, sv_pkt := (sv_pkt s)\<lparr>pc_last_send_time := t, pc_w_write := ww\<rparr>\<rparr> \<Longrightarrow> sends s s'"
  unfolding sends_def by blast

lemma sends_fields:
  assumes "sends s s'"
  shows "sv_conf s' = sv_conf s" "sv_sessions s' = sv_sessions s" "sv_heap s' = sv_heap s"
    "sv_next s' = sv_next s" "sv_now s' = sv_now s" "sv_m_conv s' = sv_m_conv s" "sv_mem s' = sv_mem s"
    "sv_seed s' = sv_seed s" "sv_world s' = sv_world s" "sv_incr s' = sv_incr s" "sv_random s' = sv_random s"
    "sv_timeouts s' = sv_timeouts s"
    "q_recv (sv_q s') = q_recv (sv_q s)" "q_crypto (sv_q s') = q_crypto (sv_q s)"
    "q_mss (sv_q s') = q_mss (sv_q s)" "q_recv_cap (sv_q s') = q_recv_cap (sv_q s)"
    "q_send_cap (sv_q s') = q_send_cap (sv_q s)" "pc_domain (sv_pkt s') = pc_domain (sv_pkt s)"
    "pc_kcp_connect (sv_pkt s') = pc_kcp_connect (sv_pkt s)" "pc_connected (sv_pkt s') = pc_connected (sv_pkt s)"
  using assms by (auto simp: sends_def)

lemma sends_refl: "sends s s"
  by (cases s, cases "sv_q s", cases "sv_pkt s") (auto simp: sends_def)

lemma sends_trans:
  assumes "sends s s'" "sends s' s''"
  shows "sends s s''"
proof -
  obtain qs g rng rs fr wr st t ww where 1: "s' = s\<lparr>sv_q := (sv_q s)\<lparr>q_send := qs, q_noncegen := g\<rparr>, sv_rng := rng,
      sv_sendmmsg := rs, sv_free := fr, sv_wire := wr, sv_stats := st,
      sv_pkt := (sv_pkt s)\<lparr>pc_last_send_time := t, pc_w_write := ww\<rparr>\<rparr>"
    using assms(1) unfolding sends_def by (elim exE)
  obtain qs g rng rs fr wr st t ww where "s'' = s'\<lparr>sv_q := (sv_q s')\<lparr>q_send := qs, q_noncegen := g\<rparr>, sv_rng := rng,
      sv_sendmmsg := rs, sv_free := fr, sv_wire := wr, sv_stats := st,
      sv_pkt := (sv_pkt s')\<lparr>pc_last_send_time := t, pc_w_write := ww\<rparr>\<rparr>"
    using assms(2) unfolding sends_def by (elim exE)
  then show ?thesis unfolding 1 by (intro sendsI) simp
qed

subsection \<open>The send queue\<close>

definition datagram :: "msgframe \<Rightarrow> sockaddr \<times> bytes" where
  "datagram m = (m_addr m, m_data m)"

text \<open>Frames that can be allocated or are queued.\<close>

definition frames :: "server \<Rightarrow> nat" where
  "frames s = sv_free s + length (q_send (sv_q s)) + length (q_recv (sv_q s))"

text \<open>The first frames of the queue went out, in order; the others are still there or were dropped.\<close>

definition fifo :: "server \<Rightarrow> server \<Rightarrow> bool" where
  "fifo s s' \<longleftrightarrow> (\<exists>sent left. q_send (sv_q s) = sent @ left \<and> sv_wire s' = sv_wire s @ map datagram sent \<and>
     (q_send (sv_q s') = left \<or> q_send (sv_q s') = []))"

lemma fifo_trans:
  assumes "fifo s s'" "fifo s' s''"
  shows "fifo s s''"
proof -
  obtain a b where 1: "q_send (sv_q s) = a @ b" "sv_wire s' = sv_wire s @ map datagram a"
    "q_send (sv_q s') = b \<or> q_send (sv_q s') = []"
    using assms(1) by (auto simp: fifo_def)
  obtain c d where 2: "q_send (sv_q s') = c @ d" "sv_wire s'' = sv_wire s' @ map datagram c"
    "q_send (sv_q s'') = d \<or> q_send (sv_q s'') = []"
    using assms(2) by (auto simp: fifo_def)
  show ?thesis
  proof (cases "q_send (sv_q s') = b")
    case True
    with 1 2 show ?thesis unfolding fifo_def by (intro exI [of _ "a @ c"] exI [of _ d]) auto
  next
    case False
    with 1 2 show ?thesis unfolding fifo_def by (intro exI [of _ a] exI [of _ b]) auto
  qed
qed

lemma pkt_send_spec:
  assumes "pkt_send s = (n, s')"
  shows "fifo s s' \<and> frames s' = frames s \<and> sends s s'"
proof (cases "q_send (sv_q s) = []")
  case True
  with assms show ?thesis by (auto simp: pkt_send_def fifo_def sends_refl)
next
  case False
  obtain sent left drp rs where l: "pkt_send_loop (q_send (sv_q s)) (sv_sendmmsg s) = (sent, left, drp, rs)"
    by (metis prod_cases4)
  note p = pkt_send_loop_parts [OF l]
  have w: "map (\<lambda>m. (m_addr m, m_data m)) sent = map datagram sent" by (simp add: datagram_def)
  have "sends s s'"
    using assms False l by (cases s, cases "sv_q s", cases "sv_pkt s")
      (auto simp: pkt_send_def pkt_send_drop_def Let_def sends_def split: if_splits)
  moreover have "fifo s s'"
    using assms False l p unfolding fifo_def
    by (intro exI [of _ sent] exI [of _ left])
      (auto simp: pkt_send_def pkt_send_drop_def Let_def datagram_def split: if_splits)
  moreover have "frames s' = frames s"
    using assms False l p by (auto simp: pkt_send_def pkt_send_drop_def Let_def frames_def split: if_splits)
  ultimately show ?thesis by blast
qed

lemma pkt_flush_spec: "fifo s (pkt_flush s) \<and> frames (pkt_flush s) = frames s \<and> sends s (pkt_flush s)"
proof (induction s rule: pkt_flush.induct)
  case (1 s)
  obtain n s1 where r: "pkt_send s = (n, s1)" by fastforce
  note 2 = pkt_send_spec [OF r]
  show ?case
  proof (cases "n > 0")
    case True
    from 1 [OF r [symmetric] True] 2 True r show ?thesis
      by (subst (1 2 3) pkt_flush.simps) (auto intro: fifo_trans sends_trans)
  next
    case False
    with 2 r show ?thesis by (subst (1 2 3) pkt_flush.simps) auto
  qed
qed

lemma pkt_notify_send_spec:
  "fifo s (pkt_notify_send s) \<and> frames (pkt_notify_send s) = frames s \<and> sends s (pkt_notify_send s)"
proof -
  define s1 where "s1 = pkt_flush s"
  have 1: "fifo s s1 \<and> frames s1 = frames s \<and> sends s s1" unfolding s1_def by (rule pkt_flush_spec)
  have "sends s1 (s1\<lparr>sv_pkt := (sv_pkt s1)\<lparr>pc_w_write := True\<rparr>\<rparr>)"
    by (cases s1, cases "sv_q s1", cases "sv_pkt s1") (auto simp: sends_def)
  with 1 show ?thesis
    by (auto simp: pkt_notify_send_def Let_def fifo_def frames_def simp flip: s1_def intro: sends_trans)
qed


subsection \<open>Queueing a packet\<close>

lemma sealing_sends:
  "sends s (s\<lparr>sv_rng := rng, sv_q := (sv_q s)\<lparr>q_noncegen := g\<rparr>\<rparr>)"
  by (cases s, cases "sv_q s", cases "sv_pkt s") (auto simp: sends_def simp del: split_paired_Ex)

lemma queueing_sends:
  "sends s (s\<lparr>sv_q := (sv_q s)\<lparr>q_send := qs\<rparr>\<rparr>)" "sends s (msgframe_delete s)"
  by (cases s, cases "sv_q s", cases "sv_pkt s", auto simp: sends_def msgframe_delete_def)+

text \<open>
  The cases of \<open>queue_send\<close>: the packet could not be sealed, the queue was full, or the frame went into
  the queue.
\<close>

definition sealed :: "server \<Rightarrow> bytes \<Rightarrow> bytes option \<Rightarrow> server \<Rightarrow> bool" where
  "sealed s data r s1 \<longleftrightarrow>
     (case q_crypto (sv_q s) of
        None \<Rightarrow> r = Some data \<and> s1 = s
      | Some crypto \<Rightarrow>
          (\<exists>pad rng g g'. rand64n (min (ucast (q_mss (sv_q s)) - of_nat (length data)) 15) (sv_rng s) = Some (pad, rng) \<and>
             q_noncegen (sv_q s) = Some g \<and>
             crypto_seal_inplace crypto (sv_incr s) (sv_random s) g MAX_PACKET_SIZE (unat pad) data = Some (r, g') \<and>
             s1 = s\<lparr>sv_rng := rng, sv_q := (sv_q s)\<lparr>q_noncegen := Some g'\<rparr>\<rparr>))"

lemma sealedE:
  assumes "sealed s data r s1" "q_crypto (sv_q s) = Some crypto"
  obtains pad rng g g' where
    "rand64n (min (ucast (q_mss (sv_q s)) - of_nat (length data)) 15) (sv_rng s) = Some (pad, rng)"
    "q_noncegen (sv_q s) = Some g"
    "crypto_seal_inplace crypto (sv_incr s) (sv_random s) g MAX_PACKET_SIZE (unat pad) data = Some (r, g')"
    "s1 = s\<lparr>sv_rng := rng, sv_q := (sv_q s)\<lparr>q_noncegen := Some g'\<rparr>\<rparr>"
  using assms unfolding sealed_def by (simp only: option.case) (elim exE conjE, rule that)

lemma sealed_sends: "sealed s data r s1 \<Longrightarrow> sends s s1"
  by (auto simp: sealed_def sends_refl sealing_sends split: option.splits)

lemma sealed_q: "sealed s data r s1 \<Longrightarrow> q_send (sv_q s1) = q_send (sv_q s) \<and> sv_wire s1 = sv_wire s \<and> sv_free s1 = sv_free s"
  by (auto simp: sealed_def split: option.splits)

lemma queue_send_cases:
  assumes "queue_send s addr data = Some (ok, s')"
  obtains (unsealed) s1 where "sealed s data None s'" "\<not> ok" "s1 = s'"
  | (full) b s1 where "sealed s data (Some b) s1" "\<not> ok" "s' = msgframe_delete s1"
      "q_send_cap (sv_q s) \<le> length (q_send (sv_q s))"
  | (queued) b s1 where "sealed s data (Some b) s1" ok
      "s' = pkt_notify_send (s1\<lparr>sv_q := (sv_q s1)\<lparr>q_send := q_send (sv_q s) @
        [\<lparr>m_addr = addr, m_len = length b, m_ts = sv_now s1, m_buf = b\<rparr>]\<rparr>\<rparr>)"
      "length (q_send (sv_q s)) < q_send_cap (sv_q s)"
proof -
  obtain r s1 where r: "sealed s data r s1"
    and c: "(case r of None \<Rightarrow> Some (False, s1)
           | Some data \<Rightarrow>
               if q_send_cap (sv_q s) \<le> length (q_send (sv_q s)) then Some (False, msgframe_delete s1)
               else
                 (let msg = \<lparr>m_addr = addr, m_len = length data, m_ts = sv_now s1, m_buf = data\<rparr> in
                  Some (True, pkt_notify_send (s1\<lparr>sv_q := (sv_q s1)\<lparr>q_send := q_send (sv_q s) @ [msg]\<rparr>\<rparr>))))
      = Some (ok, s')"
  proof (cases "q_crypto (sv_q s)")
    case None
    with assms that [of "Some data" s] show thesis by (simp add: queue_send_def sealed_def Let_def)
  next
    case (Some crypto)
    from assms obtain pad rng g r g' where
      x: "rand64n (min (ucast (q_mss (sv_q s)) - of_nat (length data)) 15) (sv_rng s) = Some (pad, rng)"
      "q_noncegen (sv_q s) = Some g"
      "crypto_seal_inplace crypto (sv_incr s) (sv_random s) g MAX_PACKET_SIZE (unat pad) data = Some (r, g')"
      by (auto simp: queue_send_def Let_def Some bind_eq_Some_conv)
    have "sealed s data r (s\<lparr>sv_rng := rng, sv_q := (sv_q s)\<lparr>q_noncegen := Some g'\<rparr>\<rparr>)"
      using x unfolding sealed_def Some option.case by blast
    then show thesis using assms x by (intro that) (simp_all add: queue_send_def Let_def Some)
  qed
  from c r show thesis
    by (cases r) (auto simp: Let_def not_le split: if_splits intro: unsealed full queued)
qed

lemma queue_send_sends:
  assumes "queue_send s addr data = Some (ok, s')"
  shows "sends s s'"
  using assms
proof (cases rule: queue_send_cases)
  case unsealed
  then show ?thesis by (blast intro: sealed_sends)
next
  case (full b s1)
  then show ?thesis by (blast intro: sealed_sends sends_trans queueing_sends)
next
  case (queued b s1)
  then show ?thesis using pkt_notify_send_spec
    by (blast intro: sealed_sends sends_trans queueing_sends)
qed

text \<open>The frame in the hand of the caller is given back or queued, unless the packet could not be sealed.\<close>

lemma queue_send_frames:
  assumes "queue_send s addr data = Some (ok, s')"
  shows "frames s' = Suc (frames s) \<or> (\<not> ok \<and> frames s' = frames s \<and> sealed s data None s')"
  using assms
proof (cases rule: queue_send_cases)
  case unsealed
  with sealed_q sends_fields(13) [OF sealed_sends] show ?thesis by (fastforce simp: frames_def)
next
  case (full b s1)
  with sealed_q [OF full(1)] sends_fields(13) [OF sealed_sends [OF full(1)]] show ?thesis
    by (simp add: frames_def msgframe_delete_def)
next
  case (queued b s1)
  define s2 where "s2 = s1\<lparr>sv_q := (sv_q s1)\<lparr>q_send := q_send (sv_q s) @
        [\<lparr>m_addr = addr, m_len = length b, m_ts = sv_now s1, m_buf = b\<rparr>]\<rparr>\<rparr>"
  have "frames s' = frames s2" using pkt_notify_send_spec [of s2] queued(3) by (simp add: s2_def)
  also have "\<dots> = Suc (frames s)"
    using sealed_q [OF queued(1)] sends_fields(13) [OF sealed_sends [OF queued(1)]]
    by (simp add: s2_def frames_def)
  finally show ?thesis by simp
qed


subsection \<open>Sizes\<close>

text \<open>The sizes libsodium documents: nonces of the announced size, and tag and nonce of a few dozen bytes.\<close>

definition nonce_sizes :: "server \<Rightarrow> bool" where
  "nonce_sizes s \<longleftrightarrow>
     (case q_crypto (sv_q s) of
        None \<Rightarrow> True
      | Some crypto \<Rightarrow>
          cr_overhead crypto + cr_nonce_size crypto \<le> 64 \<and> length (sv_random s) = cr_nonce_size crypto \<and>
          (\<forall>b. length (sv_incr s b) = length b) \<and>
          (case q_noncegen (sv_q s) of None \<Rightarrow> True | Some g \<Rightarrow> length (ng_buf g) = cr_nonce_size crypto))"

definition overhead :: "server \<Rightarrow> nat" where
  "overhead s = (case q_crypto (sv_q s) of None \<Rightarrow> 0 | Some crypto \<Rightarrow> cr_overhead crypto + cr_nonce_size crypto)"

lemma unat_u16_less: "unat (x :: u16) < 2 ^ 16"
  using unsigned_less [of x] by simp

lemma unat_ucast_u64: "unat (ucast (x :: u16) :: u64) = unat x"
proof -
  have "unat x < 2 ^ 64" using unat_u16_less [of x] by simp
  then show ?thesis by (simp add: unsigned_ucast_eq take_bit_nat_eq_self_iff)
qed

lemma noncegen_next_length:
  assumes "noncegen_next incr rand g = (nonce, g')" "length rand = n" "\<forall>b. length (incr b) = length b"
    and "length (ng_buf g) = n"
  shows "length nonce = n \<and> length (ng_buf g') = n"
  using assms by (auto simp: noncegen_next_def Let_def split: noncegen_method.splits)

lemma padding_fits:
  assumes "rand64n (min (ucast (mss :: u16) - of_nat len) 15) rng = Some (pad, rng')" "len \<le> unat mss"
  shows "len + unat pad \<le> unat mss"
proof -
  have "len < 2 ^ 64" using assms(2) unat_u16_less [of mss] by simp
  then have d: "unat (of_nat len :: u64) = len" by (simp add: unat_of_nat take_bit_eq_mod)
  have "unat (ucast mss - of_nat len :: u64) = unat mss - len"
    using assms(2) by (subst unat_sub) (simp_all add: word_le_nat_alt unat_ucast_u64 d)
  moreover have "pad \<le> ucast mss - of_nat len" using rand64n_bound [OF assms(1)] by simp
  ultimately show ?thesis using assms(2) by (simp add: word_le_nat_alt)
qed

lemma sealed_length:
  assumes "sealed s data (Some b) s1" "nonce_sizes s" "length data \<le> unat (q_mss (sv_q s))"
  shows "length b \<le> unat (q_mss (sv_q s)) + overhead s"
proof (cases "q_crypto (sv_q s)")
  case None
  with assms show ?thesis by (simp add: sealed_def overhead_def)
next
  case (Some crypto)
  let ?n = "min (ucast (q_mss (sv_q s)) - of_nat (length data)) 15 :: u64"
  obtain pad rng g g' where
    x: "rand64n ?n (sv_rng s) = Some (pad, rng)" "q_noncegen (sv_q s) = Some g"
    "crypto_seal_inplace crypto (sv_incr s) (sv_random s) g MAX_PACKET_SIZE (unat pad) data = Some (Some b, g')"
    by (rule sealedE [OF assms(1) Some])
  obtain nonce g1 where n: "noncegen_next (sv_incr s) (sv_random s) g = (nonce, g1)" by fastforce
  have "length nonce = cr_nonce_size crypto"
    using noncegen_next_length [OF n] assms(2) by (simp add: nonce_sizes_def Some x(2))
  with x(3) n have b: "length b = length data + unat pad + cr_overhead crypto + cr_nonce_size crypto"
    by (auto simp: crypto_seal_inplace_def crypto_pad_def Let_def bind_eq_Some_conv split: if_splits)
  with padding_fits [OF x(1) assms(3)] show ?thesis by (simp add: overhead_def Some)
qed

text \<open>Every packet queued or sent fits into \<open>n\<close> bytes.\<close>

definition packets_fit :: "nat \<Rightarrow> server \<Rightarrow> bool" where
  "packets_fit n s \<longleftrightarrow> (\<forall>m \<in> set (q_send (sv_q s)). m_len m \<le> n) \<and> (\<forall>d \<in> set (sv_wire s). length (snd d) \<le> n)"

lemma fifo_fit:
  assumes "fifo s s'" "packets_fit n s"
  shows "packets_fit n s'"
proof -
  obtain sent left where f: "q_send (sv_q s) = sent @ left" "sv_wire s' = sv_wire s @ map datagram sent"
    "q_send (sv_q s') = left \<or> q_send (sv_q s') = []"
    using assms(1) by (auto simp: fifo_def)
  have "length (snd (datagram m)) \<le> m_len m" for m by (simp add: datagram_def m_data_def)
  with f assms(2) show ?thesis by (fastforce simp: packets_fit_def intro: order_trans)
qed

lemma queue_send_fit:
  assumes "queue_send s addr data = Some (ok, s')" "nonce_sizes s" "length data \<le> unat (q_mss (sv_q s))"
    and "packets_fit n s" "unat (q_mss (sv_q s)) + overhead s \<le> n"
  shows "packets_fit n s'"
  using assms(1)
proof (cases rule: queue_send_cases)
  case unsealed
  with assms(4) sealed_q [OF unsealed(1)] show ?thesis by (simp add: packets_fit_def)
next
  case (full b s1)
  with assms(4) sealed_q [OF full(1)] show ?thesis by (simp add: packets_fit_def msgframe_delete_def)
next
  case (queued b s1)
  have "length b \<le> n" using sealed_length [OF queued(1) assms(2,3)] assms(5) by simp
  with assms(4) sealed_q [OF queued(1)] show ?thesis
    unfolding queued(3) by (intro fifo_fit [OF conjunct1 [OF pkt_notify_send_spec]]) (auto simp: packets_fit_def)
qed


lemma pkt_send_noncegen: "pkt_send s = (n, s') \<Longrightarrow> q_noncegen (sv_q s') = q_noncegen (sv_q s)"
  by (auto simp: pkt_send_def pkt_send_drop_def Let_def split: if_splits prod.splits)

lemma pkt_flush_noncegen: "q_noncegen (sv_q (pkt_flush s)) = q_noncegen (sv_q s)"
proof (induction s rule: pkt_flush.induct)
  case (1 s)
  then show ?case by (subst pkt_flush.simps) (auto dest: pkt_send_noncegen split: prod.splits)
qed

lemma sealed_nonce_sizes:
  assumes "sealed s data r s1" "nonce_sizes s"
  shows "nonce_sizes s1"
proof (cases "q_crypto (sv_q s)")
  case None
  with assms show ?thesis by (auto simp: sealed_def)
next
  case (Some crypto)
  then obtain pad rng g g' where
    "rand64n (min (ucast (q_mss (sv_q s)) - of_nat (length data)) 15) (sv_rng s) = Some (pad, rng)"
    and x: "q_noncegen (sv_q s) = Some g"
    "crypto_seal_inplace crypto (sv_incr s) (sv_random s) g MAX_PACKET_SIZE (unat pad) data = Some (r, g')"
    "s1 = s\<lparr>sv_rng := rng, sv_q := (sv_q s)\<lparr>q_noncegen := Some g'\<rparr>\<rparr>"
    by (rule sealedE [OF assms(1)])
  obtain nonce g1 where n: "noncegen_next (sv_incr s) (sv_random s) g = (nonce, g1)" by fastforce
  have "g' = g \<or> g' = g1"
    using x(2) n by (auto simp: crypto_seal_inplace_def Let_def bind_eq_Some_conv split: if_splits option.splits)
  moreover have "length (ng_buf g1) = cr_nonce_size crypto"
    using noncegen_next_length [OF n] assms(2) by (simp add: nonce_sizes_def Some x(1))
  ultimately show ?thesis using assms(2) by (auto simp: nonce_sizes_def Some x(1,3))
qed

lemma queue_send_nonce_sizes:
  assumes "queue_send s addr data = Some (ok, s')" "nonce_sizes s"
  shows "nonce_sizes s'"
proof -
  obtain r s1 where s1: "sealed s data r s1" "q_noncegen (sv_q s') = q_noncegen (sv_q s1)"
    using assms(1)
  proof (cases rule: queue_send_cases)
    case (queued b s1)
    then show ?thesis using that [of "Some b" s1] by (auto simp: pkt_notify_send_def Let_def pkt_flush_noncegen)
  qed (auto simp: msgframe_delete_def intro: that)
  have "nonce_sizes s1" by (rule sealed_nonce_sizes [OF s1(1) assms(2)])
  then show ?thesis
    using s1(2) sends_fields [OF queue_send_sends [OF assms(1)]] sends_fields [OF sealed_sends [OF s1(1)]]
    by (simp add: nonce_sizes_def split: option.splits)
qed

lemma queue_send_overhead:
  "queue_send s addr data = Some (ok, s') \<Longrightarrow> overhead s' = overhead s \<and> q_mss (sv_q s') = q_mss (sv_q s)"
  by (simp add: overhead_def sends_fields [OF queue_send_sends])

lemma kcp_outputs_fit:
  assumes "kcp_outputs ss pkts s = Some (ss', s')" "nonce_sizes s" "packets_fit n s"
    and "\<forall>p \<in> set pkts. length p \<le> unat (q_mss (sv_q s))" "unat (q_mss (sv_q s)) + overhead s \<le> n"
  shows "packets_fit n s'"
  using assms
proof (induction ss pkts s rule: kcp_outputs.induct)
  case (2 ss p ps s)
  obtain ss1 s1 where o: "kcp_output ss p s = Some (ss1, s1)" "kcp_outputs ss1 ps s1 = Some (ss', s')"
    using 2(2) by (auto simp: bind_eq_Some_conv)
  show ?case
  proof (cases "msgframe_new s")
    case None
    with 2 o show ?thesis by (auto simp: kcp_output_def)
  next
    case (Some s0)
    define s2 where "s2 = s0\<lparr>sv_stats := (sv_stats s0)\<lparr>kcp_tx := kcp_tx (sv_stats s0) + of_nat (length p)\<rparr>\<rparr>"
    have s2: "sv_q s2 = sv_q s" "sv_wire s2 = sv_wire s" "sv_incr s2 = sv_incr s" "sv_random s2 = sv_random s"
      using Some by (auto simp: msgframe_new_def s2_def split: if_splits)
    have fit: "packets_fit n s2" "nonce_sizes s2" "overhead s2 = overhead s"
      using 2(3,4) s2 by (simp_all add: packets_fit_def nonce_sizes_def overhead_def split: option.splits)
    obtain ok where q: "queue_send s2 (ss_raddr ss) p = Some (ok, s1)"
      using o(1) Some by (auto simp: kcp_output_def Let_def s2_def bind_eq_Some_conv)
    note f = queue_send_fit [OF q fit(2) _ fit(1)] queue_send_nonce_sizes [OF q fit(2)] queue_send_overhead [OF q]
    show ?thesis using 2(1) [OF o(1) refl o(2)] f 2(5,6) s2 fit(3) by simp
  qed
qed simp


text \<open>With the configured sizes nothing wraps around in \<open>server_mss\<close>.\<close>

lemma server_mss_value:
  assumes "set_mss s = Some s" "conf_ranges (sv_conf s)" "nonce_sizes s" "udp_overhead (pc_domain (sv_pkt s)) = Some oh"
  shows "unat (q_mss (sv_q s)) + overhead s + oh = nat (c_kcp_mtu (sv_conf s))" "50 \<le> unat (q_mss (sv_q s))"
proof -
  obtain mtu where mtu: "c_kcp_mtu (sv_conf s) = int mtu" "300 \<le> mtu" "mtu \<le> 1500"
    using assms(2) by (auto simp: conf_ranges_def range_check_int_def intro: that [of "nat (c_kcp_mtu (sv_conf s))"])
  have oh: "oh \<le> 48" using assms(4) by (auto simp: udp_overhead_def split: if_splits)
  have ov: "overhead s \<le> 64" using assms(3) by (simp add: overhead_def nonce_sizes_def split: option.splits)
  have m: "server_mss s = Some (of_nat (mtu - oh - overhead s))"
    using assms(4) mtu oh ov by (auto simp: server_mss_def overhead_def of_nat_diff split: option.splits)
  have "q_mss (sv_q s) = q_mss (sv_q (s\<lparr>sv_q := (sv_q s)\<lparr>q_mss := ucast (of_nat (mtu - oh - overhead s) :: u64)\<rparr>\<rparr>))"
    using assms(1) by (simp add: set_mss_def m)
  then have q: "q_mss (sv_q s) = ucast (of_nat (mtu - oh - overhead s) :: u64)" by simp
  have "unat (q_mss (sv_q s)) = mtu - oh - overhead s"
    unfolding q using mtu by (simp add: unsigned_ucast_eq unat_of_nat take_bit_nat_eq_self_iff take_bit_eq_mod)
  then show "unat (q_mss (sv_q s)) + overhead s + oh = nat (c_kcp_mtu (sv_conf s))" "50 \<le> unat (q_mss (sv_q s))"
    using mtu oh ov by simp_all
qed

lemma kcp_new_mtu:
  assumes "50 \<le> unat mss"
  shows "unat (k_mtu (kcp_new True conf mss conv)) = unat mss"
proof -
  obtain n where n: "uint mss = int n" by (metis nonneg_int_cases uint_ge_0)
  then have un: "unat mss = n" by (metis nat_int unat_eq_nat_uint)
  have "k_mtu (ikcp_nodelay k a b c d) = k_mtu k" for k a b c d by (simp add: ikcp_nodelay_def Let_def)
  moreover have "k_mtu (snd (ikcp_setmtu True k (uint mss))) = word_of_int (int n)" for k
    using assms un unfolding n ikcp_setmtu_def IKCP_OVERHEAD_def by simp
  ultimately have "k_mtu (kcp_new True conf mss conv) = word_of_int (int n)"
    unfolding kcp_new_def Let_def by simp
  then show ?thesis using unat_u16_less [of mss] unat_word_of_int [of "int n"] un by simp
qed


subsection \<open>No frame is lost\<close>

text \<open>Without encryption no frame is lost; with it, none is gained.\<close>

definition keeps :: "server \<Rightarrow> server \<Rightarrow> bool" where
  "keeps s s' \<longleftrightarrow> frames s' \<le> frames s \<and> (q_crypto (sv_q s) = None \<longrightarrow> frames s' = frames s) \<and>
     q_crypto (sv_q s') = q_crypto (sv_q s) \<and> q_recv (sv_q s') = q_recv (sv_q s)"

lemma keeps_refl: "keeps s s"
  by (simp add: keeps_def)

lemma keeps_trans: "keeps s s' \<Longrightarrow> keeps s' s'' \<Longrightarrow> keeps s s''"
  by (auto simp: keeps_def)

lemma keeps_same: "sv_q s' = sv_q s \<Longrightarrow> sv_free s' = sv_free s \<Longrightarrow> keeps s s'"
  by (simp add: keeps_def frames_def)

lemma keeps_queue_send:
  assumes "msgframe_new s = Some s0" "sv_q s1 = sv_q s0" "sv_free s1 = sv_free s0" "queue_send s1 addr data = Some (ok, s')"
  shows "keeps s s'"
proof -
  have f: "frames s = Suc (frames s1)" "sv_q s1 = sv_q s"
    using assms(1-3) by (auto simp: msgframe_new_def frames_def split: if_splits)
  have "q_crypto (sv_q s) \<noteq> None" if "sealed s1 data None s'"
    using that f(2) by (auto simp: sealed_def split: option.splits)
  with f queue_send_frames [OF assms(4)] sends_fields [OF queue_send_sends [OF assms(4)]] show ?thesis
    by (auto simp: keeps_def)
qed

lemma keeps_ss0_send: "ss0_send s sa what b = Some (ok, s') \<Longrightarrow> keeps s s'"
  by (auto simp: ss0_send_def bind_eq_Some_conv keeps_refl intro: keeps_queue_send split: option.splits)

lemma keeps_kcp_output:
  assumes "kcp_output ss buf s = Some (ss', s')"
  shows "keeps s s'"
proof (cases "msgframe_new s")
  case None
  with assms show ?thesis by (simp add: kcp_output_def keeps_refl)
next
  case (Some s0)
  with assms show ?thesis
    by (auto simp: kcp_output_def Let_def bind_eq_Some_conv intro: keeps_queue_send [OF Some _ _, rotated 2])
qed

lemma keeps_kcp_outputs: "kcp_outputs ss pkts s = Some (ss', s') \<Longrightarrow> keeps s s'"
  by (induction ss pkts s rule: kcp_outputs.induct)
    (auto simp: keeps_refl bind_eq_Some_conv intro: keeps_kcp_output keeps_trans)

lemma with_sessionE:
  assumes "with_session a f s = Some (r, s')"
  obtains ss w ss1 w1 ss2 s2 where "sv_heap s a = Some (ss, w)" "f ss (w\<lparr>w_now := sv_now s\<rparr>) = Some (r, ss1, w1)"
    "kcp_outputs ss1 (drop (length (w_pkts w)) (w_pkts w1)) (add_stats (ss_stats ss) (ss_stats ss1) s) = Some (ss2, s2)"
    "s' = s2\<lparr>sv_heap := (sv_heap s2)(a \<mapsto> (ss2, w1))\<rparr>"
  using assms that by (auto simp: with_session_def bind_eq_Some_conv)

lemma keeps_with_session:
  assumes "with_session a f s = Some (r, s')"
  shows "keeps s s'"
  using assms
proof (rule with_sessionE)
  fix ss w ss1 w1 ss2 s2
  assume o: "kcp_outputs ss1 (drop (length (w_pkts w)) (w_pkts w1)) (add_stats (ss_stats ss) (ss_stats ss1) s) = Some (ss2, s2)"
    and s': "s' = s2\<lparr>sv_heap := (sv_heap s2)(a \<mapsto> (ss2, w1))\<rparr>"
  have "keeps s (add_stats (ss_stats ss) (ss_stats ss1) s)" by (rule keeps_same) (simp_all add: add_stats_def)
  moreover note keeps_kcp_outputs [OF o]
  moreover have "keeps s2 s'" unfolding s' by (rule keeps_same) simp_all
  ultimately show ?thesis by (blast intro: keeps_trans)
qed

lemma keeps_session0:
  assumes "session0 s msg = Some s'"
  shows "keeps s s'"
proof -
  have k: "keeps s (s\<lparr>sv_pkt := p\<rparr>)" for s p by (rule keeps_same) simp_all
  have "keeps s s'" if "ss0_handler what = Some h" "h s msg = Some (ok, s')" for what h ok
    using that
    by (auto simp: ss0_handler_def ss0_on_ping_def ss0_on_pong_def ss0_on_reset_def ss0_on_listen_def
        ss0_on_connect_def ss0_on_punch_def Let_def bind_eq_Some_conv keeps_refl k
        intro: keeps_ss0_send keeps_with_session keeps_trans
        split: if_splits option.splits prod.splits)
  with assms show ?thesis
    by (auto simp: session0_def bind_eq_Some_conv keeps_refl split: if_splits option.splits)
qed


lemma keeps_ss0_reset: "ss0_reset s sa conv = Some s' \<Longrightarrow> keeps s s'"
  by (auto simp: ss0_reset_def bind_eq_Some_conv intro: keeps_ss0_send)

lemma keeps_set_session: "set_session a f s = Some s' \<Longrightarrow> keeps s s'"
  by (auto simp: set_session_def bind_eq_Some_conv intro: keeps_same)

lemma keeps_put_session: "put_session s key a = Some s' \<Longrightarrow> keeps s s'"
  by (auto simp: put_session_def bind_eq_Some_conv intro: keeps_same)

lemma keeps_new_session: "new_session s addr conv = (r, s') \<Longrightarrow> keeps s s'"
  by (auto simp: new_session_def keeps_refl intro: keeps_same split: option.splits)

lemmas keeps_ops = keeps_refl keeps_ss0_reset keeps_set_session keeps_put_session keeps_new_session
  keeps_with_session keeps_session0

lemma keeps_session_packet: "session_packet s msg conv a = Some s' \<Longrightarrow> keeps s s'"
  by (auto simp: session_packet_def bind_eq_Some_conv split: if_splits intro: keeps_ops keeps_trans)

lemma keeps_queue_recv:
  assumes "queue_recv s msg = Some s'"
  shows "keeps s s'"
proof -
  have n: "keeps s s'" if "new_session s addr conv = (Some a, s1)" "put_session s1 key a = Some s2"
    "set_session a accept_kcp s2 = Some s3" "session_packet s3 msg conv a = Some s'" for addr conv a key s1 s2 s3
    using keeps_new_session [OF that(1)] keeps_put_session [OF that(2)] keeps_set_session [OF that(3)]
      keeps_session_packet [OF that(4)] by (blast intro: keeps_trans)
  from assms show ?thesis
    by (auto simp: queue_recv_def bind_eq_Some_conv split: if_splits option.splits prod.splits
        intro: keeps_ops keeps_session_packet n)
qed

lemma open_frame_frames:
  "open_frame s msg = Some (r, s') \<Longrightarrow>
     frames s' = frames s \<and> q_crypto (sv_q s') = q_crypto (sv_q s) \<and> q_recv (sv_q s') = q_recv (sv_q s)"
  by (auto simp: open_frame_def frames_def bind_eq_Some_conv split: option.splits)

lemma dispatch_loop_frames:
  assumes "dispatch_loop msgs nb s = Some (n, s')"
  shows "frames s' \<le> frames s + length msgs \<and> (q_crypto (sv_q s) = None \<longrightarrow> frames s' = frames s + length msgs) \<and>
    q_crypto (sv_q s') = q_crypto (sv_q s) \<and> q_recv (sv_q s') = q_recv (sv_q s)"
  using assms
proof (induction msgs nb s rule: dispatch_loop.induct)
  case (2 msg msgs nb s)
  have d: "frames (msgframe_delete t) = Suc (frames t) \<and> sv_q (msgframe_delete t) = sv_q t" for t
    by (simp add: msgframe_delete_def frames_def)
  obtain r s1 where o: "open_frame s msg = Some (r, s1)" using 2(3) by (auto simp: bind_eq_Some_conv)
  note f = open_frame_frames [OF o]
  show ?case
  proof (cases r)
    case None
    with 2(3) o have "dispatch_loop msgs nb (msgframe_delete s1) = Some (n, s')" by simp
    from 2(1) [OF o refl None this] d [of s1] f show ?thesis by auto
  next
    case (Some m)
    with 2(3) o obtain s2 where q: "queue_recv s1 m = Some s2"
      "dispatch_loop msgs (nb + m_len m) (msgframe_delete s2) = Some (n, s')"
      by (auto simp: bind_eq_Some_conv)
    from 2(2) [OF o refl Some q] d [of s2] f keeps_queue_recv [OF q(1)] show ?thesis
      by (auto simp: keeps_def)
  qed
qed simp

lemma queue_dispatch_frames:
  assumes "queue_dispatch s = Some (n, s')"
  shows "frames s' \<le> frames s \<and> (q_crypto (sv_q s) = None \<longrightarrow> frames s' = frames s) \<and>
    q_crypto (sv_q s') = q_crypto (sv_q s)"
proof (cases "q_recv (sv_q s) = []")
  case True
  with assms show ?thesis by (simp add: queue_dispatch_def)
next
  case False
  define s1 where "s1 = s\<lparr>sv_pkt := (sv_pkt s)\<lparr>pc_last_recv_time := sv_now s\<rparr>\<rparr>"
  have s1: "frames s1 = frames s" "sv_q s1 = sv_q s" by (simp_all add: s1_def frames_def)
  obtain s2 where d: "dispatch_loop (q_recv (sv_q s)) 0 s1 = Some (n, s2)"
    "s' = s2\<lparr>sv_q := (sv_q s2)\<lparr>q_recv := []\<rparr>\<rparr>"
    using assms False by (auto simp: queue_dispatch_def s1_def bind_eq_Some_conv)
  have "frames s2 = frames s' + length (q_recv (sv_q s2))" by (simp add: d(2) frames_def)
  with dispatch_loop_frames [OF d(1)] s1 d(2) show ?thesis by auto
qed

lemma pkt_recv_loop_frames:
  "pkt_recv_loop rs navail nrecv nb s = (n, s', rs') \<Longrightarrow>
     frames s' = frames s \<and> q_crypto (sv_q s') = q_crypto (sv_q s)"
proof (induction rs arbitrary: navail nrecv nb s)
  case Nil
  then show ?case by (auto simp: recv_count_def frames_def split: if_splits)
next
  case (Cons r rs)
  have c: "frames (recv_count nb s) = frames s \<and> sv_q (recv_count nb s) = sv_q s" for nb s
    by (simp add: recv_count_def frames_def)
  have f: "frames (recv_frames ms s) = frames s \<and> q_crypto (sv_q (recv_frames ms s)) = q_crypto (sv_q s)"
    if "length ms \<le> sv_free s" for ms
    using that by (simp add: recv_frames_def frames_def)
  define ms where "ms = take (min (min navail MMSG_BATCH_SIZE) (sv_free s)) (mmsg_packets r)"
  have ms: "length ms \<le> sv_free s" by (simp add: ms_def)
  show ?case
    using Cons.prems f [OF ms] c Cons.IH [of "navail - length ms" _ _ "recv_frames ms s"]
    by (auto simp: Let_def split: if_splits simp flip: ms_def)
qed

lemma pkt_recv_frames:
  "pkt_recv rs s = (n, s', rs') \<Longrightarrow> frames s' = frames s \<and> q_crypto (sv_q s') = q_crypto (sv_q s)"
  by (auto simp: pkt_recv_def Let_def split: if_splits dest: pkt_recv_loop_frames)

lemma pkt_read_cb_frames:
  assumes "pkt_read_cb rs s = Some s'"
  shows "frames s' \<le> frames s \<and> (q_crypto (sv_q s) = None \<longrightarrow> frames s' = frames s)"
  using assms
proof (induction rs s rule: pkt_read_cb.induct)
  case (1 rs s)
  obtain n s1 rs1 where r: "pkt_recv rs s = (n, s1, rs1)" by (metis prod_cases3)
  note f = pkt_recv_frames [OF r]
  show ?case
  proof (cases "n > 0")
    case True
    with 1(2) r obtain k s2 where d: "queue_dispatch s1 = Some (k, s2)" "pkt_read_cb rs1 s2 = Some s'"
      by (subst (asm) pkt_read_cb.simps) (auto split: option.splits)
    from 1(1) [OF r [symmetric] refl True d(1) refl d(2)] queue_dispatch_frames [OF d(1)] f show ?thesis by auto
  next
    case False
    with 1(2) r f show ?thesis by (subst (asm) pkt_read_cb.simps) auto
  qed
qed


subsection \<open>From one end to the other\<close>

lemma pkt_notify_one:
  assumes "q_send (sv_q s) = [m]" "sv_sendmmsg s = MmsgSent (Suc k) # rs"
  shows "sv_wire (pkt_notify_send s) = sv_wire s @ [datagram m]"
proof -
  have l: "pkt_send_loop [m] (MmsgSent (Suc k) # rs) = ([m], [], False, rs)"
    by (simp add: pkt_send_loop.simps MMSG_BATCH_SIZE_def Let_def)
  obtain s1 where 1: "pkt_send s = (1, s1)" "sv_wire s1 = sv_wire s @ [datagram m]" "q_send (sv_q s1) = []"
    using assms by (simp add: pkt_send_def l datagram_def)
  have "pkt_send s1 = (0, s1)" using 1(3) by (simp add: pkt_send_def)
  then have "pkt_flush s1 = s1" by (subst pkt_flush.simps) simp
  then have "pkt_flush s = s1" using 1(1) by (subst pkt_flush.simps) simp
  then show ?thesis using 1 by (simp add: pkt_notify_send_def Let_def)
qed

lemma recv_frame_data: "length d \<le> MAX_PACKET_SIZE \<Longrightarrow> m_data (recv_frame now (addr, d)) = d"
  by (simp add: recv_frame_def m_data_def)

lemma open_frame_opens:
  assumes "q_crypto (sv_q r) = Some crypto" "q_noncegen (sv_q r) = Some g"
    and "crypto_open_inplace crypto g MAX_PACKET_SIZE (m_data msg) = Some (Some plain, g')"
  shows "\<exists>msg' r'. open_frame r msg = Some (Some msg', r') \<and> m_data msg' = plain \<and> m_addr msg' = m_addr msg"
proof -
  define msg' where "msg' = msg\<lparr>m_len := length plain, m_buf := plain @ drop (length plain) (m_buf msg)\<rparr>"
  have "m_data msg' = plain" "m_addr msg' = m_addr msg" by (simp_all add: msg'_def m_data_def)
  with assms show ?thesis by (simp add: open_frame_def flip: msg'_def)
qed

lemma sealed_opens:
  assumes "q_crypto (sv_q s) = Some crypto" "q_crypto (sv_q r) = Some crypto" "cipher_ok crypto" "nonce_sizes s"
    and "data \<noteq> []" "length data \<le> unat (q_mss (sv_q s))" "unat (q_mss (sv_q s)) + overhead s \<le> MAX_PACKET_SIZE"
    and "q_noncegen (sv_q s) = Some gs" "noncegen_next (sv_incr s) (sv_random s) gs = (nonce, gs')"
    and "q_noncegen (sv_q r) = Some gr" "noncegen_verify gr nonce = Some (True, gr')"
    and "sealed s data x s1"
  shows "\<exists>b pad msg r'. x = Some b \<and> length pad \<le> 15 \<and>
    open_frame r (recv_frame now (addr, b)) = Some (Some msg, r') \<and> m_data msg = data @ pad \<and> m_addr msg = addr"
proof -
  obtain p rng g g' where x: "rand64n (min (ucast (q_mss (sv_q s)) - of_nat (length data)) 15) (sv_rng s) = Some (p, rng)"
    "q_noncegen (sv_q s) = Some g"
    "crypto_seal_inplace crypto (sv_incr s) (sv_random s) g MAX_PACKET_SIZE (unat p) data = Some (x, g')"
    by (rule sealedE [OF assms(12,1)])
  have g: "g = gs" using x(2) assms(8) by simp
  have "p \<le> 15" using rand64n_bound [OF x(1)] by simp
  then have p15: "unat p \<le> 15" by (simp add: word_le_nat_alt)
  have nl: "length nonce = cr_nonce_size crypto"
    using noncegen_next_length [OF assms(9)] assms(4) by (simp add: nonce_sizes_def assms(1,8))
  have pm: "length data + unat p \<le> unat (q_mss (sv_q s))" by (rule padding_fits [OF x(1) assms(6)])
  have cap: "length data + unat p + cr_overhead crypto + cr_nonce_size crypto \<le> MAX_PACKET_SIZE"
    using pm assms(7) by (simp add: overhead_def assms(1))
  then have "\<exists>pkt. crypto_seal_inplace crypto (sv_incr s) (sv_random s) gs MAX_PACKET_SIZE (unat p) data = Some (Some pkt, gs') \<and>
    length pkt = length data + unat p + cr_overhead crypto + cr_nonce_size crypto \<and>
    crypto_open_inplace crypto gr MAX_PACKET_SIZE pkt = Some (Some (data @ replicate (unat p) (of_nat (unat p))), gr')"
    using assms(5) p15 by (intro crypto_packet_roundtrip_lemma [OF assms(3) _ _ assms(9) nl _ _ _ assms(11)])
      (auto simp: session_sizes)
  then obtain b where b: "x = Some b" "length b \<le> MAX_PACKET_SIZE"
    "crypto_open_inplace crypto gr MAX_PACKET_SIZE b = Some (Some (data @ replicate (unat p) (of_nat (unat p))), gr')"
    using x(3) g cap by auto
  have "m_addr (recv_frame now (addr, b)) = addr" by (simp add: recv_frame_def)
  moreover have "length (replicate (unat p) (of_nat (unat p) :: u8)) \<le> 15" using p15 by simp
  ultimately show ?thesis
    using open_frame_opens [OF assms(2,10), of "recv_frame now (addr, b)"] b(1,3) recv_frame_data [OF b(2), of now addr]
    by metis
qed


subsection \<open>A server for the witnesses\<close>

definition demo_world :: world where
  "demo_world = \<lparr>w_now = 0, w_alloc = (\<lambda>_. True), w_recv = [], w_send = [], w_dial = DialFail, w_sockerr = False,
     w_tcp_in = [], w_tcp_out = [], w_sent = [], w_got = [], w_pkts = []\<rparr>"

definition demo_server :: server where
  "demo_server = \<lparr>sv_conf = conf_default\<lparr>c_mode := MODE_SERVER\<rparr>, sv_m_conv = 7, sv_sessions = table_new True 5,
     sv_heap = Map.empty, sv_next = 0, sv_listener = new_listener, sv_connect = None,
     sv_pkt = new_pktconn\<lparr>pc_domain := 2, pc_kcp_connect := SIn 1 2\<rparr>,
     sv_q = \<lparr>q_send = [], q_send_cap = 256, q_recv = [], q_recv_cap = 128, q_mss = 1354,
             q_crypto = Some demo_crypto, q_noncegen = Some demo_noncegen\<rparr>,
     sv_free = 10, sv_rng = xoshiro256ss, sv_timeouts = new_timeouts conf_default, sv_keepalive = 0,
     sv_timeout = 60000, sv_ping_timeout = 4000, sv_stats = no_stats, sv_last_resolve_time = TSTAMP_NIL,
     sv_keepalive_repeat = 0, sv_resolve_repeat = 60000, sv_now = 1000, sv_sendmmsg = [MmsgSent 1],
     sv_mem = (\<lambda>_. True), sv_seed = 9, sv_world = demo_world, sv_incr = id, sv_random = [5, 6], sv_wire = []\<rparr>"

lemma demo_nonce_sizes: "nonce_sizes demo_server"
  by (simp add: nonce_sizes_def demo_server_def demo_crypto_def demo_noncegen_def)

lemma demo_queue_send: "\<exists>s'. queue_send demo_server (SIn 1 2) [1, 2, 3] = Some (True, s')"
proof -
  have "map_option fst (queue_send demo_server (SIn 1 2) [1, 2, 3]) = Some True" by code_simp
  then show ?thesis by (cases "queue_send demo_server (SIn 1 2) [1, 2, 3]") auto
qed

subsection \<open>Properties\<close>

text \<open>
  (C1) A packet that is queued on an idle connection leaves as one datagram, which a peer with the same
  key that has not seen its nonce opens to the packet and at most 15 bytes of padding; when the packet
  is one of KCP, the engine of the peer takes it as if there were no padding.
\<close>

theorem path_roundtrip:
  assumes "q_crypto (sv_q s) = Some crypto" "q_crypto (sv_q r) = Some crypto" "cipher_ok crypto" "nonce_sizes s"
    and "data \<noteq> []" "length data \<le> unat (q_mss (sv_q s))" "unat (q_mss (sv_q s)) + overhead s \<le> MAX_PACKET_SIZE"
    and "q_noncegen (sv_q s) = Some gs" "noncegen_next (sv_incr s) (sv_random s) gs = (nonce, gs')"
    and "q_noncegen (sv_q r) = Some gr" "noncegen_verify gr nonce = Some (True, gr')"
    and "q_send (sv_q s) = []" "0 < q_send_cap (sv_q s)" "sv_sendmmsg s = MmsgSent (Suc k) # rs"
    and "queue_send s addr data = Some (ok, s')"
  shows "\<exists>d pad msg r'. ok \<and> sv_wire s' = sv_wire s @ [(addr, d)] \<and>
    open_frame r (recv_frame now (from, d)) = Some (Some msg, r') \<and> m_addr msg = from \<and>
    m_data msg = data @ pad \<and> length pad \<le> 15 \<and>
    (\<forall>conv lg ky mem kcp. wire_pkt conv lg ky data \<and> lg_ok lg \<longrightarrow>
       ikcp_input mem kcp (m_data msg) = ikcp_input mem kcp data)"
  using assms(15)
proof (cases rule: queue_send_cases)
  case unsealed
  with sealed_opens [OF assms(1-11) unsealed(1)] show ?thesis by simp
next
  case (full b s1)
  with assms(12,13) show ?thesis by simp
next
  case (queued b s1)
  obtain pad msg r' where o: "length pad \<le> 15" "open_frame r (recv_frame now (from, b)) = Some (Some msg, r')"
    "m_data msg = data @ pad" "m_addr msg = from"
    using sealed_opens [OF assms(1-11) queued(1), of now "from"] by auto
  have w: "sv_wire s1 = sv_wire s" "sv_sendmmsg s1 = sv_sendmmsg s"
    using queued(1) by (auto simp: sealed_def split: option.splits)
  have "sv_wire s' = sv_wire s @ [(addr, b)]"
    unfolding queued(3) using assms(12,14) w by (subst pkt_notify_one) (auto simp: datagram_def m_data_def)
  moreover have "ikcp_input mem kcp (m_data msg) = ikcp_input mem kcp data"
    if "wire_pkt conv lg ky data" "lg_ok lg" for conv lg ky mem kcp
    using ikcp_input_pad [OF that(1) _ that(2), of pad mem kcp] o(1,3) assms(6) unat_u16_less [of "q_mss (sv_q s)"]
    by simp
  ultimately show ?thesis using o queued(2) by blast
qed

theorem path_roundtrip_witness:
  "\<exists>s' d pad msg r'. queue_send demo_server (SIn 1 2) [1, 2, 3] = Some (True, s') \<and> sv_wire s' = [(SIn 1 2, d)] \<and>
    open_frame demo_server (recv_frame 5 (SIn 3 4, d)) = Some (Some msg, r') \<and> m_data msg = [1, 2, 3] @ pad"
proof -
  obtain s' where q: "queue_send demo_server (SIn 1 2) [1, 2, 3] = Some (True, s')" using demo_queue_send by blast
  obtain g where v: "noncegen_verify demo_noncegen [5, 6] = Some (True, g)" using demo_noncegen_first by blast
  have n: "noncegen_next id [5, 6] demo_noncegen = ([5, 6], demo_noncegen\<lparr>ng_buf := [5, 6]\<rparr>)"
    by (simp add: noncegen_next_def demo_noncegen_def)
  have "\<exists>d pad msg r'. True \<and> sv_wire s' = sv_wire demo_server @ [(SIn 1 2, d)] \<and>
    open_frame demo_server (recv_frame 5 (SIn 3 4, d)) = Some (Some msg, r') \<and> m_addr msg = SIn 3 4 \<and>
    m_data msg = [1, 2, 3] @ pad \<and> length pad \<le> 15 \<and>
    (\<forall>conv lg ky mem kcp. wire_pkt conv lg ky [1, 2, 3] \<and> lg_ok lg \<longrightarrow>
       ikcp_input mem kcp (m_data msg) = ikcp_input mem kcp [1, 2, 3])"
    by (rule path_roundtrip [where crypto = demo_crypto and gs = demo_noncegen and gr = demo_noncegen and nonce = "[5, 6]"
          and gr' = g and k = 0 and rs = "[]", OF _ _ demo_cipher_ok demo_nonce_sizes _ _ _ _ _ _ v _ _ _ q])
      (simp_all add: demo_server_def n overhead_def demo_crypto_def session_sizes)
  then show ?thesis using q by (simp add: demo_server_def) blast
qed

text \<open>
  (C1) Datagrams respect the configured MTU: with the packet size \<open>server_mss\<close> computes, packets of a
  session's KCP control block, padded and sealed, never make an IP packet larger than \<open>kcp_mtu\<close>.
\<close>

theorem packets_within_mtu:
  assumes "set_mss s = Some s" "conf_ranges (sv_conf s)" "nonce_sizes s" "udp_overhead (pc_domain (sv_pkt s)) = Some oh"
    and "packets_fit (nat (c_kcp_mtu (sv_conf s)) - oh) s"
    and "\<forall>p \<in> set pkts. length p \<le> unat (k_mtu (kcp_new True (sv_conf s) (q_mss (sv_q s)) conv))"
    and "kcp_outputs ss pkts s = Some (ss', s')"
  shows "packets_fit (nat (c_kcp_mtu (sv_conf s)) - oh) s'"
proof -
  note v = server_mss_value [OF assms(1-4)]
  show ?thesis
    using kcp_outputs_fit [OF assms(7,3,5)] assms(6) v kcp_new_mtu [OF v(2)] by simp
qed


theorem packets_within_mtu_witness:
  "\<exists>ss ss' s'. session_new (\<lambda>_. True) conf_default 1354 0 (SIn 1 2) 8 = Some ss \<and>
    kcp_outputs ss [[1, 2, 3]] demo_server = Some (ss', s') \<and> packets_fit 1372 s'"
proof -
  obtain ss where ss: "session_new (\<lambda>_. True) conf_default 1354 0 (SIn 1 2) 8 = Some ss"
    by (simp add: session_new_def)
  have "kcp_outputs ss [[1, 2, 3]] demo_server \<noteq> None"
  proof -
    have "case session_new (\<lambda>_. True) conf_default 1354 0 (SIn 1 2) 8 of None \<Rightarrow> False
      | Some ss \<Rightarrow> kcp_outputs ss [[1, 2, 3]] demo_server \<noteq> None" by code_simp
    then show ?thesis by (simp add: ss)
  qed
  then obtain ss' s' where o: "kcp_outputs ss [[1, 2, 3]] demo_server = Some (ss', s')" by auto
  have m: "set_mss demo_server = Some demo_server"
    by (simp add: set_mss_def server_mss_def demo_server_def udp_overhead_def conf_default_def demo_crypto_def)
  have "conf_ranges (sv_conf demo_server)"
    by (simp add: conf_ranges_def range_check_int_def demo_server_def conf_default_def conf_consts)
  then have "packets_fit (nat (c_kcp_mtu (sv_conf demo_server)) - 28) s'"
    by (rule packets_within_mtu [OF m _ demo_nonce_sizes _ _ _ o, where conv = 8])
      (simp_all add: kcp_new_mtu demo_server_def udp_overhead_def packets_fit_def)
  then show ?thesis using ss o by (auto simp: demo_server_def conf_default_def)
qed

text \<open>
  (C1) The read callback loses no message frame: without encryption, the frames that can be allocated
  and those in the two queues are as many after it as before, whatever was received; with encryption
  there are never more.
\<close>

theorem frames_conserved:
  assumes "pkt_read_cb rs s = Some s'"
  shows "frames s' \<le> frames s \<and> (q_crypto (sv_q s) = None \<longrightarrow> frames s' = frames s)"
  using assms by (rule pkt_read_cb_frames)

definition demo_plain :: server where
  "demo_plain = demo_server\<lparr>sv_q := (sv_q demo_server)\<lparr>q_crypto := None, q_noncegen := None\<rparr>\<rparr>"

theorem frames_conserved_witness:
  "\<exists>s'. pkt_read_cb [MmsgRecvd [(SIn 1 2, [0, 0, 0, 0, 0, 0, 1, 2, 3, 4])]] demo_plain = Some s' \<and> frames s' = 10 \<and>
    sv_wire s' = [(SIn 1 2, [0, 0, 0, 0, 0, 1, 1, 2, 3, 4])]"
proof -
  have "map_option sv_wire (pkt_read_cb [MmsgRecvd [(SIn 1 2, [0, 0, 0, 0, 0, 0, 1, 2, 3, 4])]] demo_plain) =
    Some [(SIn 1 2, [0, 0, 0, 0, 0, 1, 1, 2, 3, 4])]" by code_simp
  then obtain s' where r: "pkt_read_cb [MmsgRecvd [(SIn 1 2, [0, 0, 0, 0, 0, 0, 1, 2, 3, 4])]] demo_plain = Some s'"
    "sv_wire s' = [(SIn 1 2, [0, 0, 0, 0, 0, 1, 1, 2, 3, 4])]" by auto
  have "q_crypto (sv_q demo_plain) = None" "frames demo_plain = 10"
    by (simp_all add: demo_plain_def demo_server_def frames_def)
  with frames_conserved [OF r(1)] r show ?thesis by auto
qed

text \<open>
  (C1) Packets leave in the order they were queued: flushing sends the first packets of the queue, and
  the rest stays queued or, after a persistent error, is dropped as a whole.
\<close>

theorem send_order:
  "\<exists>sent left. q_send (sv_q s) = sent @ left \<and> sv_wire (pkt_flush s) = sv_wire s @ map datagram sent \<and>
     (q_send (sv_q (pkt_flush s)) = left \<or> q_send (sv_q (pkt_flush s)) = [])"
  using pkt_flush_spec [of s] by (simp add: fifo_def)

end
