(* ===== verification/Spec2Isabelle.thy ===== *)
theory Spec2Isabelle
  imports Path
begin

text \<open>
  A model of kcptun-libev, a TCP tunnel over the KCP protocol.
\<close>

section \<open>The KCP link\<close>

subsection \<open>A concrete link for the witnesses\<close>

definition demo_kcp :: ikcpcb where
  "demo_kcp = kcp_new True conf_default 1400 7"

lemma demo_kcp_fresh: "kcp_fresh 7 demo_kcp"
  unfolding demo_kcp_def by (rule kcp_new_fresh) code_simp

text \<open>The client sends three bytes; the packet arrives twice; the server reads and acknowledges.\<close>

definition demo_link :: "link option" where
  "demo_link = link_run
     [DoSend Client [1, 2, 3], DoUpdate Client 0, DoDeliver Server 0, DoDeliver Server 0,
      DoRecv Server 100, DoUpdate Server 0, DoDeliver Client 0] (link_start demo_kcp demo_kcp)"

definition demo_end :: link where
  "demo_end = (case demo_link of Some S \<Rightarrow> S | None \<Rightarrow> link_start demo_kcp demo_kcp)"

lemma demo_view:
  "map_option (\<lambda>S. (l_sent S Client, l_got S Server, length (l_log S Client), length (l_log S Server),
     k_snd_buf (l_ep S Client), k_snd_queue (l_ep S Client))) demo_link =
   Some ([1, 2, 3], [1, 2, 3], 1, 0, [], [])"
  unfolding demo_link_def demo_kcp_def by code_simp

lemma demo_link_Some: "demo_link = Some demo_end"
proof -
  obtain S where S: "demo_link = Some S" using demo_view by (cases demo_link) auto
  then show ?thesis unfolding demo_end_def S option.case ..
qed

lemma demo_reach: "link_reach (link_start demo_kcp demo_kcp) demo_end"
  using demo_link_Some unfolding demo_link_def by (rule link_run_reach) (rule link_reach.start)

lemma demo_facts:
  "l_sent demo_end Client = [1, 2, 3]" "l_got demo_end Server = [1, 2, 3]"
  "length (l_log demo_end Client) = 1" "length (l_log demo_end Server) = 0"
  "k_snd_buf (l_ep demo_end Client) = []" "k_snd_queue (l_ep demo_end Client) = []"
  using demo_view by (simp_all add: demo_link_Some)

lemma demo_log: "\<forall>x. length (l_log demo_end x) < 2 ^ 31"
proof
  fix x show "length (l_log demo_end x) < 2 ^ 31" by (cases x) (simp_all add: demo_facts)
qed

subsection \<open>Properties\<close>

text \<open>
  (C1) Reliable, ordered delivery. Take two control blocks of the same conversation as \<open>kcp_new\<close>
  leaves them and any run of sends, receives, flushes, timer updates and packet deliveries in which
  the network loses, duplicates and reorders packets at will, and in which each side puts fewer
  than \<open>2\<^sup>3\<^sup>1\<close> segments on the wire. Then the bytes either application has received are a prefix of
  the bytes the other has sent.
\<close>

theorem link_delivery:
  assumes "link_reach (link_start kc ks) S" "kcp_fresh conv kc" "kcp_fresh conv ks"
    and "\<forall>x. length (l_log S x) < 2 ^ 31"
  shows "prefix (l_got S (peer x)) (l_sent S x)"
  using link_prefix [OF link_reach_inv [OF assms(1) link_inv_start [OF assms(2,3)] assms(4)]] .

theorem link_delivery_witness:
  "link_reach (link_start demo_kcp demo_kcp) demo_end \<and> kcp_fresh 7 demo_kcp \<and>
   l_got demo_end Server = [1, 2, 3] \<and> prefix (l_got demo_end (peer Client)) (l_sent demo_end Client)"
  using link_delivery [OF demo_reach demo_kcp_fresh demo_kcp_fresh demo_log, of Client]
    demo_reach demo_kcp_fresh demo_facts(2) by simp

text \<open>
  (C2) Nothing is lost. In such a run, once one side has no segment left to send or to have
  acknowledged, the other side holds every byte that was sent: read by the application, or in order
  in its receive queue and buffer.
\<close>

theorem link_all_delivered:
  assumes "link_reach (link_start kc ks) S" "kcp_fresh conv kc" "kcp_fresh conv ks"
    and "\<forall>x. length (l_log S x) < 2 ^ 31"
    and "k_snd_buf (l_ep S x) = []" "k_snd_queue (l_ep S x) = []"
  shows "l_got S (peer x) @ stream_of (k_rcv_queue (l_ep S (peer x))) @
    stream_of (k_rcv_buf (l_ep S (peer x))) = l_sent S x"
  using link_complete [OF link_reach_inv [OF assms(1) link_inv_start [OF assms(2,3)] assms(4)] assms(5,6)] .

theorem link_all_delivered_witness:
  "k_snd_buf (l_ep demo_end Client) = [] \<and> k_snd_queue (l_ep demo_end Client) = [] \<and>
   l_got demo_end (peer Client) @ stream_of (k_rcv_queue (l_ep demo_end (peer Client))) @
     stream_of (k_rcv_buf (l_ep demo_end (peer Client))) = l_sent demo_end Client"
  using link_all_delivered [OF demo_reach demo_kcp_fresh demo_kcp_fresh demo_log demo_facts(5,6)]
    demo_facts(5,6) by simp



text \<open>
  (C4) Packets fit. Every packet \<open>ikcp_flush\<close> hands to the output callback after any sequence of API
  calls is non-empty and at most \<open>mtu\<close> bytes long.
\<close>

theorem kcp_packets_fit:
  assumes "kcp_fresh conv k0" "kcp_call\<^sup>*\<^sup>* k0 k" "p \<in> set (snd (ikcp_flush k))"
  shows "p \<noteq> [] \<and> length p \<le> unat (k_mtu k)"
  using flush_packets [OF kcp_calls_inv [OF assms(2)] assms(3)] assms(1) by (auto simp: kcp_fresh_def)

theorem kcp_packets_fit_witness:
  "\<exists>k p. kcp_call\<^sup>*\<^sup>* demo_kcp k \<and> p \<in> set (snd (ikcp_flush k)) \<and> p \<noteq> [] \<and> length p \<le> unat (k_mtu k)"
proof -
  let ?k = "snd (ikcp_send (\<lambda>_. True) (fst (ikcp_update demo_kcp 0)) [1, 2] (int (length [1 :: u8, 2])))"
  have "kcp_call demo_kcp (fst (ikcp_update demo_kcp 0))" by (rule kcp_call.update)
  moreover have "kcp_call (fst (ikcp_update demo_kcp 0)) ?k" by (rule kcp_call.send) simp
  ultimately have r: "kcp_call\<^sup>*\<^sup>* demo_kcp ?k" by auto
  have "length (snd (ikcp_flush ?k)) = 1" unfolding demo_kcp_def by code_simp
  then have "hd (snd (ikcp_flush ?k)) \<in> set (snd (ikcp_flush ?k))" by (intro hd_in_set) auto
  from kcp_packets_fit [OF demo_kcp_fresh r this] this r show ?thesis by blast
qed



definition demo_seg :: ikcpseg where
  "demo_seg = \<lparr>s_conv = 7, s_cmd = 81, s_frg = 0, s_wnd = 256, s_ts = 4000000000, s_sn = 9, s_una = 8,
     s_len = 2, s_resendts = 1, s_rto = 200, s_fastack = 1, s_xmit = 3, s_data = [1, 2]\<rparr>"

lemma ucast_ucast_u32:
  "unat (w :: u32) < 2 ^ 8 \<Longrightarrow> ucast (ucast w :: u8) = w"
  "unat w < 2 ^ 16 \<Longrightarrow> ucast (ucast w :: u16) = w"
  by (simp_all add: word_unat_eq_iff unsigned_ucast_eq take_bit_eq_mod unat_mod_distrib)

text \<open>
  (C6) A segment header is read back from what was written: all fields of a segment whose command and
  fragment fit in a byte and whose window fits in 16 bits.
\<close>

theorem seg_header_roundtrip:
  assumes "unat (s_cmd s) < 2 ^ 8" "unat (s_frg s) < 2 ^ 8" "unat (s_wnd s) < 2 ^ 16"
  shows "ikcp_decode_seg (ikcp_encode_seg s @ r) =
    Some (s\<lparr>s_resendts := 0, s_rto := 0, s_fastack := 0, s_xmit := 0, s_data := []\<rparr>, r)"
proof -
  have "ucast (ucast (s_cmd s) :: u8) = s_cmd s" "ucast (ucast (s_frg s) :: u8) = s_frg s"
    "ucast (ucast (s_wnd s) :: u16) = s_wnd s"
    using assms by (simp_all add: ucast_ucast_u32)
  then show ?thesis by (simp add: decode_encode_seg seg_header_def)
qed

theorem seg_header_roundtrip_witness:
  "ikcp_decode_seg (ikcp_encode_seg demo_seg @ [5]) =
    Some (demo_seg\<lparr>s_resendts := 0, s_rto := 0, s_fastack := 0, s_xmit := 0, s_data := []\<rparr>, [5])"
  by (rule seg_header_roundtrip) (simp_all add: demo_seg_def)

text \<open>
  (C7) \<open>ikcp_check\<close> never announces a time too late: an \<open>ikcp_update\<close> at any time before the one it
  returns sends nothing and changes nothing but the clock.
\<close>

theorem ikcp_check_idle:
  assumes "offs cur now < offs cur (ikcp_check k cur)"
  shows "ikcp_update k now = (k\<lparr>k_current := now\<rparr>, [])"
  using ikcp_check_idle_lemma [OF assms] .

theorem ikcp_check_idle_witness:
  "ikcp_update (fst (ikcp_update demo_kcp 0)) 60 = ((fst (ikcp_update demo_kcp 0))\<lparr>k_current := 60\<rparr>, [])"
  by (rule ikcp_check_idle [of 10]) (unfold demo_kcp_def, code_simp)

section \<open>Configuration\<close>


text \<open>
  (C9) A configuration that was read gives working sessions: with the configuration \<open>conf_read\<close>
  returns, whatever the packet queue leaves as segment size and whether or not \<open>ikcp_setmtu\<close> got its
  memory, the control block of a new session satisfies the invariant of the KCP engine and is empty.
\<close>

theorem conf_read_kcp_fresh:
  assumes "conf_read root = Some conf"
  shows "kcp_fresh conv (kcp_new mem conf mss conv)"
proof (rule conf_read_Some [OF assms])
  fix conf0 assume h: "fst (conf_check conf0)" "conf = conf0\<lparr>c_mode := conf_mode conf0\<rparr>"
  then have "conf_ranges conf" by (simp add: conf_check_iff conf_ranges_def)
  then show ?thesis by (rule kcp_new_fresh)
qed

definition demo_root :: jutil_value where
  "demo_root = JObject [(''listen'', JString ''127.0.0.1:1080''), (''kcp_connect'', JString ''[::1]:12345''),
     (''kcp'', JObject [(''mtu'', JNumber 1200), (''sndwnd'', JNumber 1024)])]"

theorem conf_read_kcp_fresh_witness:
  "\<exists>conf. conf_read (Some demo_root) = Some conf \<and> kcp_fresh 5 (kcp_new True conf 1200 5)"
proof -
  have "conf_read (Some demo_root) \<noteq> None" by code_simp
  then obtain conf where "conf_read (Some demo_root) = Some conf" by blast
  with conf_read_kcp_fresh [OF this] show ?thesis by blast
qed

end
